theory Spec2Isabelle
  imports
    Main
    "HOL-Library.Word"
    "HOL-Library.Char_ord"
    "HOL-Library.List_Lexorder"
    "HOL-Library.Product_Lexorder"
    "HOL-Library.Multiset"
begin

section \<open>Listener cache: internal/contour/listener.go\<close>

text \<open>
  Strings are byte lists; Go compares strings bytewise and lexicographically, which is
  the order \<^theory_text>\<open>List_Lexorder\<close> and \<^theory_text>\<open>Char_ord\<close> put on \<^typ>\<open>string\<close>.

  The TLS protocol versions are the enumeration \<open>TlsParameters_TlsProtocol\<close> of the
  Envoy API, an \<open>int32\<close> in Go, whose named values are 0 to 4.
\<close>

type_synonym TlsProtocol = int

definition TLS_AUTO :: TlsProtocol where "TLS_AUTO = 0"
definition TLSv1_0 :: TlsProtocol where "TLSv1_0 = 1"
definition TLSv1_1 :: TlsProtocol where "TLSv1_1 = 2"
definition TLSv1_2 :: TlsProtocol where "TLSv1_2 = 3"
definition TLSv1_3 :: TlsProtocol where "TLSv1_3 = 4"

text \<open>The names the go-control-plane \<open>wellknown\<close> package gives the two network filters.\<close>

definition wellknown_HTTPConnectionManager :: string where
  "wellknown_HTTPConnectionManager = ''envoy.http_connection_manager''"

definition wellknown_TCPProxy :: string where
  "wellknown_TCPProxy = ''envoy.tcp_proxy''"

definition wellknown_Router :: string where
  "wellknown_Router = ''envoy.router''"


section \<open>The graph's vertices: internal/dag\<close>

text \<open>
  The type declarations of package \<open>dag\<close> are not among the sources; the records below
  hold the fields the functions under study read or write. A value that these functions
  only copy (a policy block, a certificate, a health check) is carried as an
  uninterpreted string.

  \<open>time.Duration\<close> is a signed 64-bit count of nanoseconds; a protobuf duration is a
  pair of seconds (\<open>int64\<close>) and nanoseconds (\<open>int32\<close>).
\<close>

type_synonym Opaque = string

record DurationProto =
  Seconds :: int
  Nanos :: int

record Secret =
  sec_Namespace :: string
  sec_Name :: string
  sec_Data :: Opaque

record dagService =
  svc_Namespace :: string
  svc_Name :: string
  svc_Port :: int
  svc_Protocol :: string

record HTTPHealthCheckPolicy =
  hp_Path :: string
  hp_Host :: string
  hp_Interval :: int
  hp_Timeout :: int
  UnhealthyThreshold :: "32 word"
  HealthyThreshold :: "32 word"

record Cluster =
  Upstream :: dagService
  LoadBalancerPolicy :: string
  Weight :: "32 word"
  HTTPHealthCheckPolicy :: "HTTPHealthCheckPolicy option"
  UpstreamValidation :: "Opaque option"
  Protocol :: string
  cl_IdleTimeout :: "DurationProto option"

record dagTCPProxy =
  Clusters :: "Cluster list"

record dagRoute =
  PathCondition :: string
  Websocket :: bool
  HTTPSUpgrade :: bool
  PrefixRewrite :: string
  TimeoutPolicy :: "int option"
  RetryPolicy :: "Opaque option"
  HashPolicy :: "Opaque list"
  PerFilterConfig :: "Opaque option"
  RequestHeadersPolicy :: "Opaque option"
  ResponseHeadersPolicy :: "Opaque option"
  rt_IdleTimeout :: "DurationProto option"
  rt_Timeout :: "DurationProto option"
  rt_Tracing :: "(nat \<times> nat) option"
  HeaderConditions :: "Opaque list"
  rt_Clusters :: "Cluster list"

record VirtualHost =
  vh_Name :: string
  vh_routes :: "dagRoute list"

record SecureVirtualHost =
  svh_VirtualHost :: VirtualHost
  svh_Secret :: "Secret option"
  MinProtoVersion :: TlsProtocol
  MaxProtoVersion :: TlsProtocol
  DownstreamValidation :: "Opaque option"
  svh_TCPProxy :: "dagTCPProxy option"
  FallbackCertificate :: "Secret option"

text \<open>
  \<open>visit\<close> dispatches on the vertex's type: a VirtualHost, a SecureVirtualHost, or any
  other vertex, whose children it visits in turn.
\<close>

datatype Vertex =
    VirtualHost_vertex VirtualHost
  | SecureVirtualHost_vertex SecureVirtualHost
  | Other_vertex "Vertex list"

section \<open>Envoy objects: the envoy package's listener file\<close>

datatype AccessLog = FileAccessLogJSON string "string list" | FileAccessLogEnvoy string

record HttpFilter =
  hf_Name :: string
  hf_TypedConfig :: "Opaque option"

record httpConnectionManagerBuilder =
  routeConfigName :: string
  metricsPrefix :: string
  accessLoggers :: "AccessLog list"
  b_requestTimeout :: int
  filters :: "HttpFilter list"

record HttpConnectionManager =
  hcm_RouteConfigName :: string
  hcm_HttpFilters :: "HttpFilter list"
  hcm_RequestTimeout :: int
  hcm_AccessLog :: "AccessLog list"
  hcm_StatPrefix :: string
  hcm_ServerName :: string

record ClusterWeight =
  cw_Name :: string
  cw_Weight :: "32 word"

datatype TcpClusterSpecifier =
    TcpProxy_Cluster string
  | TcpProxy_WeightedClusters "ClusterWeight list"

record TcpProxy =
  tp_StatPrefix :: string
  tp_ClusterSpecifier :: TcpClusterSpecifier
  tp_AccessLog :: "AccessLog list"
  tp_IdleTimeout :: int

datatype FilterConfig =
    HttpConnectionManager_config HttpConnectionManager
  | TcpProxy_config TcpProxy

record Filter =
  f_Name :: string
  f_TypedConfig :: FilterConfig

text \<open>
  Modelled from the spec: \<open>envoy.DownstreamTLSContextAdobe\<close>, \<open>envoy.DownstreamTLSContext\<close>,
  \<open>envoy.DownstreamTLSTransportSocket\<close> and \<open>envoy.GetDownstreamTLSContext\<close> are not
  among the sources. The spec has the filter chain's TLS context hold the certificate,
  the resolved minimum and maximum version and the validation; the context is the record
  of the constructor's arguments, the maximum of the older constructor is the
  highest supported version, and a chain's transport socket is its context, if any.
\<close>

record DownstreamTlsContext =
  tls_Secret :: Secret
  TlsMinimumProtocolVersion :: TlsProtocol
  TlsMaximumProtocolVersion :: TlsProtocol
  tls_Validation :: "Opaque option"
  AlpnProtocols :: "string list"

definition DownstreamTLSContextAdobe ::
  "Secret \<Rightarrow> TlsProtocol \<Rightarrow> TlsProtocol \<Rightarrow> Opaque option \<Rightarrow> string list \<Rightarrow> DownstreamTlsContext" where
  "DownstreamTLSContextAdobe secret tlsMin tlsMax validation alpnProtos =
     \<lparr>tls_Secret = secret, TlsMinimumProtocolVersion = tlsMin,
      TlsMaximumProtocolVersion = tlsMax, tls_Validation = validation,
      AlpnProtocols = alpnProtos\<rparr>"

definition DownstreamTLSContext ::
  "Secret \<Rightarrow> TlsProtocol \<Rightarrow> Opaque option \<Rightarrow> string list \<Rightarrow> DownstreamTlsContext" where
  "DownstreamTLSContext secret tlsMin validation alpnProtos =
     DownstreamTLSContextAdobe secret tlsMin TLSv1_3 validation alpnProtos"

record FilterChainMatch =
  ServerNames :: "string list"
  TransportProtocol :: string

text \<open>
  Every chain of the secure listener is made by \<open>FilterChainTLS\<close> or
  \<open>FilterChainTLSFallback\<close>, which both set \<open>FilterChainMatch\<close>; the field is not
  optional here.
\<close>

record FilterChain =
  fc_Name :: string
  fc_Filters :: "Filter list"
  fc_FilterChainMatch :: FilterChainMatch
  TransportSocket :: "DownstreamTlsContext option"

definition RouteConfigName :: "string \<Rightarrow> httpConnectionManagerBuilder \<Rightarrow> httpConnectionManagerBuilder" where
  "RouteConfigName name b = b\<lparr>routeConfigName := name\<rparr>"

definition MetricsPrefix :: "string \<Rightarrow> httpConnectionManagerBuilder \<Rightarrow> httpConnectionManagerBuilder" where
  "MetricsPrefix prefix b = b\<lparr>metricsPrefix := prefix\<rparr>"

definition AccessLoggers :: "AccessLog list \<Rightarrow> httpConnectionManagerBuilder \<Rightarrow> httpConnectionManagerBuilder" where
  "AccessLoggers loggers b = b\<lparr>accessLoggers := loggers\<rparr>"

definition RequestTimeout_b :: "int \<Rightarrow> httpConnectionManagerBuilder \<Rightarrow> httpConnectionManagerBuilder" where
  "RequestTimeout_b timeout b = b\<lparr>b_requestTimeout := timeout\<rparr>"

definition DefaultFilters :: "httpConnectionManagerBuilder \<Rightarrow> httpConnectionManagerBuilder" where
  "DefaultFilters b = b\<lparr>filters := filters b @
     [\<lparr>hf_Name = ''envoy.filters.http.ip_allow_deny'', hf_TypedConfig = None\<rparr>,
      \<lparr>hf_Name = ''envoy.filters.http.health_check_simple'',
       hf_TypedConfig = Some ''envoy.config.filter.http.health_check_simple.v2.HealthCheckSimple''\<rparr>,
      \<lparr>hf_Name = ''envoy.filters.http.header_size'',
       hf_TypedConfig = Some ''envoy.config.filter.http.header_size.v2.HeaderSize''\<rparr>,
      \<lparr>hf_Name = wellknown_Router, hf_TypedConfig = Some ''SuppressEnvoyHeaders''\<rparr>]\<rparr>"

definition HTTPConnectionManagerBuilder :: httpConnectionManagerBuilder where
  "HTTPConnectionManagerBuilder =
     \<lparr>routeConfigName = [], metricsPrefix = [], accessLoggers = [],
      b_requestTimeout = 0, filters = []\<rparr>"

definition Get :: "httpConnectionManagerBuilder \<Rightarrow> Filter" where
  "Get b =
     \<lparr>f_Name = wellknown_HTTPConnectionManager,
      f_TypedConfig = HttpConnectionManager_config
        \<lparr>hcm_RouteConfigName = routeConfigName b,
         hcm_HttpFilters = filters b,
         hcm_RequestTimeout = b_requestTimeout b,
         hcm_AccessLog = accessLoggers b,
         hcm_StatPrefix = (if metricsPrefix b \<noteq> [] then metricsPrefix b else routeConfigName b),
         hcm_ServerName = ''adobe''\<rparr>\<rparr>"

text \<open>
  \<open>TCPProxy\<close>: one cluster is named directly; any other number gives a weighted list in
  which a cluster of weight zero gets weight one.
  \<open>Clustername\<close> is not among the sources and is a parameter.
  Modelled from the spec: \<open>sorter.For\<close> is not among the sources; weighted-cluster lists
  are stably sorted by cluster name, ties broken by weight.
\<close>

fun tcp_clusters :: "(Cluster \<Rightarrow> string) \<Rightarrow> Cluster list \<Rightarrow> ClusterWeight list \<Rightarrow> ClusterWeight list" where
  "tcp_clusters Clustername [] clusters = clusters"
| "tcp_clusters Clustername (c # cs) clusters =
     (let weight = Weight c;
          weight = (if weight = 0 then 1 else weight)
      in tcp_clusters Clustername cs
           (clusters @ [\<lparr>cw_Name = Clustername c, cw_Weight = weight\<rparr>]))"

definition sorter_For_clusters :: "ClusterWeight list \<Rightarrow> ClusterWeight list" where
  "sorter_For_clusters cs = sort_key (\<lambda>c. (cw_Name c, cw_Weight c)) cs"

definition TCPProxy :: "(Cluster \<Rightarrow> string) \<Rightarrow> string \<Rightarrow> dagTCPProxy \<Rightarrow> AccessLog list \<Rightarrow> Filter" where
  "TCPProxy Clustername statPrefix proxy accesslogger =
     (let idleTimeout = 9001 * 1000000000 in
      case Clusters proxy of
        [c] \<Rightarrow>
          \<lparr>f_Name = wellknown_TCPProxy,
           f_TypedConfig = TcpProxy_config
             \<lparr>tp_StatPrefix = statPrefix,
              tp_ClusterSpecifier = TcpProxy_Cluster (Clustername c),
              tp_AccessLog = accesslogger,
              tp_IdleTimeout = idleTimeout\<rparr>\<rparr>
      | cs \<Rightarrow>
          \<lparr>f_Name = wellknown_TCPProxy,
           f_TypedConfig = TcpProxy_config
             \<lparr>tp_StatPrefix = statPrefix,
              tp_ClusterSpecifier =
                TcpProxy_WeightedClusters (sorter_For_clusters (tcp_clusters Clustername cs [])),
              tp_AccessLog = accesslogger,
              tp_IdleTimeout = idleTimeout\<rparr>\<rparr>)"

definition Filters :: "Filter \<Rightarrow> Filter list" where
  "Filters f = [f]"

definition FilterChainTLS :: "string \<Rightarrow> DownstreamTlsContext option \<Rightarrow> Filter list \<Rightarrow> FilterChain" where
  "FilterChainTLS domain downstream fs =
     \<lparr>fc_Name = [], fc_Filters = fs,
      fc_FilterChainMatch = \<lparr>ServerNames = [domain], TransportProtocol = []\<rparr>,
      TransportSocket = downstream\<rparr>"

definition FilterChainTLSFallback :: "DownstreamTlsContext option \<Rightarrow> Filter list \<Rightarrow> FilterChain" where
  "FilterChainTLSFallback downstream fs =
     \<lparr>fc_Name = ''fallback-certificate'', fc_Filters = fs,
      fc_FilterChainMatch = \<lparr>ServerNames = [], TransportProtocol = ''tls''\<rparr>,
      TransportSocket = downstream\<rparr>"

fun ContainsFallbackFilterChain :: "FilterChain list \<Rightarrow> bool" where
  "ContainsFallbackFilterChain [] = False"
| "ContainsFallbackFilterChain (fc # filterchains) =
     (if fc_Name fc = ''fallback-certificate'' then True
      else ContainsFallbackFilterChain filterchains)"


section \<open>Weighted clusters of a route: internal/envoy/route.go\<close>

text \<open>
  A service's weight and the running total are Go \<open>int\<close>s, 64 bits wide on the
  platforms the program is built for; \<open>u32\<close> is the conversion \<open>uint32(val)\<close>, which
  keeps the low 32 bits. The service a weight belongs to is only passed on to
  \<open>Clustername\<close>, which is not among the sources and is a parameter.
\<close>

record 'svc HTTPService =
  TCPService :: 'svc
  hs_Weight :: "64 word"

record WeightedCluster_ClusterWeight =
  wc_Name :: string
  wc_Weight :: "32 word"
  RequestHeadersToAdd :: "(string \<times> string \<times> bool) list"

record WeightedCluster =
  wc_Clusters :: "WeightedCluster_ClusterWeight list"
  TotalWeight :: "32 word"

definition u32 :: "64 word \<Rightarrow> 32 word" where
  "u32 val = ucast val"

definition appendHeader :: "string \<Rightarrow> string \<Rightarrow> string \<times> string \<times> bool" where
  "appendHeader key val = (key, val, True)"

definition headers :: "(string \<times> string \<times> bool) \<Rightarrow> (string \<times> string \<times> bool) list" where
  "headers first = [first]"

fun weightedClusters_loop ::
  "('svc \<Rightarrow> string) \<Rightarrow> 'svc HTTPService list \<Rightarrow> 64 word \<Rightarrow>
   WeightedCluster_ClusterWeight list \<Rightarrow> 64 word \<times> WeightedCluster_ClusterWeight list" where
  "weightedClusters_loop Clustername [] total_w clusters = (total_w, clusters)"
| "weightedClusters_loop Clustername (service # services) total_w clusters =
     weightedClusters_loop Clustername services (total_w + hs_Weight service)
       (clusters @
         [\<lparr>wc_Name = Clustername (TCPService service),
           wc_Weight = u32 (hs_Weight service),
           RequestHeadersToAdd =
             headers (appendHeader ''x-request-start'' ''t=%START_TIME(%s.%3f)%'')\<rparr>])"

definition clusterWeightByName ::
  "WeightedCluster_ClusterWeight list \<Rightarrow> WeightedCluster_ClusterWeight list" where
  "clusterWeightByName cs = sort_key (\<lambda>c. (wc_Name c, wc_Weight c)) cs"

definition weightedClusters :: "('svc \<Rightarrow> string) \<Rightarrow> 'svc HTTPService list \<Rightarrow> WeightedCluster" where
  "weightedClusters Clustername services =
     (case weightedClusters_loop Clustername services 0 [] of
        (total_w, clusters) \<Rightarrow>
          (if total_w = 0
           then \<lparr>wc_Clusters = clusterWeightByName (map (\<lambda>c. c\<lparr>wc_Weight := 1\<rparr>) clusters),
                 TotalWeight = u32 (of_nat (length services))\<rparr>
           else \<lparr>wc_Clusters = clusterWeightByName clusters, TotalWeight = u32 total_w\<rparr>))"

section \<open>The listener visitor and the listener cache: internal/contour\<close>

definition ENVOY_HTTPS_LISTENER :: string where
  "ENVOY_HTTPS_LISTENER = ''ingress_https''"

definition ENVOY_FALLBACK_ROUTECONFIG :: string where
  "ENVOY_FALLBACK_ROUTECONFIG = ''ingress_fallbackcert''"

definition DEFAULT_HTTPS_ACCESS_LOG :: string where
  "DEFAULT_HTTPS_ACCESS_LOG = ''/dev/stdout''"

definition DEFAULT_ACCESS_LOG_TYPE :: string where
  "DEFAULT_ACCESS_LOG_TYPE = ''envoy''"

record ListenerVisitorConfig =
  HTTPAddress :: string
  HTTPPort :: int
  HTTPAccessLog :: string
  HTTPSAddress :: string
  HTTPSPort :: int
  HTTPSAccessLog :: string
  UseProxyProto :: bool
  MinimumProtocolVersion :: TlsProtocol
  DefaultCertificate :: string
  AccessLogType :: string
  AccessLogFields :: "string list option"
  RequestTimeout :: int

definition httpsAccessLog :: "ListenerVisitorConfig \<Rightarrow> string" where
  "httpsAccessLog lvc =
     (if HTTPSAccessLog lvc \<noteq> [] then HTTPSAccessLog lvc else DEFAULT_HTTPS_ACCESS_LOG)"

definition accesslogType :: "ListenerVisitorConfig \<Rightarrow> string" where
  "accesslogType lvc =
     (if AccessLogType lvc \<noteq> [] then AccessLogType lvc else DEFAULT_ACCESS_LOG_TYPE)"

text \<open>\<open>envoy.DefaultFields\<close> is not among the sources and is a parameter.\<close>

definition accesslogFields :: "string list \<Rightarrow> ListenerVisitorConfig \<Rightarrow> string list" where
  "accesslogFields DefaultFields lvc =
     (case AccessLogFields lvc of Some fs \<Rightarrow> fs | None \<Rightarrow> DefaultFields)"

definition newSecureAccessLog :: "string list \<Rightarrow> ListenerVisitorConfig \<Rightarrow> AccessLog list" where
  "newSecureAccessLog DefaultFields lvc =
     (if accesslogType lvc = ''json''
      then [FileAccessLogJSON (httpsAccessLog lvc) (accesslogFields DefaultFields lvc)]
      else [FileAccessLogEnvoy (httpsAccessLog lvc)])"

definition requestTimeout :: "ListenerVisitorConfig \<Rightarrow> int" where
  "requestTimeout lvc = (if RequestTimeout lvc < 0 then 0 else RequestTimeout lvc)"

definition minProtoVersion :: "ListenerVisitorConfig \<Rightarrow> TlsProtocol" where
  "minProtoVersion lvc =
     (if MinimumProtocolVersion lvc > TLSv1_1 then MinimumProtocolVersion lvc else TLSv1_1)"

definition maxProtoVersion :: "TlsProtocol \<Rightarrow> TlsProtocol" where
  "maxProtoVersion version = (if version = TLS_AUTO then TLSv1_3 else version)"

fun isTCPProxyFilter :: "Filter list \<Rightarrow> bool" where
  "isTCPProxyFilter [] = False"
| "isTCPProxyFilter (f # fs) = (if f_Name f = wellknown_TCPProxy then True else isTCPProxyFilter fs)"

text \<open>The local function \<open>max\<close> of \<open>visit\<close>.\<close>

definition max_tls :: "TlsProtocol \<Rightarrow> TlsProtocol \<Rightarrow> TlsProtocol" where
  "max_tls a b = (if a > b then a else b)"

text \<open>
  The scan of \<open>visit\<close> over the secure listener's chains: the first chain that has a
  transport socket, is no TCP proxy chain and carries a TLS context equal to the new one
  takes the host's name, and its server names are sorted again. The result is the
  chains and the flag \<open>fcExists\<close>.
\<close>

definition add_server_name :: "string \<Rightarrow> FilterChain \<Rightarrow> FilterChain" where
  "add_server_name name fc =
     fc\<lparr>fc_FilterChainMatch := (fc_FilterChainMatch fc)
          \<lparr>ServerNames := sort (ServerNames (fc_FilterChainMatch fc) @ [name])\<rparr>\<rparr>"

fun group_chain ::
  "DownstreamTlsContext option \<Rightarrow> string \<Rightarrow> FilterChain list \<Rightarrow> FilterChain list \<times> bool" where
  "group_chain downstreamTLS name [] = ([], False)"
| "group_chain downstreamTLS name (fc # fcs) =
     (if TransportSocket fc = None
      then (case group_chain downstreamTLS name fcs of (fcs', fcExists) \<Rightarrow> (fc # fcs', fcExists))
      else if isTCPProxyFilter (fc_Filters fc)
      then (case group_chain downstreamTLS name fcs of (fcs', fcExists) \<Rightarrow> (fc # fcs', fcExists))
      else if downstreamTLS = TransportSocket fc
      then (add_server_name name fc # fcs, True)
      else (case group_chain downstreamTLS name fcs of (fcs', fcExists) \<Rightarrow> (fc # fcs', fcExists)))"

text \<open>
  The chains the scan accepts for a new TLS context: those with a transport socket, no
  TCP proxy filter, and a TLS context equal to the new one.
\<close>

definition qualifies :: "DownstreamTlsContext option \<Rightarrow> FilterChain \<Rightarrow> bool" where
  "qualifies downstreamTLS fc \<longleftrightarrow>
     TransportSocket fc \<noteq> None \<and> \<not> isTCPProxyFilter (fc_Filters fc) \<and>
     downstreamTLS = TransportSocket fc"

record listenerVisitor =
  lv_config :: ListenerVisitorConfig
  https_FilterChains :: "FilterChain list"
  http :: bool

definition secure_filters ::
  "(Cluster \<Rightarrow> string) \<Rightarrow> string list \<Rightarrow> ListenerVisitorConfig \<Rightarrow> SecureVirtualHost \<Rightarrow> Filter list" where
  "secure_filters Clustername DefaultFields lvc vh =
     (case svh_TCPProxy vh of
        None \<Rightarrow>
          Filters (Get (RequestTimeout_b (requestTimeout lvc)
            (AccessLoggers (newSecureAccessLog DefaultFields lvc)
              (MetricsPrefix ENVOY_HTTPS_LISTENER
                (RouteConfigName ENVOY_HTTPS_LISTENER
                  (DefaultFilters HTTPConnectionManagerBuilder))))))
      | Some proxy \<Rightarrow>
          Filters (TCPProxy Clustername ENVOY_HTTPS_LISTENER proxy
            (newSecureAccessLog DefaultFields lvc)))"

definition secure_alpnProtos :: "SecureVirtualHost \<Rightarrow> string list" where
  "secure_alpnProtos vh = (case svh_TCPProxy vh of None \<Rightarrow> [''h2'', ''http/1.1''] | Some proxy \<Rightarrow> [])"

definition secure_downstreamTLS :: "ListenerVisitorConfig \<Rightarrow> SecureVirtualHost \<Rightarrow> DownstreamTlsContext option" where
  "secure_downstreamTLS lvc vh =
     (case svh_Secret vh of
        None \<Rightarrow> None
      | Some secret \<Rightarrow>
          (let vers = max_tls (minProtoVersion lvc) (MinProtoVersion vh)
           in Some (DownstreamTLSContextAdobe secret vers (maxProtoVersion (MaxProtoVersion vh))
                      (DownstreamValidation vh) (secure_alpnProtos vh))))"

definition fallback_chain :: "string list \<Rightarrow> ListenerVisitorConfig \<Rightarrow> SecureVirtualHost \<Rightarrow> Secret \<Rightarrow> FilterChain" where
  "fallback_chain DefaultFields lvc vh cert =
     FilterChainTLSFallback
       (Some (DownstreamTLSContext cert (minProtoVersion lvc) (DownstreamValidation vh)
                (secure_alpnProtos vh)))
       (Filters (Get (RequestTimeout_b (requestTimeout lvc)
          (AccessLoggers (newSecureAccessLog DefaultFields lvc)
            (MetricsPrefix ENVOY_HTTPS_LISTENER
              (RouteConfigName ENVOY_FALLBACK_ROUTECONFIG HTTPConnectionManagerBuilder))))))"

text \<open>
  The last step of the case: a host with a fallback certificate adds the fallback chain,
  once.
\<close>

definition add_fallback ::
  "string list \<Rightarrow> ListenerVisitorConfig \<Rightarrow> SecureVirtualHost \<Rightarrow> FilterChain list \<Rightarrow> FilterChain list" where
  "add_fallback DefaultFields lvc vh fcs =
     (case FallbackCertificate vh of
        None \<Rightarrow> fcs
      | Some cert \<Rightarrow>
          (if \<not> ContainsFallbackFilterChain fcs
           then fcs @ [fallback_chain DefaultFields lvc vh cert]
           else fcs))"

definition visit_SecureVirtualHost ::
  "(Cluster \<Rightarrow> string) \<Rightarrow> string list \<Rightarrow> ListenerVisitorConfig \<Rightarrow> SecureVirtualHost \<Rightarrow>
   FilterChain list \<Rightarrow> FilterChain list" where
  "visit_SecureVirtualHost Clustername DefaultFields lvc vh fcs =
     (let fs = secure_filters Clustername DefaultFields lvc vh;
          downstreamTLS = secure_downstreamTLS lvc vh;
          name = vh_Name (svh_VirtualHost vh);
          grouped = (if svh_TCPProxy vh = None \<and> svh_Secret vh \<noteq> None
                     then group_chain downstreamTLS name fcs
                     else (fcs, False));
          fcs1 = (if \<not> snd grouped
                  then fst grouped @ [FilterChainTLS name downstreamTLS fs]
                  else fst grouped)
      in add_fallback DefaultFields lvc vh fcs1)"

fun visit :: "(Cluster \<Rightarrow> string) \<Rightarrow> string list \<Rightarrow> Vertex \<Rightarrow> listenerVisitor \<Rightarrow> listenerVisitor" where
  "visit Clustername DefaultFields (VirtualHost_vertex vh) v = v\<lparr>http := True\<rparr>"
| "visit Clustername DefaultFields (SecureVirtualHost_vertex vh) v =
     v\<lparr>https_FilterChains :=
         visit_SecureVirtualHost Clustername DefaultFields (lv_config v) vh (https_FilterChains v)\<rparr>"
| "visit Clustername DefaultFields (Other_vertex children) v =
     fold (visit Clustername DefaultFields) children v"

text \<open>
  The listener cache. A listener is looked up by name in the dynamic values, then in the
  static values. Modelled from the spec: \<open>sorter.For\<close> is not among the sources; the
  result is stably sorted by the type's canonical ordering key, a listener's name.
\<close>

record Listener =
  l_Name :: string
  l_Address :: "string \<times> int"
  l_FilterChains :: "FilterChain list"

record ListenerCache =
  values_c :: "string \<rightharpoonup> Listener"
  staticValues :: "string \<rightharpoonup> Listener"

fun Query_loop ::
  "(string \<rightharpoonup> Listener) \<Rightarrow> (string \<rightharpoonup> Listener) \<Rightarrow> string list \<Rightarrow> Listener list \<Rightarrow> Listener list" where
  "Query_loop dyn stat [] vals = vals"
| "Query_loop dyn stat (n # names) vals =
     (case dyn n of
        Some v \<Rightarrow> Query_loop dyn stat names (vals @ [v])
      | None \<Rightarrow>
          (case stat n of
             Some v \<Rightarrow> Query_loop dyn stat names (vals @ [v])
           | None \<Rightarrow> Query_loop dyn stat names vals))"

definition sorter_For_listeners :: "Listener list \<Rightarrow> Listener list" where
  "sorter_For_listeners ls = sort_key l_Name ls"

definition Query :: "ListenerCache \<Rightarrow> string list \<Rightarrow> Listener list" where
  "Query c names = sorter_For_listeners (Query_loop (values_c c) (staticValues c) names [])"

text \<open>
  What the interface promises of one name: the dynamic generation first, then the static
  table, else nothing.
\<close>

definition resolve :: "ListenerCache \<Rightarrow> string \<Rightarrow> Listener option" where
  "resolve c n = (case values_c c n of Some v \<Rightarrow> Some v | None \<Rightarrow> staticValues c n)"

text \<open>Values for the examples: a cluster of a given name and weight, and a naming of clusters.\<close>

definition ex_cluster :: "string \<Rightarrow> 32 word \<Rightarrow> Cluster" where
  "ex_cluster n w =
     \<lparr>Upstream = \<lparr>svc_Namespace = ''default'', svc_Name = n, svc_Port = 80, svc_Protocol = []\<rparr>,
      LoadBalancerPolicy = [], Weight = w, HTTPHealthCheckPolicy = None,
      UpstreamValidation = None, Protocol = [], cl_IdleTimeout = None\<rparr>"

definition ex_Clustername :: "Cluster \<Rightarrow> string" where
  "ex_Clustername c = svc_Namespace (Upstream c) @ ''/'' @ svc_Name (Upstream c)"

definition ex_lvc :: ListenerVisitorConfig where
  "ex_lvc =
     \<lparr>HTTPAddress = [], HTTPPort = 0, HTTPAccessLog = [], HTTPSAddress = [], HTTPSPort = 0,
      HTTPSAccessLog = [], UseProxyProto = False, MinimumProtocolVersion = TLSv1_2,
      DefaultCertificate = [], AccessLogType = [], AccessLogFields = None,
      RequestTimeout = 0\<rparr>"

definition ex_secret :: "string \<Rightarrow> Secret" where
  "ex_secret n = \<lparr>sec_Namespace = ''default'', sec_Name = n, sec_Data = ''certificate''\<rparr>"

definition ex_svhost :: "string \<Rightarrow> string \<Rightarrow> SecureVirtualHost" where
  "ex_svhost fqdn secretName =
     \<lparr>svh_VirtualHost = \<lparr>vh_Name = fqdn, vh_routes = []\<rparr>,
      svh_Secret = Some (ex_secret secretName),
      MinProtoVersion = TLSv1_1, MaxProtoVersion = TLS_AUTO,
      DownstreamValidation = None, svh_TCPProxy = None, FallbackCertificate = None\<rparr>"

definition ex_service :: "string \<Rightarrow> 64 word \<Rightarrow> string HTTPService" where
  "ex_service n w = \<lparr>TCPService = n, hs_Weight = w\<rparr>"

text \<open>The weights of a TCP proxy filter's weighted clusters, in order.\<close>

definition tcp_proxy_weights :: "Filter \<Rightarrow> 32 word list" where
  "tcp_proxy_weights f =
     (case f_TypedConfig f of
        TcpProxy_config t \<Rightarrow>
          (case tp_ClusterSpecifier t of
             TcpProxy_WeightedClusters cs \<Rightarrow> map cw_Weight cs
           | TcpProxy_Cluster n \<Rightarrow> [])
      | HttpConnectionManager_config h \<Rightarrow> [])"

section \<open>The builder: internal/dag/builder_adobe.go and policy_adobe.go\<close>

subsection \<open>The resources\<close>

text \<open>
  The API types of an IngressRoute are not among the sources; the records hold the
  fields the builder reads. \<open>k8s.FullName\<close> is the pair of a namespace and a name.
\<close>

type_synonym FullName = "string \<times> string"

record Delegate =
  d_Name :: string
  d_Namespace :: string

record HealthCheck =
  hc_Path :: string
  hc_Host :: string
  IntervalSeconds :: int
  TimeoutSeconds :: int
  UnhealthyThresholdCount :: int
  HealthyThresholdCount :: int

record irService =
  s_Name :: string
  s_Port :: int
  s_Weight :: int
  s_HealthCheck :: "HealthCheck option"
  s_Strategy :: string
  s_UpstreamValidation :: "Opaque option"
  s_IdleTimeout :: "DurationProto option"

record irRoute =
  Match :: string
  Services :: "irService list"
  r_Delegate :: "Delegate option"
  PermitInsecure :: bool
  EnableWebsockets :: bool
  r_PrefixRewrite :: string
  r_TimeoutPolicy :: "string option"
  r_RetryPolicy :: "Opaque option"
  r_HashPolicy :: "Opaque list"
  r_PerFilterConfig :: "Opaque option"
  r_RequestHeadersPolicy :: "Opaque option"
  r_ResponseHeadersPolicy :: "Opaque option"
  r_IdleTimeout :: "DurationProto option"
  r_Timeout :: "DurationProto option"
  r_Tracing :: "(nat \<times> nat) option"
  HeaderMatch :: "Opaque list"

record irTCPProxy =
  tcp_Services :: "irService list"
  tcp_Delegate :: "Delegate option"

record TLS =
  SecretName :: string
  tls_MinimumProtocolVersion :: string
  tls_MaximumProtocolVersion :: string
  Passthrough :: bool

record irVirtualHost =
  Fqdn :: string
  vh_TLS :: "TLS option"

record IngressRoute =
  ir_Namespace :: string
  ir_Name :: string
  ir_VirtualHost :: "irVirtualHost option"
  Routes :: "irRoute list"
  ir_TCPProxy :: "irTCPProxy option"

definition fullname :: "IngressRoute \<Rightarrow> FullName" where
  "fullname ir = (ir_Namespace ir, ir_Name ir)"

text \<open>
  \<open>b.Source.ingressroutes\<close> is a Go map from full names to resources; an object is
  stored under its own namespace and name. The map is the list of its values, in the
  order a \<open>range\<close> over it yields them, and a lookup finds the resource of that name.
\<close>

definition lookup_ingressroute :: "IngressRoute list \<Rightarrow> FullName \<Rightarrow> IngressRoute option" where
  "lookup_ingressroute src m = find (\<lambda>ir. fullname ir = m) src"

subsection \<open>Functions of the repository that are not among the sources\<close>

text \<open>
  The builder's helpers that the sources call and do not define are parameters, with
  the formatting verbs \<open>%q\<close> and \<open>%d\<close> of \<open>fmt\<close>. An error result is \<open>Inl\<close>.
\<close>

record deps =
  rootAllowed :: "string \<Rightarrow> bool"
  isBlank :: "string \<Rightarrow> bool"
  splitSecret :: "string \<Rightarrow> string \<Rightarrow> FullName"
  lookupSecret :: "FullName \<Rightarrow> string + Secret"
  delegationPermitted :: "FullName \<Rightarrow> string \<Rightarrow> bool"
  MinTLSVersion :: "string \<Rightarrow> TlsProtocol"
  annotation_MaxProtoVersion :: "string \<Rightarrow> TlsProtocol"
  matchesPathPrefix :: "string \<Rightarrow> string \<Rightarrow> bool"
  routeEnforceTLS :: "bool \<Rightarrow> bool \<Rightarrow> bool"
  ParseTimeout :: "string \<Rightarrow> int"
  retryPolicy :: "Opaque option \<Rightarrow> Opaque option"
  headersPolicy :: "Opaque \<Rightarrow> bool \<Rightarrow> string + Opaque"
  headerConditionsValid :: "Opaque list \<Rightarrow> bool"
  mergeHeaderConditions :: "Opaque list \<Rightarrow> Opaque list"
  lookupService :: "FullName \<Rightarrow> int \<Rightarrow> dagService option"
  lookupUpstreamValidation :: "Opaque option \<Rightarrow> string \<Rightarrow> string + Opaque option"
  fmt_q :: "string \<Rightarrow> string"
  fmt_d :: "int \<Rightarrow> string"

subsection \<open>Durations\<close>

text \<open>
  \<open>ptypes.Duration\<close> and \<open>ptypes.DurationProto\<close> of the protobuf library, as the library
  documents them: the conversion fails on a duration that is not valid (seconds beyond
  10000 years, nanoseconds beyond a second, or of the other sign) or that does not fit a
  \<open>time.Duration\<close>. Go's division truncates towards zero; \<open>to_int64\<close> is the
  wrap-around of 64-bit arithmetic.
\<close>

definition to_int64 :: "int \<Rightarrow> int" where
  "to_int64 x = (x + 2 ^ 63) mod 2 ^ 64 - 2 ^ 63"

definition go_div :: "int \<Rightarrow> int \<Rightarrow> int" where
  "go_div a b = (if (a < 0) = (b < 0) then \<bar>a\<bar> div \<bar>b\<bar> else - (\<bar>a\<bar> div \<bar>b\<bar>))"

definition go_rem :: "int \<Rightarrow> int \<Rightarrow> int" where
  "go_rem a b = a - b * go_div a b"

definition time_Second :: int where "time_Second = 1000000000"

definition time_Hour :: int where "time_Hour = 3600 * time_Second"

definition maxSeconds :: int where "maxSeconds = 315576000000"

definition validateDuration :: "DurationProto \<Rightarrow> bool" where
  "validateDuration d \<longleftrightarrow>
     \<not> (Seconds d < - maxSeconds \<or> Seconds d > maxSeconds) \<and>
     \<not> (Nanos d \<le> - 1000000000 \<or> Nanos d \<ge> 1000000000) \<and>
     \<not> ((Seconds d < 0 \<and> Nanos d > 0) \<or> (Seconds d > 0 \<and> Nanos d < 0))"

definition ptypes_Duration :: "DurationProto \<Rightarrow> int option" where
  "ptypes_Duration p =
     (if \<not> validateDuration p then None
      else
        (let d = to_int64 (Seconds p * time_Second) in
         if go_div d time_Second \<noteq> Seconds p then None
         else if Nanos p \<noteq> 0
         then (let d' = to_int64 (d + Nanos p) in
               if (d' < 0) \<noteq> (Nanos p < 0) then None else Some d')
         else Some d))"

definition ptypes_DurationProto :: "int \<Rightarrow> DurationProto" where
  "ptypes_DurationProto d = \<lparr>Seconds = go_div d time_Second, Nanos = go_rem d time_Second\<rparr>"

subsection \<open>Status\<close>

text \<open>
  Modelled from the spec: the status writer of package \<open>dag\<close> (\<open>WithObject\<close>,
  \<open>WithValue\<close>, \<open>SetValid\<close>, \<open>SetInvalid\<close> and the \<open>commit\<close> that \<open>WithObject\<close> returns)
  is not among the sources. A writer holds the resource it writes for, the status set
  last and the \<open>vhost\<close> value; a commit emits the writer's record, and the builder
  keeps the records in the order of their commits.
\<close>

datatype Status = Valid | Invalid string | Orphaned

record ObjectStatusWriter =
  osw_obj :: FullName
  osw_status :: "Status option"
  osw_vhost :: "string option"

record Builder =
  DisablePermitInsecure :: bool
  orphaned :: "FullName set"
  statuses :: "ObjectStatusWriter list"
  virtualhosts :: "string \<rightharpoonup> VirtualHost"
  securevirtualhosts :: "string \<rightharpoonup> SecureVirtualHost"

definition WithObject :: "IngressRoute \<Rightarrow> ObjectStatusWriter" where
  "WithObject ir = \<lparr>osw_obj = fullname ir, osw_status = None, osw_vhost = None\<rparr>"

definition osw_WithObject :: "ObjectStatusWriter \<Rightarrow> IngressRoute \<Rightarrow> ObjectStatusWriter" where
  "osw_WithObject sw ir = sw\<lparr>osw_obj := fullname ir\<rparr>"

definition WithValue_vhost :: "string \<Rightarrow> ObjectStatusWriter \<Rightarrow> ObjectStatusWriter" where
  "WithValue_vhost host sw = sw\<lparr>osw_vhost := Some host\<rparr>"

definition SetInvalid :: "string \<Rightarrow> ObjectStatusWriter \<Rightarrow> ObjectStatusWriter" where
  "SetInvalid msg sw = sw\<lparr>osw_status := Some (Invalid msg)\<rparr>"

definition SetValid :: "ObjectStatusWriter \<Rightarrow> ObjectStatusWriter" where
  "SetValid sw = sw\<lparr>osw_status := Some Valid\<rparr>"

definition commit :: "Builder \<Rightarrow> ObjectStatusWriter \<Rightarrow> Builder" where
  "commit b sw = b\<lparr>statuses := statuses b @ [sw]\<rparr>"

definition setOrphaned :: "Builder \<Rightarrow> IngressRoute \<Rightarrow> Builder" where
  "setOrphaned b ir = b\<lparr>orphaned := insert (fullname ir) (orphaned b)\<rparr>"

text \<open>
  Modelled from the spec: \<open>lookupVirtualHost\<close>, \<open>lookupSecureVirtualHost\<close> and
  \<open>addRoute\<close> are not among the sources. A lookup creates the host of that name when
  there is none; a route is appended to the host's routes.
\<close>

definition lookupVirtualHost :: "Builder \<Rightarrow> string \<Rightarrow> VirtualHost" where
  "lookupVirtualHost b host =
     (case virtualhosts b host of
        Some vh \<Rightarrow> vh
      | None \<Rightarrow> \<lparr>vh_Name = host, vh_routes = []\<rparr>)"

definition lookupSecureVirtualHost :: "Builder \<Rightarrow> string \<Rightarrow> SecureVirtualHost" where
  "lookupSecureVirtualHost b host =
     (case securevirtualhosts b host of
        Some svh \<Rightarrow> svh
      | None \<Rightarrow>
          \<lparr>svh_VirtualHost = \<lparr>vh_Name = host, vh_routes = []\<rparr>, svh_Secret = None,
           MinProtoVersion = TLS_AUTO, MaxProtoVersion = TLS_AUTO,
           DownstreamValidation = None, svh_TCPProxy = None, FallbackCertificate = None\<rparr>)"

definition addRoute :: "dagRoute \<Rightarrow> VirtualHost \<Rightarrow> VirtualHost" where
  "addRoute r vh = vh\<lparr>vh_routes := vh_routes vh @ [r]\<rparr>"

text \<open>Lines 272 to 275: the route goes to the host, and to the secure host under TLS.\<close>

definition addRoutes :: "Builder \<Rightarrow> string \<Rightarrow> bool \<Rightarrow> dagRoute \<Rightarrow> Builder" where
  "addRoutes b host enforceTLS r =
     (let b1 = b\<lparr>virtualhosts := (virtualhosts b)(host \<mapsto> addRoute r (lookupVirtualHost b host))\<rparr>
      in if enforceTLS
         then (let svh = lookupSecureVirtualHost b1 host
               in b1\<lparr>securevirtualhosts := (securevirtualhosts b1)
                        (host \<mapsto> svh\<lparr>svh_VirtualHost := addRoute r (svh_VirtualHost svh)\<rparr>)\<rparr>)
         else b1)"

subsection \<open>Policies: policy_adobe.go\<close>

definition ingressrouteTimeoutPolicy :: "deps \<Rightarrow> string option \<Rightarrow> int option" where
  "ingressrouteTimeoutPolicy deps tp =
     (case tp of None \<Rightarrow> None | Some request \<Rightarrow> Some (ParseTimeout deps request))"

definition ingressrouteHealthCheckPolicy :: "HealthCheck option \<Rightarrow> HTTPHealthCheckPolicy option" where
  "ingressrouteHealthCheckPolicy hc =
     (case hc of
        None \<Rightarrow> None
      | Some h \<Rightarrow>
          Some \<lparr>hp_Path = hc_Path h, hp_Host = hc_Host h,
                hp_Interval = to_int64 (IntervalSeconds h * time_Second),
                hp_Timeout = to_int64 (TimeoutSeconds h * time_Second),
                UnhealthyThreshold = word_of_int (UnhealthyThresholdCount h),
                HealthyThreshold = word_of_int (HealthyThresholdCount h)\<rparr>)"

subsection \<open>One route that points to services: lines 136 to 270\<close>

text \<open>
  Each block of the base case either sets a field of the route or marks the resource
  invalid and returns; the result of a block is the field's value, or \<open>Inl\<close> of the
  message passed to \<open>SetInvalid\<close>.
\<close>

fun Join :: "string list \<Rightarrow> string \<Rightarrow> string" where
  "Join [] sep = []"
| "Join [x] sep = x"
| "Join (x # y # xs) sep = x @ sep @ Join (y # xs) sep"

definition routeRequestHeadersPolicy :: "deps \<Rightarrow> irRoute \<Rightarrow> string + Opaque option" where
  "routeRequestHeadersPolicy deps route =
     (case r_RequestHeadersPolicy route of
        None \<Rightarrow> Inr None
      | Some p \<Rightarrow>
          (case headersPolicy deps p True of Inl err \<Rightarrow> Inl err | Inr reqHP \<Rightarrow> Inr (Some reqHP)))"

definition routeResponseHeadersPolicy :: "deps \<Rightarrow> irRoute \<Rightarrow> string + Opaque option" where
  "routeResponseHeadersPolicy deps route =
     (case r_ResponseHeadersPolicy route of
        None \<Rightarrow> Inr None
      | Some p \<Rightarrow>
          (case headersPolicy deps p False of Inl err \<Rightarrow> Inl err | Inr respHP \<Rightarrow> Inr (Some respHP)))"

text \<open>
  Lines 171 to 182. When the conversion of the duration fails, the field stays unset.
\<close>

definition routeIdleTimeout :: "deps \<Rightarrow> irRoute \<Rightarrow> string + DurationProto option" where
  "routeIdleTimeout deps route =
     (case r_IdleTimeout route of
        None \<Rightarrow> Inr None
      | Some p \<Rightarrow>
          (case ptypes_Duration p of
             None \<Rightarrow> Inr None
           | Some d \<Rightarrow>
               (if d > time_Hour then Inr (Some (ptypes_DurationProto time_Hour))
                else if d \<le> 0
                then Inl (''route '' @ fmt_q deps (Match route) @
                          '': idle timeout can not be disabled'')
                else Inr (Some p))))"

definition routeTimeout :: "deps \<Rightarrow> irRoute \<Rightarrow> string + DurationProto option" where
  "routeTimeout deps route =
     (case r_Timeout route of
        None \<Rightarrow> Inr None
      | Some p \<Rightarrow>
          (case ptypes_Duration p of
             None \<Rightarrow> Inr None
           | Some d \<Rightarrow>
               (if d < 0
                then Inl (''route '' @ fmt_q deps (Match route) @ '': timeout value must be >= 0'')
                else Inr (Some p))))"

definition routeTracing :: "deps \<Rightarrow> irRoute \<Rightarrow> string + (nat \<times> nat) option" where
  "routeTracing deps route =
     (case r_Tracing route of
        None \<Rightarrow> Inr None
      | Some t \<Rightarrow>
          (if fst t > 100
           then Inl (''route '' @ fmt_q deps (Match route) @
                     '': tracing clientSampling must be in the range [0,100]'')
           else if snd t > 100
           then Inl (''route '' @ fmt_q deps (Match route) @
                     '': tracing randomSampling must be in the range [0,100]'')
           else Inr (Some t)))"

text \<open>
  Lines 207 to 220. The loop takes the address of its variable \<open>hm\<close>; in the Go of
  this program a loop has one variable for all its rounds, so every condition points to
  the last header match.
\<close>

definition routeHeaderConditions :: "deps \<Rightarrow> irRoute \<Rightarrow> string + Opaque list" where
  "routeHeaderConditions deps route =
     (if HeaderMatch route \<noteq> []
      then (let conds = map (\<lambda>hm. last (HeaderMatch route)) (HeaderMatch route)
            in if \<not> headerConditionsValid deps conds
               then Inl ''cannot specify duplicate header 'exact match' conditions in the same route''
               else Inr (mergeHeaderConditions deps conds))
      else Inr [])"

text \<open>Lines 223 to 267: the cluster of one service, with its idle timeout.\<close>

definition serviceCluster :: "deps \<Rightarrow> IngressRoute \<Rightarrow> irRoute \<Rightarrow> irService \<Rightarrow> string + Cluster" where
  "serviceCluster deps ir route service =
     (if s_Port service < 1 \<or> s_Port service > 65535
      then Inl (''route '' @ fmt_q deps (Match route) @ '': service '' @
                fmt_q deps (s_Name service) @ '': port must be in the range 1-65535'')
      else
        (case lookupService deps (ir_Namespace ir, s_Name service) (s_Port service) of
           None \<Rightarrow>
             Inl (''Service ['' @ s_Name service @ '':'' @ fmt_d deps (s_Port service) @
                  ''] is invalid or missing'')
         | Some s \<Rightarrow>
             (case (if svc_Protocol s = ''tls''
                    then lookupUpstreamValidation deps (s_UpstreamValidation service)
                           (ir_Namespace ir)
                    else Inr None) of
                Inl err \<Rightarrow>
                  Inl (''Service ['' @ s_Name service @ '':'' @ fmt_d deps (s_Port service) @
                       ''] TLS upstream validation policy error: '' @ err)
              | Inr uv \<Rightarrow>
                  (let c = \<lparr>Upstream = s, LoadBalancerPolicy = s_Strategy service,
                            Weight = word_of_int (s_Weight service),
                            HTTPHealthCheckPolicy =
                              ingressrouteHealthCheckPolicy (s_HealthCheck service),
                            UpstreamValidation = uv, Protocol = svc_Protocol s,
                            cl_IdleTimeout = None\<rparr>
                   in case s_IdleTimeout service of
                        None \<Rightarrow> Inr c
                      | Some p \<Rightarrow>
                          (case ptypes_Duration p of
                             None \<Rightarrow> Inr c
                           | Some d \<Rightarrow>
                               (if d > time_Hour
                                then Inr (c\<lparr>cl_IdleTimeout :=
                                             Some (ptypes_DurationProto time_Hour)\<rparr>)
                                else if d \<le> 0
                                then Inl (''route: '' @ fmt_q deps (Match route) @
                                          '' service '' @ fmt_q deps (s_Name service) @
                                          '': idle timeout can not be disabled'')
                                else Inr (c\<lparr>cl_IdleTimeout := Some p\<rparr>)))))))"

fun routeClusters ::
  "deps \<Rightarrow> IngressRoute \<Rightarrow> irRoute \<Rightarrow> irService list \<Rightarrow> Cluster list \<Rightarrow> string + Cluster list" where
  "routeClusters deps ir route [] cs = Inr cs"
| "routeClusters deps ir route (service # services) cs =
     (case serviceCluster deps ir route service of
        Inl msg \<Rightarrow> Inl msg
      | Inr c \<Rightarrow> routeClusters deps ir route services (cs @ [c]))"

definition buildRoute ::
  "deps \<Rightarrow> Builder \<Rightarrow> IngressRoute \<Rightarrow> string \<Rightarrow> bool \<Rightarrow> irRoute \<Rightarrow> string + dagRoute" where
  "buildRoute deps b ir prefixMatch enforceTLS route =
     (if \<not> matchesPathPrefix deps (Match route) prefixMatch
      then Inl (''the path prefix '' @ fmt_q deps (Match route) @
                '' does not match the parent's path prefix '' @ fmt_q deps prefixMatch)
      else
        (let permitInsecure = PermitInsecure route \<and> \<not> DisablePermitInsecure b;
             r = \<lparr>PathCondition = Match route,
                  Websocket = EnableWebsockets route,
                  HTTPSUpgrade = routeEnforceTLS deps enforceTLS permitInsecure,
                  PrefixRewrite = r_PrefixRewrite route,
                  TimeoutPolicy = ingressrouteTimeoutPolicy deps (r_TimeoutPolicy route),
                  RetryPolicy = retryPolicy deps (r_RetryPolicy route),
                  HashPolicy = r_HashPolicy route,
                  PerFilterConfig = r_PerFilterConfig route,
                  RequestHeadersPolicy = None, ResponseHeadersPolicy = None,
                  rt_IdleTimeout = None, rt_Timeout = None, rt_Tracing = None,
                  HeaderConditions = [], rt_Clusters = []\<rparr>
         in case routeRequestHeadersPolicy deps route of
              Inl msg \<Rightarrow> Inl msg
            | Inr reqHP \<Rightarrow>
         (case routeResponseHeadersPolicy deps route of
              Inl msg \<Rightarrow> Inl msg
            | Inr respHP \<Rightarrow>
         (case routeIdleTimeout deps route of
              Inl msg \<Rightarrow> Inl msg
            | Inr idle \<Rightarrow>
         (case routeTimeout deps route of
              Inl msg \<Rightarrow> Inl msg
            | Inr tmo \<Rightarrow>
         (case routeTracing deps route of
              Inl msg \<Rightarrow> Inl msg
            | Inr tracing \<Rightarrow>
         (case routeHeaderConditions deps route of
              Inl msg \<Rightarrow> Inl msg
            | Inr conds \<Rightarrow>
         (case routeClusters deps ir route (Services route) [] of
              Inl msg \<Rightarrow> Inl msg
            | Inr cs \<Rightarrow>
                Inr (r\<lparr>RequestHeadersPolicy := reqHP, ResponseHeadersPolicy := respHP,
                       rt_IdleTimeout := idle, rt_Timeout := tmo, rt_Tracing := tracing,
                       HeaderConditions := conds, rt_Clusters := cs\<rparr>)))))))))"

subsection \<open>The walk over the route entries: processIngressRoutes\<close>

text \<open>
  The walk calls itself on the target of a delegation. The model counts the calls down
  from a given number: a walk that has none left ends as \<open>OutOfFuel\<close>. A nil pointer
  dereference is \<open>Panic\<close>.
\<close>

datatype 'a outcome = Done 'a | Panic | OutOfFuel

definition resource_path :: "IngressRoute \<Rightarrow> string" where
  "resource_path ir = ir_Namespace ir @ ''/'' @ ir_Name ir"

text \<open>Lines 301 to 311: is the target one of the visited resources, and the path reported.\<close>

definition on_path :: "IngressRoute list \<Rightarrow> IngressRoute \<Rightarrow> bool" where
  "on_path visited dest \<longleftrightarrow>
     list_ex (\<lambda>vir. ir_Name dest = ir_Name vir \<and> ir_Namespace dest = ir_Namespace vir) visited"

definition cycle_path :: "IngressRoute list \<Rightarrow> IngressRoute \<Rightarrow> string" where
  "cycle_path visited dest = Join (map resource_path visited @ [resource_path dest]) '' -> ''"

definition delegate_namespace :: "IngressRoute \<Rightarrow> Delegate \<Rightarrow> string" where
  "delegate_namespace ir d = (if d_Namespace d = [] then ir_Namespace ir else d_Namespace d)"

fun processIngressRoutes ::
  "deps \<Rightarrow> IngressRoute list \<Rightarrow> nat \<Rightarrow> Builder \<Rightarrow> ObjectStatusWriter \<Rightarrow> IngressRoute \<Rightarrow> string \<Rightarrow>
   IngressRoute list \<Rightarrow> string \<Rightarrow> bool \<Rightarrow> (Builder \<times> ObjectStatusWriter) outcome"
and processIngressRoutes_loop ::
  "deps \<Rightarrow> IngressRoute list \<Rightarrow> nat \<Rightarrow> Builder \<Rightarrow> ObjectStatusWriter \<Rightarrow> IngressRoute \<Rightarrow> string \<Rightarrow>
   IngressRoute list \<Rightarrow> string \<Rightarrow> bool \<Rightarrow> irRoute list \<Rightarrow> (Builder \<times> ObjectStatusWriter) outcome"
where
  "processIngressRoutes deps src 0 b sw ir prefixMatch visited host enforceTLS = OutOfFuel"
| "processIngressRoutes deps src (Suc fuel) b sw ir prefixMatch visited host enforceTLS =
     processIngressRoutes_loop deps src fuel b sw ir prefixMatch (visited @ [ir]) host enforceTLS
       (Routes ir)"
| "processIngressRoutes_loop deps src fuel b sw ir prefixMatch visited host enforceTLS [] =
     Done (b, SetValid sw)"
| "processIngressRoutes_loop deps src fuel b sw ir prefixMatch visited host enforceTLS
     (route # routes) =
     (if Services route \<noteq> [] \<and> r_Delegate route \<noteq> None
      then Done (b, SetInvalid (''route '' @ fmt_q deps (Match route) @
                  '': cannot specify services and delegate in the same route'') sw)
      else if Services route \<noteq> []
      then (case buildRoute deps b ir prefixMatch enforceTLS route of
              Inl msg \<Rightarrow> Done (b, SetInvalid msg sw)
            | Inr r \<Rightarrow>
                processIngressRoutes_loop deps src fuel (addRoutes b host enforceTLS r) sw ir
                  prefixMatch visited host enforceTLS routes)
      else
        (case r_Delegate route of
           None \<Rightarrow>
             processIngressRoutes_loop deps src fuel b sw ir prefixMatch visited host enforceTLS
               routes
         | Some d \<Rightarrow>
             (case lookup_ingressroute src (delegate_namespace ir d, d_Name d) of
                None \<Rightarrow>
                  processIngressRoutes_loop deps src fuel b sw ir prefixMatch visited host
                    enforceTLS routes
              | Some dest \<Rightarrow>
                  (let b1 = b\<lparr>orphaned := orphaned b - {fullname dest}\<rparr>
                   in if on_path visited dest
                      then Done (b1, SetInvalid (''route creates a delegation cycle: '' @
                                   cycle_path visited dest) sw)
                      else
                        (case processIngressRoutes deps src fuel b1 (WithObject dest) dest
                                (Match route) visited host enforceTLS of
                           Done (b2, sw2) \<Rightarrow>
                             processIngressRoutes_loop deps src fuel (commit b2 sw2) sw ir
                               prefixMatch visited host enforceTLS routes
                         | Panic \<Rightarrow> Panic
                         | OutOfFuel \<Rightarrow> OutOfFuel)))))"

subsection \<open>The walk over the TCP proxy: processIngressRouteTCPProxy\<close>

fun tcpproxyClusters ::
  "deps \<Rightarrow> IngressRoute \<Rightarrow> irService list \<Rightarrow> Cluster list \<Rightarrow> string + Cluster list" where
  "tcpproxyClusters deps ir [] cs = Inr cs"
| "tcpproxyClusters deps ir (service # services) cs =
     (case lookupService deps (ir_Namespace ir, s_Name service) (s_Port service) of
        None \<Rightarrow>
          Inl (''tcpproxy: service '' @ ir_Namespace ir @ ''/'' @ s_Name service @ ''/'' @
               fmt_d deps (s_Port service) @ '': not found'')
      | Some s \<Rightarrow>
          tcpproxyClusters deps ir services
            (cs @ [\<lparr>Upstream = s, LoadBalancerPolicy = s_Strategy service, Weight = 0,
                     HTTPHealthCheckPolicy = None, UpstreamValidation = None,
                     Protocol = svc_Protocol s, cl_IdleTimeout = None\<rparr>]))"

text \<open>
  The function reads \<open>ir.Spec.TCPProxy\<close> without a test for nil; the first call is
  guarded by its caller, the call on a delegation's target is not.
\<close>

fun processIngressRouteTCPProxy ::
  "deps \<Rightarrow> IngressRoute list \<Rightarrow> nat \<Rightarrow> Builder \<Rightarrow> ObjectStatusWriter \<Rightarrow> IngressRoute \<Rightarrow>
   IngressRoute list \<Rightarrow> string \<Rightarrow> (Builder \<times> ObjectStatusWriter) outcome" where
  "processIngressRouteTCPProxy deps src 0 b sw ir visited host = OutOfFuel"
| "processIngressRouteTCPProxy deps src (Suc fuel) b sw ir visited host =
     (case ir_TCPProxy ir of
        None \<Rightarrow> Panic
      | Some tcpproxy \<Rightarrow>
          (if tcp_Services tcpproxy \<noteq> [] \<and> tcp_Delegate tcpproxy \<noteq> None
           then Done (b, SetInvalid
                  ''tcpproxy: cannot specify services and delegate in the same tcpproxy'' sw)
           else if tcp_Services tcpproxy \<noteq> []
           then (case tcpproxyClusters deps ir (tcp_Services tcpproxy) [] of
                   Inl msg \<Rightarrow> Done (b, SetInvalid msg sw)
                 | Inr cs \<Rightarrow>
                     Done (b\<lparr>securevirtualhosts := (securevirtualhosts b)
                              (host \<mapsto> (lookupSecureVirtualHost b host)
                                 \<lparr>svh_TCPProxy := Some \<lparr>Clusters = cs\<rparr>\<rparr>)\<rparr>,
                           SetValid sw))
           else
             (case tcp_Delegate tcpproxy of
                None \<Rightarrow> Done (b, sw)
              | Some d \<Rightarrow>
                  (case lookup_ingressroute src (delegate_namespace ir d, d_Name d) of
                     None \<Rightarrow> Done (b, sw)
                   | Some dest \<Rightarrow>
                       (let b1 = b\<lparr>orphaned := orphaned b - {fullname dest}\<rparr>
                        in if on_path (visited @ [ir]) dest
                           then Done (b1, SetInvalid (''tcpproxy creates a delegation cycle: '' @
                                        cycle_path (visited @ [ir]) dest) sw)
                           else
                             (case processIngressRouteTCPProxy deps src fuel b1
                                     (osw_WithObject sw dest) dest (visited @ [ir]) host of
                                Done (b2, sw2) \<Rightarrow> Done (commit b2 sw2, sw)
                              | Panic \<Rightarrow> Panic
                              | OutOfFuel \<Rightarrow> OutOfFuel))))))"

subsection \<open>One resource: computeIngressRoute\<close>

text \<open>
  Lines 90 to 115, the TLS block of a root: \<open>Inl\<close> of the writer when the resource is
  marked invalid, else the builder with the secure host, \<open>enforceTLS\<close> and \<open>passthrough\<close>.
\<close>

definition rootTLS ::
  "deps \<Rightarrow> Builder \<Rightarrow> IngressRoute \<Rightarrow> irVirtualHost \<Rightarrow> ObjectStatusWriter \<Rightarrow>
   ObjectStatusWriter + (Builder \<times> bool \<times> bool)" where
  "rootTLS deps b ir vh sw =
     (case vh_TLS vh of
        None \<Rightarrow> Inr (b, False, False)
      | Some tls \<Rightarrow>
          (let passthrough = (SecretName tls = [] \<and> Passthrough tls)
           in if \<not> passthrough
              then
                (let secretName = splitSecret deps (SecretName tls) (ir_Namespace ir)
                 in case lookupSecret deps secretName of
                      Inl err \<Rightarrow>
                        Inl (SetInvalid (''Spec.VirtualHost.TLS Secret '' @
                               fmt_q deps (SecretName tls) @ '' is invalid: '' @ err) sw)
                    | Inr sec \<Rightarrow>
                        (if \<not> delegationPermitted deps secretName (ir_Namespace ir)
                         then Inl (SetInvalid (''Spec.VirtualHost.TLS Secret '' @
                                     fmt_q deps (SecretName tls) @
                                     '' certificate delegation not permitted'') sw)
                         else
                           Inr (b\<lparr>securevirtualhosts := (securevirtualhosts b)
                                   (Fqdn vh \<mapsto> (lookupSecureVirtualHost b (Fqdn vh))
                                      \<lparr>svh_Secret := Some sec,
                                       MinProtoVersion :=
                                         MinTLSVersion deps (tls_MinimumProtocolVersion tls),
                                       MaxProtoVersion :=
                                         annotation_MaxProtoVersion deps
                                           (tls_MaximumProtocolVersion tls)\<rparr>)\<rparr>,
                                True, passthrough)))
              else Inr (b, False, passthrough)))"

text \<open>
  The walks of one root start with as many calls as the source has resources, and one
  more.
\<close>

definition computeIngressRoute ::
  "deps \<Rightarrow> IngressRoute list \<Rightarrow> Builder \<Rightarrow> IngressRoute \<Rightarrow> Builder outcome" where
  "computeIngressRoute deps src b ir =
     (let sw = WithObject ir; fuel = Suc (length src)
      in case ir_VirtualHost ir of
           None \<Rightarrow> Done (commit (setOrphaned b ir) sw)
         | Some vh \<Rightarrow>
             (if \<not> rootAllowed deps (ir_Namespace ir)
              then Done (commit b
                     (SetInvalid ''root IngressRoute cannot be defined in this namespace'' sw))
              else
                (let host = Fqdn vh
                 in if isBlank deps host
                    then Done (commit b (SetInvalid ''Spec.VirtualHost.Fqdn must be specified'' sw))
                    else
                      (case rootTLS deps b ir vh (WithValue_vhost host sw) of
                         Inl sw' \<Rightarrow> Done (commit b sw')
                       | Inr (b1, enforceTLS, passthrough) \<Rightarrow>
                           (case (if ir_TCPProxy ir \<noteq> None \<and> (passthrough \<or> enforceTLS)
                                  then processIngressRouteTCPProxy deps src fuel b1
                                         (WithValue_vhost host sw) ir [] host
                                  else Done (b1, WithValue_vhost host sw)) of
                              Done (b2, sw2) \<Rightarrow>
                                (case processIngressRoutes deps src fuel b2 sw2 ir [] [] host
                                        (ir_TCPProxy ir = None \<and> enforceTLS) of
                                   Done (b3, sw3) \<Rightarrow> Done (commit b3 sw3)
                                 | Panic \<Rightarrow> Panic
                                 | OutOfFuel \<Rightarrow> OutOfFuel)
                            | Panic \<Rightarrow> Panic
                            | OutOfFuel \<Rightarrow> OutOfFuel)))))"

subsection \<open>All resources: validIngressRoutes and computeIngressRoutes\<close>

text \<open>
  \<open>fqdnIngressroutes\<close> is a Go map from an FQDN to the roots that declare it, in the
  order of their insertion. The order in which a \<open>range\<close> yields the keys of a map is
  not fixed; here it is the order of the keys' first insertion.
\<close>

fun fqdn_append ::
  "(string \<times> IngressRoute list) list \<Rightarrow> string \<Rightarrow> IngressRoute \<Rightarrow> (string \<times> IngressRoute list) list" where
  "fqdn_append [] fqdn ir = [(fqdn, [ir])]"
| "fqdn_append ((k, irs) # m) fqdn ir =
     (if k = fqdn then (k, irs @ [ir]) # m else (k, irs) # fqdn_append m fqdn ir)"

fun validIngressRoutes_group ::
  "IngressRoute list \<Rightarrow> IngressRoute list \<Rightarrow> (string \<times> IngressRoute list) list \<Rightarrow>
   IngressRoute list \<times> (string \<times> IngressRoute list) list" where
  "validIngressRoutes_group [] valid m = (valid, m)"
| "validIngressRoutes_group (ir # irs) valid m =
     (case ir_VirtualHost ir of
        None \<Rightarrow> validIngressRoutes_group irs (valid @ [ir]) m
      | Some vh \<Rightarrow> validIngressRoutes_group irs valid (fqdn_append m (Fqdn vh) ir))"

definition conflict_msg :: "deps \<Rightarrow> string \<Rightarrow> IngressRoute list \<Rightarrow> string" where
  "conflict_msg deps fqdn irs =
     ''fqdn '' @ fmt_q deps fqdn @ '' is used in multiple IngressRoutes: '' @
     Join (sort (map resource_path irs)) '', ''"

definition mark_conflict :: "string \<Rightarrow> string \<Rightarrow> IngressRoute \<Rightarrow> Builder \<Rightarrow> Builder" where
  "mark_conflict fqdn msg ir b =
     commit b (SetInvalid msg (WithValue_vhost fqdn (WithObject ir)))"

fun validIngressRoutes_check ::
  "deps \<Rightarrow> (string \<times> IngressRoute list) list \<Rightarrow> Builder \<Rightarrow> IngressRoute list \<Rightarrow>
   Builder \<times> IngressRoute list" where
  "validIngressRoutes_check deps [] b valid = (b, valid)"
| "validIngressRoutes_check deps ((fqdn, irs) # m) b valid =
     (case irs of
        [ir] \<Rightarrow> validIngressRoutes_check deps m b (valid @ [ir])
      | _ \<Rightarrow>
          validIngressRoutes_check deps m
            (fold (mark_conflict fqdn (conflict_msg deps fqdn irs)) irs b) valid)"

definition validIngressRoutes ::
  "deps \<Rightarrow> Builder \<Rightarrow> IngressRoute list \<Rightarrow> Builder \<times> IngressRoute list" where
  "validIngressRoutes deps b src =
     (case validIngressRoutes_group src [] [] of
        (valid, m) \<Rightarrow> validIngressRoutes_check deps m b valid)"

fun computeIngressRoutes_loop ::
  "deps \<Rightarrow> IngressRoute list \<Rightarrow> Builder \<Rightarrow> IngressRoute list \<Rightarrow> Builder outcome" where
  "computeIngressRoutes_loop deps src b [] = Done b"
| "computeIngressRoutes_loop deps src b (ir # irs) =
     (case computeIngressRoute deps src b ir of
        Done b' \<Rightarrow> computeIngressRoutes_loop deps src b' irs
      | Panic \<Rightarrow> Panic
      | OutOfFuel \<Rightarrow> OutOfFuel)"

definition computeIngressRoutes :: "deps \<Rightarrow> IngressRoute list \<Rightarrow> Builder \<Rightarrow> Builder outcome" where
  "computeIngressRoutes deps src b =
     (case validIngressRoutes deps b src of
        (b', valid) \<Rightarrow> computeIngressRoutes_loop deps src b' valid)"

text \<open>The roots of the source that declare a given FQDN.\<close>

definition roots_of :: "string \<Rightarrow> IngressRoute list \<Rightarrow> IngressRoute list" where
  "roots_of fqdn src =
     filter (\<lambda>ir. case ir_VirtualHost ir of None \<Rightarrow> False | Some vh \<Rightarrow> Fqdn vh = fqdn) src"

text \<open>
  What the builder holds besides its hosts: the statuses written, as object and status,
  and the orphaned set. And the same for a walk's builder and writer, with the flag
  \<open>DisablePermitInsecure\<close> that the routes are built with.
\<close>

definition written :: "Builder \<Rightarrow> (FullName \<times> Status option) list \<times> FullName set" where
  "written b = (map (\<lambda>sw. (osw_obj sw, osw_status sw)) (statuses b), orphaned b)"

definition walk_view ::
  "Builder \<times> ObjectStatusWriter \<Rightarrow>
   bool \<times> ((FullName \<times> Status option) list \<times> FullName set) \<times> FullName \<times> Status option" where
  "walk_view r =
     (DisablePermitInsecure (fst r), written (fst r), osw_obj (snd r), osw_status (snd r))"

subsection \<open>An instance of the parameters, and resources for the examples\<close>

fun decimal :: "nat \<Rightarrow> string" where
  "decimal n =
     (if n < 10 then [char_of (48 + n)] else decimal (n div 10) @ [char_of (48 + n mod 10)])"

definition ex_deps :: deps where
  "ex_deps =
     \<lparr>rootAllowed = (\<lambda>namespace. True),
      isBlank = (\<lambda>s. filter (\<lambda>c. c \<noteq> CHR '' '') s = []),
      splitSecret = (\<lambda>secret namespace. (namespace, secret)),
      lookupSecret = (\<lambda>m. if snd m = ''cert'' then Inr (ex_secret ''cert'')
                           else Inl ''Secret not found''),
      delegationPermitted = (\<lambda>secret namespace. True),
      MinTLSVersion = (\<lambda>version. TLSv1_1),
      annotation_MaxProtoVersion = (\<lambda>version. TLS_AUTO),
      matchesPathPrefix = (\<lambda>path prefix. prefix = [] \<or> take (length prefix) path = prefix),
      routeEnforceTLS = (\<lambda>enforceTLS permitInsecure. enforceTLS \<and> \<not> permitInsecure),
      ParseTimeout = (\<lambda>request. 0),
      retryPolicy = (\<lambda>rp. rp),
      headersPolicy = (\<lambda>policy allowHost. Inr policy),
      headerConditionsValid = (\<lambda>conds. True),
      mergeHeaderConditions = (\<lambda>conds. conds),
      lookupService =
        (\<lambda>m port. if snd m = ''kuard'' \<and> port = 8080
                   then Some \<lparr>svc_Namespace = fst m, svc_Name = snd m, svc_Port = port,
                              svc_Protocol = []\<rparr>
                   else None),
      lookupUpstreamValidation = (\<lambda>uv namespace. Inr None),
      fmt_q = (\<lambda>s. [CHR 0x22] @ s @ [CHR 0x22]),
      fmt_d = (\<lambda>i. if i < 0 then ''-'' @ decimal (nat (- i)) else decimal (nat i))\<rparr>"

definition ex_builder :: Builder where
  "ex_builder =
     \<lparr>DisablePermitInsecure = False, orphaned = {}, statuses = [],
      virtualhosts = Map.empty, securevirtualhosts = Map.empty\<rparr>"

definition ex_kuard :: irService where
  "ex_kuard =
     \<lparr>s_Name = ''kuard'', s_Port = 8080, s_Weight = 0, s_HealthCheck = None,
      s_Strategy = [], s_UpstreamValidation = None, s_IdleTimeout = None\<rparr>"

text \<open>A route entry of a given prefix, to the given services or to the given delegate.\<close>

definition ex_route :: "string \<Rightarrow> irService list \<Rightarrow> Delegate option \<Rightarrow> irRoute" where
  "ex_route prefix svcs dlg =
     \<lparr>Match = prefix, Services = svcs, r_Delegate = dlg, PermitInsecure = False,
      EnableWebsockets = False, r_PrefixRewrite = [], r_TimeoutPolicy = None,
      r_RetryPolicy = None, r_HashPolicy = [], r_PerFilterConfig = None,
      r_RequestHeadersPolicy = None, r_ResponseHeadersPolicy = None,
      r_IdleTimeout = None, r_Timeout = None, r_Tracing = None, HeaderMatch = []\<rparr>"

definition ex_delegate :: "string \<Rightarrow> Delegate" where
  "ex_delegate n = \<lparr>d_Name = n, d_Namespace = []\<rparr>"

text \<open>A resource of namespace \<open>default\<close>: a root of the given FQDN, or a delegate.\<close>

definition ex_root :: "string \<Rightarrow> string \<Rightarrow> irRoute list \<Rightarrow> IngressRoute" where
  "ex_root n fqdn rs =
     \<lparr>ir_Namespace = ''default'', ir_Name = n,
      ir_VirtualHost = Some \<lparr>Fqdn = fqdn, vh_TLS = None\<rparr>, Routes = rs, ir_TCPProxy = None\<rparr>"

definition ex_delegate_resource :: "string \<Rightarrow> irRoute list \<Rightarrow> IngressRoute" where
  "ex_delegate_resource n rs =
     \<lparr>ir_Namespace = ''default'', ir_Name = n, ir_VirtualHost = None, Routes = rs,
      ir_TCPProxy = None\<rparr>"

text \<open>The outcome's builder, and what the examples read from it.\<close>

definition status_of :: "Builder outcome \<Rightarrow> (FullName \<times> Status option) list" where
  "status_of r =
     (case r of
        Done b \<Rightarrow> map (\<lambda>sw. (osw_obj sw, osw_status sw)) (statuses b)
      | Panic \<Rightarrow> []
      | OutOfFuel \<Rightarrow> [])"

definition routes_of :: "Builder outcome \<Rightarrow> string \<Rightarrow> string list" where
  "routes_of r host =
     (case r of
        Done b \<Rightarrow>
          (case virtualhosts b host of
             None \<Rightarrow> []
           | Some vh \<Rightarrow> map PathCondition (vh_routes vh))
      | Panic \<Rightarrow> []
      | OutOfFuel \<Rightarrow> [])"

text \<open>
  A root whose first route entry delegates to the root itself and whose second entry
  points to a service; the same root without the first entry.
\<close>

definition ex_self_cycle :: IngressRoute where
  "ex_self_cycle =
     ex_root ''a'' ''a.example.com''
       [ex_route ''/'' [] (Some (ex_delegate ''a'')), ex_route ''/x'' [ex_kuard] None]"

definition ex_no_cycle :: IngressRoute where
  "ex_no_cycle = ex_root ''a'' ''a.example.com'' [ex_route ''/x'' [ex_kuard] None]"

text \<open>
  The root \<open>a\<close> delegates to \<open>b\<close>, and \<open>b\<close> delegates back to \<open>a\<close>; each has a route entry
  to a service after the delegation. The root \<open>c\<close> has no part in the cycle.
\<close>

definition ex_a :: IngressRoute where
  "ex_a =
     ex_root ''a'' ''a.example.com''
       [ex_route ''/'' [] (Some (ex_delegate ''b'')), ex_route ''/x'' [ex_kuard] None]"

definition ex_b :: IngressRoute where
  "ex_b =
     ex_delegate_resource ''b''
       [ex_route ''/'' [] (Some (ex_delegate ''a'')), ex_route ''/y'' [ex_kuard] None]"

definition ex_c :: IngressRoute where
  "ex_c = ex_root ''c'' ''c.example.com'' [ex_route ''/'' [ex_kuard] None]"

text \<open>
  Roots with one route entry that has an idle timeout: of two hours and to a service; of
  zero and to a service; of zero and to a delegate that does not exist; of
  \<open>10^10\<close> seconds, more than a \<open>time.Duration\<close> holds, and to a service.
\<close>

definition ex_idle_route :: "irService list \<Rightarrow> Delegate option \<Rightarrow> int \<Rightarrow> irRoute" where
  "ex_idle_route svcs dlg secs =
     (ex_route ''/'' svcs dlg)\<lparr>r_IdleTimeout := Some \<lparr>Seconds = secs, Nanos = 0\<rparr>\<rparr>"

definition ex_idle_2h :: IngressRoute where
  "ex_idle_2h = ex_root ''a'' ''a.example.com'' [ex_idle_route [ex_kuard] None 7200]"

definition ex_idle_zero :: IngressRoute where
  "ex_idle_zero = ex_root ''a'' ''a.example.com'' [ex_idle_route [ex_kuard] None 0]"

definition ex_idle_zero_delegation :: IngressRoute where
  "ex_idle_zero_delegation =
     ex_root ''a'' ''a.example.com'' [ex_idle_route [] (Some (ex_delegate ''missing'')) 0]"

definition ex_idle_long :: IngressRoute where
  "ex_idle_long = ex_root ''a'' ''a.example.com'' [ex_idle_route [ex_kuard] None 10000000000]"

definition idle_timeouts_of :: "Builder outcome \<Rightarrow> string \<Rightarrow> DurationProto option list" where
  "idle_timeouts_of r host =
     (case r of
        Done b \<Rightarrow>
          (case virtualhosts b host of
             None \<Rightarrow> []
           | Some vh \<Rightarrow> map rt_IdleTimeout (vh_routes vh))
      | Panic \<Rightarrow> []
      | OutOfFuel \<Rightarrow> [])"

text \<open>
  The root \<open>ra\<close> delegates the prefix \<open>/b\<close> to the root \<open>rb\<close>, which declares another
  FQDN and has a route to a service. A root with a wildcard FQDN.
\<close>

definition ex_rb :: IngressRoute where
  "ex_rb = ex_root ''rb'' ''b.example.com'' [ex_route ''/b'' [ex_kuard] None]"

definition ex_ra :: IngressRoute where
  "ex_ra = ex_root ''ra'' ''a.example.com'' [ex_route ''/b'' [] (Some (ex_delegate ''rb''))]"

definition ex_wildcard :: IngressRoute where
  "ex_wildcard = ex_root ''w'' ''*.example.com'' [ex_route ''/'' [ex_kuard] None]"

text \<open>
  Two roots that declare the same FQDN, and the resources of the example: the second of
  the two roots, an unrelated root, the first of the two roots.
\<close>

definition ex_x1 :: IngressRoute where
  "ex_x1 = ex_root ''x1'' ''x.example.com'' [ex_route ''/'' [ex_kuard] None]"

definition ex_x2 :: IngressRoute where
  "ex_x2 = ex_root ''x2'' ''x.example.com'' [ex_route ''/two'' [ex_kuard] None]"

definition ex_conflict :: "IngressRoute list" where
  "ex_conflict = [ex_x2, ex_c, ex_x1]"

text \<open>
  The delegate \<open>b\<close> with an edge back to the root \<open>a\<close> and then an edge to the
  delegate \<open>c\<close>, the same without the edge back, and the delegate \<open>c\<close> with a
  route to a service.
\<close>

definition ex_b_back_then_c :: IngressRoute where
  "ex_b_back_then_c =
     ex_delegate_resource ''b''
       [ex_route ''/'' [] (Some (ex_delegate ''a'')), ex_route ''/c'' [] (Some (ex_delegate ''c''))]"

definition ex_b_to_c :: IngressRoute where
  "ex_b_to_c = ex_delegate_resource ''b'' [ex_route ''/c'' [] (Some (ex_delegate ''c''))]"

definition ex_c_delegate :: IngressRoute where
  "ex_c_delegate = ex_delegate_resource ''c'' [ex_route ''/c'' [ex_kuard] None]"

definition orphaned_of :: "Builder outcome \<Rightarrow> FullName list \<Rightarrow> FullName list" where
  "orphaned_of r names =
     (case r of
        Done b \<Rightarrow> filter (\<lambda>n. n \<in> orphaned b) names
      | Panic \<Rightarrow> []
      | OutOfFuel \<Rightarrow> [])"

text \<open>
  A service with an idle timeout of the given seconds, and a root with one route entry
  to that service.
\<close>

definition ex_kuard_idle :: "int \<Rightarrow> irService" where
  "ex_kuard_idle secs = ex_kuard\<lparr>s_IdleTimeout := Some \<lparr>Seconds = secs, Nanos = 0\<rparr>\<rparr>"

definition ex_service_idle :: "int \<Rightarrow> IngressRoute" where
  "ex_service_idle secs =
     ex_root ''a'' ''a.example.com'' [ex_route ''/'' [ex_kuard_idle secs] None]"

text \<open>
  What the computation of a root leaves: the statuses after the first \<open>n\<close>, and the
  hosts of a name, plain and secure.
\<close>

definition built ::
  "nat \<Rightarrow> string \<Rightarrow> Builder \<Rightarrow>
   ObjectStatusWriter list \<times> VirtualHost option \<times> SecureVirtualHost option" where
  "built n host b = (drop n (statuses b), virtualhosts b host, securevirtualhosts b host)"

text \<open>The builder that the computation of the root \<open>a\<close> of the cycle leaves.\<close>

definition ex_after_cycle :: Builder where
  "ex_after_cycle =
     (case computeIngressRoute ex_deps [ex_a, ex_b, ex_c] ex_builder ex_a of
        Done b \<Rightarrow> b
      | Panic \<Rightarrow> ex_builder
      | OutOfFuel \<Rightarrow> ex_builder)"

section \<open>Properties of the listener cache\<close>

lemma Query_loop_eq:
  "Query_loop dyn stat names vals =
     vals @ List.map_filter (\<lambda>n. case dyn n of Some v \<Rightarrow> Some v | None \<Rightarrow> stat n) names"
  by (induction names arbitrary: vals) (auto split: option.splits)

lemma Query_eq: "Query c names = sort_key l_Name (List.map_filter (resolve c) names)"
proof -
  have "(\<lambda>n. case values_c c n of Some v \<Rightarrow> Some v | None \<Rightarrow> staticValues c n) = resolve c"
    by (rule ext) (simp add: resolve_def)
  then show ?thesis
    by (simp add: Query_def sorter_For_listeners_def Query_loop_eq)
qed

text \<open>
  C7. For every list of requested names, \<open>Query\<close> resolves each name from the dynamic
  values first, then from the static values, and skips a name that is in neither: the
  result holds exactly the resolved objects, one per resolvable name, and nothing else.
  The result is sorted by listener name, and the sort is stable: objects of equal name
  keep the order of the request.
\<close>

theorem Query_resolves_sorted:
  "Query c names = sort_key l_Name (List.map_filter (resolve c) names)
   \<and> sorted (map l_Name (Query c names))
   \<and> (\<forall>k. filter (\<lambda>l. l_Name l = k) (Query c names) =
            filter (\<lambda>l. l_Name l = k) (List.map_filter (resolve c) names))
   \<and> set (Query c names) = {v. \<exists>n \<in> set names. resolve c n = Some v}
   \<and> length (Query c names) = length (filter (\<lambda>n. resolve c n \<noteq> None) names)"
proof -
  have 1: "Query c names = sort_key l_Name (List.map_filter (resolve c) names)"
    by (rule Query_eq)
  have 2: "sorted (map l_Name (Query c names))"
    by (simp add: 1)
  have 3: "\<forall>k. filter (\<lambda>l. l_Name l = k) (Query c names) =
            filter (\<lambda>l. l_Name l = k) (List.map_filter (resolve c) names)"
    by (simp add: 1 filter_sort[symmetric] sort_key_stable)
  have 4: "set (Query c names) = {v. \<exists>n \<in> set names. resolve c n = Some v}"
    by (force simp: 1 List.map_filter_def image_iff)
  have 5: "length (Query c names) = length (filter (\<lambda>n. resolve c n \<noteq> None) names)"
    by (simp add: 1 List.map_filter_def)
  from 1 2 3 4 5 show ?thesis by blast
qed

section \<open>Properties of the weighted clusters\<close>

lemma weightedClusters_loop_eq:
  "weightedClusters_loop N services t cs =
     (t + sum_list (map hs_Weight services),
      cs @ map (\<lambda>s. \<lparr>wc_Name = N (TCPService s), wc_Weight = u32 (hs_Weight s),
                     RequestHeadersToAdd =
                       headers (appendHeader ''x-request-start'' ''t=%START_TIME(%s.%3f)%'')\<rparr>) services)"
  by (induction services arbitrary: t cs) (auto simp: add.assoc)

lemma unat_sum_list_words:
  "(\<Sum>w\<leftarrow>ws. unat w) < 2 ^ 64 \<Longrightarrow> unat (sum_list ws :: 64 word) = (\<Sum>w\<leftarrow>ws. unat w)"
proof (induction ws)
  case Nil
  then show ?case by simp
next
  case (Cons w ws)
  then have "unat (sum_list ws) = (\<Sum>w\<leftarrow>ws. unat w)" by simp
  moreover have "unat w + unat (sum_list ws) < 2 ^ 64"
    using Cons.prems calculation by simp
  ultimately show ?case
    by (simp add: unat_add_lem[THEN iffD1])
qed

lemma sum_list_zero_words:
  "\<forall>w \<in> set ws. w = 0 \<Longrightarrow> sum_list ws = (0 :: 64 word)"
  by (induction ws) auto

lemma sum_list_unat_pos:
  "\<exists>w \<in> set ws. w \<noteq> (0::64 word) \<Longrightarrow> 0 < (\<Sum>w\<leftarrow>ws. unat w)"
  by (induction ws) (auto simp: unat_gt_0)

lemma unat_le_sum_list: "w \<in> set ws \<Longrightarrow> unat w \<le> (\<Sum>w\<leftarrow>ws. unat (w::64 word))"
  by (induction ws) auto

lemma unat_u32: "unat w < 2 ^ 32 \<Longrightarrow> unat (u32 w) = unat w"
  by (simp add: u32_def unsigned_ucast_eq take_bit_nat_eq_self)

lemma u32_of_nat: "u32 (of_nat n) = of_nat n"
  unfolding u32_def
  apply (rule word_unat_eq_iff[THEN iffD2])
  apply (simp add: unsigned_ucast_eq unsigned_of_nat unat_of_nat take_bit_eq_mod)
  apply (simp add: mod_mod_cancel)
  done

lemma mset_map_sort_key: "mset (map g (sort_key f xs)) = mset (map g xs)"
  by simp

lemma tcp_clusters_eq:
  "tcp_clusters N cs acc =
     acc @ map (\<lambda>c. \<lparr>cw_Name = N c, cw_Weight = (if Weight c = 0 then 1 else Weight c)\<rparr>) cs"
  by (induction cs arbitrary: acc) (auto simp: Let_def)


lemma weights_projection:
  assumes small: "(\<Sum>s\<leftarrow>services. unat (hs_Weight s)) < 2 ^ 32"
  shows "((\<forall>s \<in> set services. hs_Weight s = 0) \<longrightarrow>
            map wc_Weight (wc_Clusters (weightedClusters N services)) =
              replicate (length services) 1
            \<and> TotalWeight (weightedClusters N services) = of_nat (length services))
       \<and> (\<not> (\<forall>s \<in> set services. hs_Weight s = 0) \<longrightarrow>
            mset (map (\<lambda>c. (wc_Name c, unat (wc_Weight c)))
                   (wc_Clusters (weightedClusters N services))) =
              mset (map (\<lambda>s. (N (TCPService s), unat (hs_Weight s))) services)
            \<and> unat (TotalWeight (weightedClusters N services)) =
                (\<Sum>s\<leftarrow>services. unat (hs_Weight s)))"
proof -
  let ?ws = "map hs_Weight services"
  have sum64: "(\<Sum>w\<leftarrow>?ws. unat w) < 2 ^ 64"
    using small by (simp add: comp_def) 
  have tot: "unat (sum_list ?ws) = (\<Sum>s\<leftarrow>services. unat (hs_Weight s))"
    using unat_sum_list_words[OF sum64] by (simp add: comp_def)
  have each: "unat (hs_Weight s) < 2 ^ 32" if "s \<in> set services" for s
  proof -
    have "unat (hs_Weight s) \<le> (\<Sum>w\<leftarrow>?ws. unat w)"
      using that by (intro unat_le_sum_list) simp
    then show ?thesis using small by (simp add: comp_def)
  qed
  have loop: "weightedClusters_loop N services 0 [] =
      (sum_list ?ws, map (\<lambda>s. \<lparr>wc_Name = N (TCPService s), wc_Weight = u32 (hs_Weight s),
                     RequestHeadersToAdd =
                       headers (appendHeader ''x-request-start'' ''t=%START_TIME(%s.%3f)%'')\<rparr>) services)"
    by (simp add: weightedClusters_loop_eq)
  show ?thesis
  proof (intro conjI impI)
    assume z: "\<forall>s \<in> set services. hs_Weight s = 0"
    then have s0: "sum_list ?ws = 0" by (intro sum_list_zero_words) simp
    have "map wc_Weight (sort_key f xs) = replicate (length xs) 1"
      if "\<forall>c \<in> set xs. wc_Weight c = 1"
      for xs and f :: "WeightedCluster_ClusterWeight \<Rightarrow> string \<times> 32 word"
    proof -
      have "\<forall>w \<in> set (map wc_Weight (sort_key f xs)). w = 1"
        using that by auto
      from replicate_length_same[OF this] show ?thesis by simp
    qed
    then show "map wc_Weight (wc_Clusters (weightedClusters N services)) =
              replicate (length services) 1"
      by (simp add: weightedClusters_def loop s0 clusterWeightByName_def)
    show "TotalWeight (weightedClusters N services) = of_nat (length services)"
      by (simp add: weightedClusters_def loop s0 u32_of_nat)
  next
    assume nz: "\<not> (\<forall>s \<in> set services. hs_Weight s = 0)"
    then have "\<exists>w \<in> set ?ws. w \<noteq> 0" by auto
    then have "0 < (\<Sum>w\<leftarrow>?ws. unat w)" by (rule sum_list_unat_pos)
    then have pos: "0 < unat (sum_list ?ws)" using tot by (simp add: comp_def)
    then have ne: "sum_list ?ws \<noteq> 0" by auto
    let ?proj = "\<lambda>s. \<lparr>wc_Name = N (TCPService s), wc_Weight = u32 (hs_Weight s),
                     RequestHeadersToAdd =
                       headers (appendHeader ''x-request-start'' ''t=%START_TIME(%s.%3f)%'')\<rparr>"
    let ?g = "\<lambda>c. (wc_Name c, unat (wc_Weight c))"
    have m: "map ?g (map ?proj services) =
          map (\<lambda>s. (N (TCPService s), unat (hs_Weight s))) services"
      using each by (simp add: unat_u32)
    have "mset (map ?g (clusterWeightByName (map ?proj services))) =
          mset (map ?g (map ?proj services))"
      unfolding clusterWeightByName_def by (rule mset_map_sort_key)
    then have "mset (map ?g (clusterWeightByName (map ?proj services))) =
          mset (map (\<lambda>s. (N (TCPService s), unat (hs_Weight s))) services)"
      by (simp only: m)
    moreover have "wc_Clusters (weightedClusters N services) =
          clusterWeightByName (map ?proj services)"
      by (simp add: weightedClusters_def loop ne)
    ultimately show "mset (map (\<lambda>c. (wc_Name c, unat (wc_Weight c)))
                   (wc_Clusters (weightedClusters N services))) =
              mset (map (\<lambda>s. (N (TCPService s), unat (hs_Weight s))) services)"
      by (simp only:)
    have "unat (sum_list ?ws) < 2 ^ 32" using tot small by simp
    then show "unat (TotalWeight (weightedClusters N services)) =
                (\<Sum>s\<leftarrow>services. unat (hs_Weight s))"
      using tot by (simp add: weightedClusters_def loop ne unat_u32)
  qed
qed

text \<open>
  C3, as stated, fails for the weighted clusters of a TCP proxy: the weights 2/0/3 are
  projected as 2/1/3, the zero weight replaced by one although other weights are not
  zero.
\<close>

theorem TCPProxy_zero_weight_counterexample:
  "tcp_proxy_weights
     (TCPProxy ex_Clustername ''ingress_https''
        \<lparr>Clusters = [ex_cluster ''a'' 2, ex_cluster ''b'' 0, ex_cluster ''c'' 3]\<rparr> []) =
   [2, 1, 3]"
  by code_simp

lemma TCPProxy_weighted:
  "length (Clusters proxy) \<noteq> 1 \<Longrightarrow>
   TCPProxy N statPrefix proxy al =
     \<lparr>f_Name = wellknown_TCPProxy,
      f_TypedConfig = TcpProxy_config
        \<lparr>tp_StatPrefix = statPrefix,
         tp_ClusterSpecifier = TcpProxy_WeightedClusters
           (sorter_For_clusters
             (map (\<lambda>c. \<lparr>cw_Name = N c, cw_Weight = (if Weight c = 0 then 1 else Weight c)\<rparr>)
                (Clusters proxy))),
         tp_AccessLog = al, tp_IdleTimeout = 9001000000000\<rparr>\<rparr>"
  by (cases "Clusters proxy"; cases "tl (Clusters proxy)")
     (auto simp: TCPProxy_def tcp_clusters_eq Let_def)

text \<open>
  C3, amended. For the weighted clusters of an HTTP route whose weights are not negative
  and sum to less than \<open>2^32\<close>: if every weight is zero, each projected weight is 1 and
  the total is the number of clusters; otherwise every cluster keeps its given weight
  (zero included) and the total is the sum of the weights. For the weighted clusters of
  a TCP proxy (any number of clusters but one), each weight of zero is replaced by one on
  its own and every other weight is kept.
\<close>

theorem weights_all:
  assumes small: "(\<Sum>s\<leftarrow>services. unat (hs_Weight s)) < 2 ^ 32"
  shows "((\<forall>s \<in> set services. hs_Weight s = 0) \<longrightarrow>
            map wc_Weight (wc_Clusters (weightedClusters N services)) =
              replicate (length services) 1
            \<and> TotalWeight (weightedClusters N services) = of_nat (length services))
       \<and> (\<not> (\<forall>s \<in> set services. hs_Weight s = 0) \<longrightarrow>
            mset (map (\<lambda>c. (wc_Name c, unat (wc_Weight c)))
                   (wc_Clusters (weightedClusters N services))) =
              mset (map (\<lambda>s. (N (TCPService s), unat (hs_Weight s))) services)
            \<and> unat (TotalWeight (weightedClusters N services)) =
                (\<Sum>s\<leftarrow>services. unat (hs_Weight s)))
       \<and> (length (Clusters proxy) \<noteq> 1 \<longrightarrow>
            TCPProxy N' statPrefix proxy al =
              \<lparr>f_Name = wellknown_TCPProxy,
               f_TypedConfig = TcpProxy_config
                 \<lparr>tp_StatPrefix = statPrefix,
                  tp_ClusterSpecifier = TcpProxy_WeightedClusters
                    (sorter_For_clusters
                      (map (\<lambda>c. \<lparr>cw_Name = N' c,
                                  cw_Weight = (if Weight c = 0 then 1 else Weight c)\<rparr>)
                         (Clusters proxy))),
                  tp_AccessLog = al, tp_IdleTimeout = 9001000000000\<rparr>\<rparr>)"
  using weights_projection[OF small, of N] TCPProxy_weighted[of proxy N' statPrefix al]
  by blast

theorem weights_all_witness:
  "map wc_Weight (wc_Clusters (weightedClusters id
       [ex_service ''a'' 0, ex_service ''b'' 0, ex_service ''c'' 0])) = [1, 1, 1]
   \<and> TotalWeight (weightedClusters id
       [ex_service ''a'' 0, ex_service ''b'' 0, ex_service ''c'' 0]) = 3
   \<and> mset (map (\<lambda>c. (wc_Name c, unat (wc_Weight c)))
        (wc_Clusters (weightedClusters id
           [ex_service ''a'' 2, ex_service ''b'' 0, ex_service ''c'' 3]))) =
       mset [(''a'', 2), (''b'', 0), (''c'', 3)]
   \<and> unat (TotalWeight (weightedClusters id
       [ex_service ''a'' 2, ex_service ''b'' 0, ex_service ''c'' 3])) = 5
   \<and> tcp_proxy_weights (TCPProxy ex_Clustername ''ingress_https''
        \<lparr>Clusters = [ex_cluster ''a'' 0, ex_cluster ''b'' 5]\<rparr> []) = [1, 5]"
proof -
  have z: "(\<Sum>s\<leftarrow>[ex_service ''a'' 0, ex_service ''b'' 0, ex_service ''c'' 0].
              unat (hs_Weight s)) < 2 ^ 32"
    by (simp add: ex_service_def)
  have n: "(\<Sum>s\<leftarrow>[ex_service ''a'' 2, ex_service ''b'' 0, ex_service ''c'' 3].
              unat (hs_Weight s)) < 2 ^ 32"
    by (simp add: ex_service_def)
  have l: "length (Clusters \<lparr>Clusters = [ex_cluster ''a'' 0, ex_cluster ''b'' 5]\<rparr>) \<noteq> 1"
    by simp
  have t: "sorter_For_clusters
             [\<lparr>cw_Name = ''default/a'', cw_Weight = 1\<rparr>, \<lparr>cw_Name = ''default/b'', cw_Weight = 5\<rparr>] =
             [\<lparr>cw_Name = ''default/a'', cw_Weight = 1\<rparr>, \<lparr>cw_Name = ''default/b'', cw_Weight = 5\<rparr>]"
    by code_simp
  show ?thesis
    using weights_all[OF z, of id "\<lparr>Clusters = [ex_cluster ''a'' 0, ex_cluster ''b'' 5]\<rparr>"
        ex_Clustername "''ingress_https''" "[]"]
      weights_all[OF n, of id "\<lparr>Clusters = [ex_cluster ''a'' 0, ex_cluster ''b'' 5]\<rparr>"
        ex_Clustername "''ingress_https''" "[]"] l t
    by (simp add: ex_service_def ex_cluster_def ex_Clustername_def tcp_proxy_weights_def)
qed

section \<open>Properties of the listener visitor\<close>

lemma group_chain_found:
  "\<exists>fc \<in> set fcs. qualifies tls fc \<Longrightarrow>
   \<exists>pre fc post. fcs = pre @ fc # post \<and> qualifies tls fc \<and> (\<forall>p \<in> set pre. \<not> qualifies tls p)
      \<and> group_chain tls name fcs = (pre @ add_server_name name fc # post, True)"
proof (induction fcs)
  case Nil
  then show ?case by simp
next
  case (Cons a fcs)
  show ?case
  proof (cases "qualifies tls a")
    case True
    then have "group_chain tls name (a # fcs) = ([] @ add_server_name name a # fcs, True)"
      by (auto simp: qualifies_def)
    with True show ?thesis by (metis append_Nil empty_iff list.set(1))
  next
    case False
    with Cons.prems have "\<exists>fc \<in> set fcs. qualifies tls fc" by auto
    from Cons.IH[OF this] obtain pre fc post where
      h: "fcs = pre @ fc # post" "qualifies tls fc" "\<forall>p \<in> set pre. \<not> qualifies tls p"
         "group_chain tls name fcs = (pre @ add_server_name name fc # post, True)"
      by blast
    from False h(4) have "group_chain tls name (a # fcs) = ((a # pre) @ add_server_name name fc # post, True)"
      by (auto simp: qualifies_def)
    moreover have "a # fcs = (a # pre) @ fc # post" using h(1) by simp
    moreover have "\<forall>p \<in> set (a # pre). \<not> qualifies tls p" using False h(3) by simp
    ultimately show ?thesis using h(2) by blast
  qed
qed

lemma group_chain_not_found:
  "\<forall>fc \<in> set fcs. \<not> qualifies tls fc \<Longrightarrow> group_chain tls name fcs = (fcs, False)"
  by (induction fcs) (auto simp: qualifies_def)

lemma group_chain_tcp_untouched:
  "i < length fcs \<Longrightarrow> isTCPProxyFilter (fc_Filters (fcs ! i)) \<Longrightarrow>
   i < length (fst (group_chain tls name fcs)) \<and> fst (group_chain tls name fcs) ! i = fcs ! i"
proof (induction fcs arbitrary: i)
  case Nil
  then show ?case by simp
next
  case (Cons a fcs)
  show ?case
  proof (cases i)
    case 0
    with Cons.prems show ?thesis by (auto split: prod.splits)
  next
    case (Suc j)
    with Cons.prems Cons.IH[of j] show ?thesis by (auto split: prod.splits)
  qed
qed

lemma group_chain_length: "length (fst (group_chain tls name fcs)) = length fcs"
  by (induction fcs) (auto split: prod.splits)


lemma add_fallback_nth: "i < length fcs \<Longrightarrow> add_fallback D lvc vh fcs ! i = fcs ! i"
  by (simp add: add_fallback_def nth_append split: option.splits)

lemma add_fallback_set: "fc \<in> set fcs \<Longrightarrow> fc \<in> set (add_fallback D lvc vh fcs)"
  by (simp add: add_fallback_def split: option.splits)

lemma visit_found:
  assumes "svh_TCPProxy vh = None" "svh_Secret vh \<noteq> None"
    and "\<exists>fc \<in> set fcs. qualifies (secure_downstreamTLS lvc vh) fc"
  shows "\<exists>pre fc post. fcs = pre @ fc # post \<and> qualifies (secure_downstreamTLS lvc vh) fc
      \<and> (\<forall>p \<in> set pre. \<not> qualifies (secure_downstreamTLS lvc vh) p)
      \<and> visit_SecureVirtualHost N D lvc vh fcs =
          add_fallback D lvc vh (pre @ add_server_name (vh_Name (svh_VirtualHost vh)) fc # post)"
proof -
  from group_chain_found[OF assms(3), of "vh_Name (svh_VirtualHost vh)"]
  obtain pre fc post where h: "fcs = pre @ fc # post" "qualifies (secure_downstreamTLS lvc vh) fc"
     "\<forall>p \<in> set pre. \<not> qualifies (secure_downstreamTLS lvc vh) p"
     "group_chain (secure_downstreamTLS lvc vh) (vh_Name (svh_VirtualHost vh)) fcs =
        (pre @ add_server_name (vh_Name (svh_VirtualHost vh)) fc # post, True)"
    by blast
  have "visit_SecureVirtualHost N D lvc vh fcs =
          add_fallback D lvc vh (pre @ add_server_name (vh_Name (svh_VirtualHost vh)) fc # post)"
    using assms(1,2) h(4) by (simp add: visit_SecureVirtualHost_def Let_def)
  with h(1,2,3) show ?thesis by blast
qed

lemma visit_not_found:
  assumes "\<forall>fc \<in> set fcs. \<not> qualifies (secure_downstreamTLS lvc vh) fc"
  shows "visit_SecureVirtualHost N D lvc vh fcs =
     add_fallback D lvc vh
       (fcs @ [FilterChainTLS (vh_Name (svh_VirtualHost vh)) (secure_downstreamTLS lvc vh)
                 (secure_filters N D lvc vh)])"
  using group_chain_not_found[OF assms]
  by (simp add: visit_SecureVirtualHost_def Let_def)

lemma visit_tcp:
  assumes "svh_TCPProxy vh \<noteq> None"
  shows "visit_SecureVirtualHost N D lvc vh fcs =
     add_fallback D lvc vh
       (fcs @ [FilterChainTLS (vh_Name (svh_VirtualHost vh)) (secure_downstreamTLS lvc vh)
                 (secure_filters N D lvc vh)])"
  using assms by (cases "svh_TCPProxy vh") (simp_all add: visit_SecureVirtualHost_def Let_def)

lemma visit_tcp_untouched:
  assumes "i < length fcs" "isTCPProxyFilter (fc_Filters (fcs ! i))"
  shows "visit_SecureVirtualHost N D lvc vh fcs ! i = fcs ! i"
proof -
  let ?g = "group_chain (secure_downstreamTLS lvc vh) (vh_Name (svh_VirtualHost vh)) fcs"
  have 1: "i < length (fst ?g)" "fst ?g ! i = fcs ! i"
    using group_chain_tcp_untouched[OF assms] by auto
  show ?thesis
    using assms 1
    by (simp add: visit_SecureVirtualHost_def Let_def add_fallback_nth nth_append)
qed

text \<open>
  C4. Visiting a SecureVirtualHost that has a Secret and no TCP proxy: if a chain of the
  secure listener has a transport socket, is no TCP proxy chain and carries a TLS context
  equal to the host's, the first such chain gets the host's name added to its server
  names, which are sorted again, and no chain is added for the host. If no chain is
  accepted, or the host is a TCP proxy, a new chain is appended. A TCP proxy chain of the
  listener is left as it is by every visit.
\<close>

theorem visit_groups_filter_chains:
  "(svh_TCPProxy vh = None \<and> svh_Secret vh \<noteq> None \<and>
      (\<exists>fc \<in> set fcs. qualifies (secure_downstreamTLS lvc vh) fc) \<longrightarrow>
      (\<exists>pre fc post. fcs = pre @ fc # post \<and> qualifies (secure_downstreamTLS lvc vh) fc
        \<and> (\<forall>p \<in> set pre. \<not> qualifies (secure_downstreamTLS lvc vh) p)
        \<and> visit_SecureVirtualHost N D lvc vh fcs =
            add_fallback D lvc vh
              (pre @ add_server_name (vh_Name (svh_VirtualHost vh)) fc # post)))
   \<and> ServerNames (fc_FilterChainMatch (add_server_name name fc0)) =
        sort (ServerNames (fc_FilterChainMatch fc0) @ [name])
   \<and> ((\<forall>fc \<in> set fcs. \<not> qualifies (secure_downstreamTLS lvc vh) fc) \<longrightarrow>
        visit_SecureVirtualHost N D lvc vh fcs =
          add_fallback D lvc vh
            (fcs @ [FilterChainTLS (vh_Name (svh_VirtualHost vh)) (secure_downstreamTLS lvc vh)
                      (secure_filters N D lvc vh)]))
   \<and> (svh_TCPProxy vh \<noteq> None \<longrightarrow>
        visit_SecureVirtualHost N D lvc vh fcs =
          add_fallback D lvc vh
            (fcs @ [FilterChainTLS (vh_Name (svh_VirtualHost vh)) (secure_downstreamTLS lvc vh)
                      (secure_filters N D lvc vh)]))
   \<and> (\<forall>i < length fcs. isTCPProxyFilter (fc_Filters (fcs ! i)) \<longrightarrow>
        visit_SecureVirtualHost N D lvc vh fcs ! i = fcs ! i)"
  using visit_found[of vh fcs lvc N D] visit_not_found[of fcs lvc vh N D]
    visit_tcp[of vh N D lvc fcs] visit_tcp_untouched[of _ fcs N D lvc vh]
  by (simp add: add_server_name_def)

lemma group_chain_True_has:
  "group_chain tls name fcs = (fcs', True) \<Longrightarrow>
   \<exists>fc \<in> set fcs'. TransportSocket fc = tls \<and> name \<in> set (ServerNames (fc_FilterChainMatch fc))"
proof (induction fcs arbitrary: fcs')
  case Nil
  then show ?case by simp
next
  case (Cons a fcs)
  then show ?case
    by (auto simp: add_server_name_def split: if_splits prod.splits)
qed

text \<open>
  C8. After the visit of a SecureVirtualHost with a Secret, a chain of the secure
  listener serves the host's name with a TLS context whose minimum protocol version is
  the larger of the configured floor (\<open>minProtoVersion\<close>: the configured version, at
  least TLS 1.1) and the host's minimum, and whose maximum protocol version is the
  host's, or TLS 1.3 when the host's is \<open>TLS_AUTO\<close>.
\<close>

theorem visit_tls_versions:
  assumes "svh_Secret vh = Some secret"
  shows "\<exists>fc \<in> set (visit_SecureVirtualHost N D lvc vh fcs).
           vh_Name (svh_VirtualHost vh) \<in> set (ServerNames (fc_FilterChainMatch fc))
         \<and> (\<exists>ctx. TransportSocket fc = Some ctx
              \<and> tls_Secret ctx = secret
              \<and> TlsMinimumProtocolVersion ctx = max (minProtoVersion lvc) (MinProtoVersion vh)
              \<and> minProtoVersion lvc = max TLSv1_1 (MinimumProtocolVersion lvc)
              \<and> TlsMaximumProtocolVersion ctx =
                  (if MaxProtoVersion vh = TLS_AUTO then TLSv1_3 else MaxProtoVersion vh))"
proof -
  let ?tls = "secure_downstreamTLS lvc vh"
  let ?name = "vh_Name (svh_VirtualHost vh)"
  obtain ctx where ctx: "?tls = Some ctx" "tls_Secret ctx = secret"
     "TlsMinimumProtocolVersion ctx = max (minProtoVersion lvc) (MinProtoVersion vh)"
     "TlsMaximumProtocolVersion ctx =
                  (if MaxProtoVersion vh = TLS_AUTO then TLSv1_3 else MaxProtoVersion vh)"
    using assms
    by (auto simp: secure_downstreamTLS_def DownstreamTLSContextAdobe_def max_tls_def
        maxProtoVersion_def Let_def max_def)
  have floor: "minProtoVersion lvc = max TLSv1_1 (MinimumProtocolVersion lvc)"
    by (auto simp: minProtoVersion_def max_def)
  let ?g = "if svh_TCPProxy vh = None \<and> svh_Secret vh \<noteq> None
            then group_chain ?tls ?name fcs else (fcs, False)"
  let ?fcs1 = "if \<not> snd ?g then fst ?g @ [FilterChainTLS ?name ?tls (secure_filters N D lvc vh)]
               else fst ?g"
  have "\<exists>fc \<in> set ?fcs1. TransportSocket fc = ?tls \<and> ?name \<in> set (ServerNames (fc_FilterChainMatch fc))"
  proof (cases "snd ?g")
    case True
    then have "group_chain ?tls ?name fcs = (fst ?g, True)"
      by (cases "group_chain ?tls ?name fcs") (auto split: if_splits)
    from group_chain_True_has[OF this] True show ?thesis by simp
  next
    case False
    then show ?thesis by (simp add: FilterChainTLS_def)
  qed
  then obtain fc where fc: "fc \<in> set ?fcs1" "TransportSocket fc = ?tls"
      "?name \<in> set (ServerNames (fc_FilterChainMatch fc))" by blast
  have "visit_SecureVirtualHost N D lvc vh fcs = add_fallback D lvc vh ?fcs1"
    by (simp add: visit_SecureVirtualHost_def Let_def)
  with fc(1) have "fc \<in> set (visit_SecureVirtualHost N D lvc vh fcs)"
    by (simp add: add_fallback_set)
  with fc(2,3) ctx floor show ?thesis by auto
qed

lemma secure_filters_http:
  "svh_TCPProxy vh = None \<Longrightarrow> \<not> isTCPProxyFilter (secure_filters N D lvc vh)"
  by (simp add: secure_filters_def Filters_def Get_def wellknown_TCPProxy_def
      wellknown_HTTPConnectionManager_def)

lemma ex_visit_b:
  "visit_SecureVirtualHost ex_Clustername [] ex_lvc (ex_svhost ''b.example.com'' ''cert'') [] =
   [FilterChainTLS ''b.example.com''
      (secure_downstreamTLS ex_lvc (ex_svhost ''b.example.com'' ''cert''))
      (secure_filters ex_Clustername [] ex_lvc (ex_svhost ''b.example.com'' ''cert''))]"
  by (simp add: visit_SecureVirtualHost_def add_fallback_def ex_svhost_def Let_def)

lemma ex_tls_same:
  "secure_downstreamTLS ex_lvc (ex_svhost ''a.example.com'' ''cert'') =
   secure_downstreamTLS ex_lvc (ex_svhost ''b.example.com'' ''cert'')"
  by (simp add: secure_downstreamTLS_def ex_svhost_def secure_alpnProtos_def)

theorem visit_groups_filter_chains_witness:
  "map (\<lambda>fc. ServerNames (fc_FilterChainMatch fc))
     (visit_SecureVirtualHost ex_Clustername [] ex_lvc (ex_svhost ''a.example.com'' ''cert'')
       (visit_SecureVirtualHost ex_Clustername [] ex_lvc (ex_svhost ''b.example.com'' ''cert'') []))
   = [[''a.example.com'', ''b.example.com'']]
   \<and> map (\<lambda>fc. ServerNames (fc_FilterChainMatch fc))
     (visit_SecureVirtualHost ex_Clustername [] ex_lvc (ex_svhost ''c.example.com'' ''other'')
       (visit_SecureVirtualHost ex_Clustername [] ex_lvc (ex_svhost ''b.example.com'' ''cert'') []))
   = [[''b.example.com''], [''c.example.com'']]"
proof -
  define a where "a = ex_svhost ''a.example.com'' ''cert''"
  define b where "b = ex_svhost ''b.example.com'' ''cert''"
  define c where "c = ex_svhost ''c.example.com'' ''other''"
  define tlsa where "tlsa = secure_downstreamTLS ex_lvc a"
  define tlsc where "tlsc = secure_downstreamTLS ex_lvc c"
  define fsb where "fsb = secure_filters ex_Clustername [] ex_lvc b"
  define fsc where "fsc = secure_filters ex_Clustername [] ex_lvc c"
  define fcb where "fcb = FilterChainTLS ''b.example.com'' tlsa fsb"
  have tlsb: "secure_downstreamTLS ex_lvc b = tlsa"
    unfolding tlsa_def a_def b_def by (rule ex_tls_same[symmetric])
  have vb: "visit_SecureVirtualHost ex_Clustername [] ex_lvc b [] = [fcb]"
    unfolding fcb_def fsb_def tlsb[symmetric] b_def by (rule ex_visit_b)
  have "svh_TCPProxy b = None" by (simp add: b_def ex_svhost_def)
  from secure_filters_http[OF this] have 1: "\<not> isTCPProxyFilter (fc_Filters fcb)"
    by (simp add: fcb_def fsb_def FilterChainTLS_def)
  have 2: "TransportSocket fcb = tlsa"
    by (simp add: fcb_def FilterChainTLS_def)
  have 3: "tlsa \<noteq> None"
    by (simp add: tlsa_def a_def secure_downstreamTLS_def ex_svhost_def)
  have 4: "tlsc \<noteq> tlsa"
    by (simp add: tlsa_def tlsc_def a_def c_def secure_downstreamTLS_def ex_svhost_def
        DownstreamTLSContextAdobe_def ex_secret_def)
  have qa: "qualifies tlsa fcb"
    using 1 2 3 by (simp add: qualifies_def)
  have qc: "\<not> qualifies tlsc fcb"
    using 2 4 by (simp add: qualifies_def)
  have fa: "svh_TCPProxy a = None" "svh_Secret a \<noteq> None"
     "FallbackCertificate a = None" "FallbackCertificate c = None"
     "vh_Name (svh_VirtualHost a) = ''a.example.com''"
     "vh_Name (svh_VirtualHost c) = ''c.example.com''"
    by (simp_all add: a_def c_def ex_svhost_def)
  have srt: "sort [''b.example.com'', ''a.example.com''] = [''a.example.com'', ''b.example.com'']"
    by code_simp
  have ha: "svh_TCPProxy a = None \<and> svh_Secret a \<noteq> None \<and>
      (\<exists>fc \<in> set [fcb]. qualifies (secure_downstreamTLS ex_lvc a) fc)"
    using qa fa(1,2) by (simp add: tlsa_def)
  from visit_groups_filter_chains[of a "[fcb]" ex_lvc ex_Clustername "[]"] ha
  obtain pre fc post where
    h: "[fcb] = pre @ fc # post"
       "visit_SecureVirtualHost ex_Clustername [] ex_lvc a [fcb] =
          add_fallback [] ex_lvc a (pre @ add_server_name (vh_Name (svh_VirtualHost a)) fc # post)"
    by blast
  from h(1) have "pre = [] \<and> fc = fcb \<and> post = []"
    by (cases pre) simp_all
  with h(2) have va: "visit_SecureVirtualHost ex_Clustername [] ex_lvc a [fcb] =
      [add_server_name ''a.example.com'' fcb]"
    by (simp add: add_fallback_def fa)
  have hc: "\<forall>fc \<in> set [fcb]. \<not> qualifies (secure_downstreamTLS ex_lvc c) fc"
    using qc by (simp add: tlsc_def)
  from visit_groups_filter_chains[of c "[fcb]" ex_lvc ex_Clustername "[]"] hc
  have vc: "visit_SecureVirtualHost ex_Clustername [] ex_lvc c [fcb] =
      [fcb, FilterChainTLS ''c.example.com'' tlsc fsc]"
    by (simp add: add_fallback_def fa tlsc_def fsc_def)
  have na: "ServerNames (fc_FilterChainMatch (add_server_name ''a.example.com'' fcb)) =
      [''a.example.com'', ''b.example.com'']"
    by (simp add: add_server_name_def fcb_def FilterChainTLS_def srt)
  have nb: "ServerNames (fc_FilterChainMatch fcb) = [''b.example.com'']"
    by (simp add: fcb_def FilterChainTLS_def)
  have nc: "ServerNames (fc_FilterChainMatch (FilterChainTLS ''c.example.com'' tlsc fsc)) =
      [''c.example.com'']"
    by (simp add: FilterChainTLS_def)
  show ?thesis
    unfolding a_def[symmetric] b_def[symmetric] c_def[symmetric] vb va vc
    by (simp add: na nb nc)
qed

theorem visit_tls_versions_witness:
  "\<exists>fc \<in> set (visit_SecureVirtualHost ex_Clustername [] ex_lvc
                  (ex_svhost ''a.example.com'' ''cert'') []).
      ''a.example.com'' \<in> set (ServerNames (fc_FilterChainMatch fc))
      \<and> (\<exists>ctx. TransportSocket fc = Some ctx
            \<and> tls_Secret ctx = ex_secret ''cert''
            \<and> TlsMinimumProtocolVersion ctx = TLSv1_2
            \<and> TlsMaximumProtocolVersion ctx = TLSv1_3)"
proof -
  have s: "svh_Secret (ex_svhost ''a.example.com'' ''cert'') = Some (ex_secret ''cert'')"
    by (simp add: ex_svhost_def)
  have v: "max (minProtoVersion ex_lvc) (MinProtoVersion (ex_svhost ''a.example.com'' ''cert'')) = TLSv1_2"
     "MaxProtoVersion (ex_svhost ''a.example.com'' ''cert'') = TLS_AUTO"
     "vh_Name (svh_VirtualHost (ex_svhost ''a.example.com'' ''cert'')) = ''a.example.com''"
    by (simp_all add: minProtoVersion_def ex_lvc_def ex_svhost_def TLSv1_1_def TLSv1_2_def)
  show ?thesis
    using visit_tls_versions[OF s, of ex_Clustername "[]" ex_lvc "[]"]
    unfolding v by auto
qed

section \<open>Properties of the builder's walks\<close>

subsection \<open>The walks end\<close>

lemma on_path_iff: "on_path visited dest \<longleftrightarrow> fullname dest \<in> fullname ` set visited"
  by (auto simp: on_path_def fullname_def list_ex_iff)

lemma lookup_ingressroute_Some:
  "lookup_ingressroute src m = Some dest \<Longrightarrow> dest \<in> set src \<and> fullname dest = m"
  by (auto simp: lookup_ingressroute_def find_Some_iff)

lemma remaining_step:
  assumes "dest \<in> set src" "fullname dest \<notin> fullname ` set visited"
    and "card (fullname ` set src - fullname ` set visited) \<le> fuel"
  shows "card (fullname ` set src - fullname ` set (visited @ [dest])) < fuel"
proof -
  let ?S = "fullname ` set src - fullname ` set visited"
  have fin: "finite ?S" by simp
  have mem: "fullname dest \<in> ?S" using assms(1,2) by auto
  have "fullname ` set src - fullname ` set (visited @ [dest]) = ?S - {fullname dest}"
    by auto
  moreover have "card (?S - {fullname dest}) < card ?S"
    using fin mem by (rule card_Diff1_less)
  ultimately show ?thesis using assms(3) by simp
qed

lemma walk_fuel:
  "card (fullname ` set src - fullname ` set (visited @ [ir])) < fuel \<longrightarrow>
      (\<exists>r. processIngressRoutes deps src fuel b sw ir prefixMatch visited host enforceTLS = Done r)"
  and
  "card (fullname ` set src - fullname ` set visited') \<le> fuel' \<longrightarrow>
      (\<exists>r. processIngressRoutes_loop deps src fuel' b' sw' ir' prefixMatch' visited' host'
              enforceTLS' routes = Done r)"
proof (induction deps src fuel b sw ir prefixMatch visited host enforceTLS
        and deps src fuel' b' sw' ir' prefixMatch' visited' host' enforceTLS' routes
        rule: processIngressRoutes_processIngressRoutes_loop.induct)
  case (1 deps src b sw ir prefixMatch visited host enforceTLS)
  then show ?case by simp
next
  case (2 deps src fuel b sw ir prefixMatch visited host enforceTLS)
  then show ?case by simp
next
  case (3 deps src fuel b sw ir prefixMatch visited host enforceTLS)
  then show ?case by simp
next
  case (4 deps src fuel b sw ir prefixMatch visited host enforceTLS route routes)
  show ?case
  proof (intro impI)
    assume le: "card (fullname ` set src - fullname ` set visited) \<le> fuel"
    show "\<exists>r. processIngressRoutes_loop deps src fuel b sw ir prefixMatch visited host
              enforceTLS (route # routes) = Done r"
    proof (cases "Services route \<noteq> [] \<and> r_Delegate route \<noteq> None")
      case True
      then show ?thesis by simp
    next
      case both: False
      show ?thesis
      proof (cases "Services route \<noteq> []")
        case True
        show ?thesis
        proof (cases "buildRoute deps b ir prefixMatch enforceTLS route")
          case (Inl msg)
          with both True show ?thesis by simp
        next
          case (Inr r)
          from "4.IH"(1)[OF both True Inr] le both True Inr show ?thesis by simp
        qed
      next
        case nosvc: False
        show ?thesis
        proof (cases "r_Delegate route")
          case None
          from "4.IH"(2)[OF both nosvc None] le both nosvc None show ?thesis by simp
        next
          case (Some d)
          show ?thesis
          proof (cases "lookup_ingressroute src (delegate_namespace ir d, d_Name d)")
            case None
            from "4.IH"(3)[OF both nosvc Some None] le both nosvc Some None
            show ?thesis by simp
          next
            case found: (Some dest)
            define b1 where "b1 = b\<lparr>orphaned := orphaned b - {fullname dest}\<rparr>"
            show ?thesis
            proof (cases "on_path visited dest")
              case True
              with both nosvc Some found show ?thesis by (simp add: Let_def)
            next
              case off: False
              have dest: "dest \<in> set src" using lookup_ingressroute_Some[OF found] by simp
              have nv: "fullname dest \<notin> fullname ` set visited"
                using off by (simp add: on_path_iff)
              from remaining_step[OF dest nv le]
              have lt: "card (fullname ` set src - fullname ` set (visited @ [dest])) < fuel" .
              from "4.IH"(4)[OF both nosvc Some found b1_def off] lt
              obtain b2 sw2 where r: "processIngressRoutes deps src fuel b1 (WithObject dest) dest
                  (Match route) visited host enforceTLS = Done (b2, sw2)"
                by (cases) auto
              from "4.IH"(5)[OF both nosvc Some found b1_def off r refl] le
              obtain r' where "processIngressRoutes_loop deps src fuel (commit b2 sw2) sw ir
                  prefixMatch visited host enforceTLS routes = Done r'" by auto
              with both nosvc Some found off r show ?thesis
                by (simp add: Let_def b1_def)
            qed
          qed
        qed
      qed
    qed
  qed
qed

lemma remaining_start:
  "card (fullname ` set src - fullname ` set ([] @ [ir])) < Suc (length src)"
proof -
  have "card (fullname ` set src - fullname ` set ([] @ [ir])) \<le> card (fullname ` set src)"
    by (intro card_mono) auto
  also have "\<dots> \<le> card (set src)" by (rule card_image_le) simp
  also have "\<dots> \<le> length src" by (rule card_length)
  finally show ?thesis by simp
qed

lemma tcp_walk_fuel:
  "card (fullname ` set src - fullname ` set (visited @ [ir])) < fuel \<longrightarrow>
     processIngressRouteTCPProxy deps src fuel b sw ir visited host \<noteq> OutOfFuel"
proof (induction deps src fuel b sw ir visited host rule: processIngressRouteTCPProxy.induct)
  case (1 deps src b sw ir visited host)
  then show ?case by simp
next
  case (2 deps src fuel b sw ir visited host)
  show ?case
  proof (intro impI)
    assume lt: "card (fullname ` set src - fullname ` set (visited @ [ir])) < Suc fuel"
    show "processIngressRouteTCPProxy deps src (Suc fuel) b sw ir visited host \<noteq> OutOfFuel"
    proof (cases "ir_TCPProxy ir")
      case None
      then show ?thesis by simp
    next
      case tcp: (Some tcpproxy)
      show ?thesis
      proof (cases "tcp_Services tcpproxy \<noteq> [] \<and> tcp_Delegate tcpproxy \<noteq> None")
        case True
        with tcp show ?thesis by simp
      next
        case both: False
        show ?thesis
        proof (cases "tcp_Services tcpproxy \<noteq> []")
          case True
          with tcp both show ?thesis by (simp split: sum.splits)
        next
          case nosvc: False
          show ?thesis
          proof (cases "tcp_Delegate tcpproxy")
            case None
            with tcp both nosvc show ?thesis by simp
          next
            case (Some d)
            show ?thesis
            proof (cases "lookup_ingressroute src (delegate_namespace ir d, d_Name d)")
              case None
              with tcp both nosvc Some show ?thesis by simp
            next
              case found: (Some dest)
              define b1 where "b1 = b\<lparr>orphaned := orphaned b - {fullname dest}\<rparr>"
              show ?thesis
              proof (cases "on_path (visited @ [ir]) dest")
                case True
                with tcp both nosvc Some found show ?thesis by (simp add: Let_def)
              next
                case off: False
                have dest: "dest \<in> set src" using lookup_ingressroute_Some[OF found] by simp
                have nv: "fullname dest \<notin> fullname ` set (visited @ [ir])"
                  using off by (simp add: on_path_iff)
                from lt have "card (fullname ` set src - fullname ` set (visited @ [ir])) \<le> fuel"
                  by simp
                from remaining_step[OF dest nv this]
                have "card (fullname ` set src - fullname ` set ((visited @ [ir]) @ [dest])) < fuel" .
                with "2.IH"[OF tcp both nosvc Some found b1_def off]
                have "processIngressRouteTCPProxy deps src fuel b1 (osw_WithObject sw dest) dest
                        (visited @ [ir]) host \<noteq> OutOfFuel" by simp
                with tcp both nosvc Some found off show ?thesis
                  by (simp add: Let_def b1_def split: outcome.splits)
              qed
            qed
          qed
        qed
      qed
    qed
  qed
qed

lemma computeIngressRoute_fuel: "computeIngressRoute deps src b ir \<noteq> OutOfFuel"
proof -
  have w: "\<exists>r. processIngressRoutes deps src (Suc (length src)) b' sw' ir [] [] host tls = Done r"
    for b' sw' host tls
    using walk_fuel(1)[of src "[]" ir "Suc (length src)"] remaining_start[of src ir] by blast
  have t: "processIngressRouteTCPProxy deps src (Suc (length src)) b' sw' ir [] host \<noteq> OutOfFuel"
    for b' sw' host
    using tcp_walk_fuel[of src "[]" ir "Suc (length src)"] remaining_start[of src ir] by blast
  show ?thesis
  proof (cases "ir_VirtualHost ir")
    case None
    then show ?thesis by (simp add: computeIngressRoute_def)
  next
    case (Some vh)
    show ?thesis
    proof (cases "rootTLS deps b ir vh (WithValue_vhost (Fqdn vh) (WithObject ir))")
      case (Inl sw')
      with Some show ?thesis by (simp add: computeIngressRoute_def Let_def)
    next
      case (Inr x)
      obtain b1 enforceTLS passthrough where x: "x = (b1, enforceTLS, passthrough)"
        by (cases x) auto
      let ?t = "if ir_TCPProxy ir \<noteq> None \<and> (passthrough \<or> enforceTLS)
                then processIngressRouteTCPProxy deps src (Suc (length src)) b1
                       (WithValue_vhost (Fqdn vh) (WithObject ir)) ir [] (Fqdn vh)
                else Done (b1, WithValue_vhost (Fqdn vh) (WithObject ir))"
      have t': "?t \<noteq> OutOfFuel" using t by simp
      show ?thesis
      proof (cases ?t)
        case (Done r)
        obtain b2 sw2 where r: "r = (b2, sw2)" by (cases r) auto
        from w[of b2 sw2 "Fqdn vh" "ir_TCPProxy ir = None \<and> enforceTLS"]
        obtain r3 where "processIngressRoutes deps src (Suc (length src)) b2 sw2 ir [] []
            (Fqdn vh) (ir_TCPProxy ir = None \<and> enforceTLS) = Done r3" by blast
        with Some Inr x Done r show ?thesis
          by (simp add: computeIngressRoute_def Let_def split: prod.splits)
      next
        case Panic
        with Some Inr x show ?thesis
          by (simp add: computeIngressRoute_def Let_def)
      next
        case OutOfFuel
        with t' show ?thesis by simp
      qed
    qed
  qed
qed

lemma computeIngressRoutes_loop_fuel: "computeIngressRoutes_loop deps src b irs \<noteq> OutOfFuel"
proof (induction irs arbitrary: b)
  case Nil
  then show ?case by simp
next
  case (Cons ir irs)
  then show ?case
    using computeIngressRoute_fuel[of deps src b ir] by (simp split: outcome.splits)
qed

lemma computeIngressRoutes_fuel: "computeIngressRoutes deps src b \<noteq> OutOfFuel"
  by (simp add: computeIngressRoutes_def computeIngressRoutes_loop_fuel split: prod.splits)

subsection \<open>What a walk changes\<close>

lemma walk_preserves:
  assumes R_refl: "\<And>h b. R h b b"
    and R_trans: "\<And>h a b c. R h a b \<Longrightarrow> R h b c \<Longrightarrow> R h a c"
    and add: "\<And>h b tls r. R h b (addRoutes b h tls r)"
    and orph: "\<And>h b X. R h b (b\<lparr>orphaned := X\<rparr>)"
    and com: "\<And>h b sw. R h b (commit b sw)"
  shows "\<forall>b' sw'. processIngressRoutes deps src fuel b sw ir prefixMatch visited host enforceTLS =
            Done (b', sw') \<longrightarrow>
          R host b b' \<and> (\<exists>st. sw' = sw\<lparr>osw_status := Some st\<rparr>)"
    and "\<forall>b' sw'. processIngressRoutes_loop deps src fuel0 b0 sw0 ir0 prefixMatch0 visited0 host0
            enforceTLS0 routes = Done (b', sw') \<longrightarrow>
          R host0 b0 b' \<and> (\<exists>st. sw' = sw0\<lparr>osw_status := Some st\<rparr>)"
proof (induction deps src fuel b sw ir prefixMatch visited host enforceTLS
        and deps src fuel0 b0 sw0 ir0 prefixMatch0 visited0 host0 enforceTLS0 routes
        rule: processIngressRoutes_processIngressRoutes_loop.induct)
  case (1 deps src b sw ir prefixMatch visited host enforceTLS)
  then show ?case by simp
next
  case (2 deps src fuel b sw ir prefixMatch visited host enforceTLS)
  then show ?case by simp
next
  case (3 deps src fuel b sw ir prefixMatch visited host enforceTLS)
  show ?case using R_refl by (auto simp: SetValid_def)
next
  case (4 deps src fuel b sw ir prefixMatch visited host enforceTLS route routes)
  show ?case
  proof (intro allI impI)
    fix b' sw'
    assume run: "processIngressRoutes_loop deps src fuel b sw ir prefixMatch visited host
        enforceTLS (route # routes) = Done (b', sw')"
    show "R host b b' \<and> (\<exists>st. sw' = sw\<lparr>osw_status := Some st\<rparr>)"
    proof (cases "Services route \<noteq> [] \<and> r_Delegate route \<noteq> None")
      case True
      with run show ?thesis using R_refl by (auto simp: SetInvalid_def)
    next
      case both: False
      show ?thesis
      proof (cases "Services route \<noteq> []")
        case True
        show ?thesis
        proof (cases "buildRoute deps b ir prefixMatch enforceTLS route")
          case (Inl msg)
          with both True run show ?thesis using R_refl by (auto simp: SetInvalid_def)
        next
          case (Inr r)
          with both True run have "processIngressRoutes_loop deps src fuel
              (addRoutes b host enforceTLS r) sw ir prefixMatch visited host enforceTLS routes =
              Done (b', sw')" by simp
          with "4.IH"(1)[OF both True Inr]
          have "R host (addRoutes b host enforceTLS r) b'" "\<exists>st. sw' = sw\<lparr>osw_status := Some st\<rparr>"
            by auto
          with R_trans[OF add] show ?thesis by blast
        qed
      next
        case nosvc: False
        show ?thesis
        proof (cases "r_Delegate route")
          case None
          with both nosvc run "4.IH"(2)[OF both nosvc None] show ?thesis by simp
        next
          case (Some d)
          show ?thesis
          proof (cases "lookup_ingressroute src (delegate_namespace ir d, d_Name d)")
            case None
            with both nosvc Some run "4.IH"(3)[OF both nosvc Some None] show ?thesis by simp
          next
            case found: (Some dest)
            define b1 where "b1 = b\<lparr>orphaned := orphaned b - {fullname dest}\<rparr>"
            have b1: "R host b b1" unfolding b1_def by (rule orph)
            show ?thesis
            proof (cases "on_path visited dest")
              case True
              with both nosvc Some found run have "b' = b1" "sw' = SetInvalid
                  (''route creates a delegation cycle: '' @ cycle_path visited dest) sw"
                by (simp_all add: Let_def b1_def)
              with b1 show ?thesis by (auto simp: SetInvalid_def)
            next
              case off: False
              show ?thesis
              proof (cases "processIngressRoutes deps src fuel b1 (WithObject dest) dest
                  (Match route) visited host enforceTLS")
                case (Done r)
                obtain b2 sw2 where r: "r = (b2, sw2)" by (cases r) auto
                from "4.IH"(4)[OF both nosvc Some found b1_def off] Done r
                have 12: "R host b1 b2" by simp
                from both nosvc Some found off Done r run
                have "processIngressRoutes_loop deps src fuel (commit b2 sw2) sw ir prefixMatch
                    visited host enforceTLS routes = Done (b', sw')"
                  by (simp add: Let_def b1_def)
                with "4.IH"(5)[OF both nosvc Some found b1_def off Done[unfolded r] refl]
                have 3: "R host (commit b2 sw2) b'" "\<exists>st. sw' = sw\<lparr>osw_status := Some st\<rparr>"
                  by auto
                from R_trans[OF R_trans[OF R_trans[OF b1 12] com] 3(1)] 3(2) show ?thesis by blast
              next
                case Panic
                with both nosvc Some found off run show ?thesis
                  by (simp add: Let_def b1_def)
              next
                case OutOfFuel
                with both nosvc Some found off run show ?thesis
                  by (simp add: Let_def b1_def)
              qed
            qed
          qed
        qed
      qed
    qed
  qed
qed

lemma walk_statuses:
  assumes run: "processIngressRoutes deps src fuel b sw ir prefixMatch visited host enforceTLS =
    Done (b', sw')"
  shows "(\<exists>ys. statuses b' = statuses b @ ys) \<and> osw_obj sw' = osw_obj sw"
proof -
  have "\<forall>b' sw'. processIngressRoutes deps src fuel b sw ir prefixMatch visited host enforceTLS =
            Done (b', sw') \<longrightarrow>
          (\<exists>ys. statuses b' = statuses b @ ys) \<and> (\<exists>st. sw' = sw\<lparr>osw_status := Some st\<rparr>)"
  proof (rule walk_preserves(1)[where R = "\<lambda>h a c. \<exists>ys. statuses c = statuses a @ ys"])
    show "\<And>h b. \<exists>ys. statuses b = statuses b @ ys" by simp
    show "\<And>h a b c. \<exists>ys. statuses b = statuses a @ ys \<Longrightarrow> \<exists>ys. statuses c = statuses b @ ys
        \<Longrightarrow> \<exists>ys. statuses c = statuses a @ ys" by auto
    show "\<And>h b tls r. \<exists>ys. statuses (addRoutes b h tls r) = statuses b @ ys"
      by (simp add: addRoutes_def Let_def)
    show "\<And>h b X. \<exists>ys. statuses (b\<lparr>orphaned := X\<rparr>) = statuses b @ ys" by simp
    show "\<And>h b sw. \<exists>ys. statuses (commit b sw) = statuses b @ ys" by (simp add: commit_def)
  qed
  with run show ?thesis by auto
qed

lemma walk_hosts:
  assumes run: "processIngressRoutes deps src fuel b sw ir prefixMatch visited host enforceTLS =
    Done (b', sw')" and k: "k \<noteq> host"
  shows "virtualhosts b' k = virtualhosts b k \<and> securevirtualhosts b' k = securevirtualhosts b k"
proof -
  have "\<forall>b' sw'. processIngressRoutes deps src fuel b sw ir prefixMatch visited host enforceTLS =
            Done (b', sw') \<longrightarrow>
          (\<forall>k. k \<noteq> host \<longrightarrow> virtualhosts b' k = virtualhosts b k \<and>
                 securevirtualhosts b' k = securevirtualhosts b k)
          \<and> (\<exists>st. sw' = sw\<lparr>osw_status := Some st\<rparr>)"
  proof (rule walk_preserves(1)[where R = "\<lambda>h a c. \<forall>k. k \<noteq> h \<longrightarrow>
        virtualhosts c k = virtualhosts a k \<and> securevirtualhosts c k = securevirtualhosts a k"])
    show "\<And>h b tls r. \<forall>k. k \<noteq> h \<longrightarrow>
        virtualhosts (addRoutes b h tls r) k = virtualhosts b k \<and>
        securevirtualhosts (addRoutes b h tls r) k = securevirtualhosts b k"
      by (simp add: addRoutes_def Let_def)
    show "\<And>h b sw. \<forall>k. k \<noteq> h \<longrightarrow>
        virtualhosts (commit b sw) k = virtualhosts b k \<and>
        securevirtualhosts (commit b sw) k = securevirtualhosts b k"
      by (simp add: commit_def)
  qed simp_all
  with run k show ?thesis by simp
qed

lemma tcp_walk_preserves:
  assumes R_refl: "\<And>h b. R h b b"
    and R_trans: "\<And>h a b c. R h a b \<Longrightarrow> R h b c \<Longrightarrow> R h a c"
    and sec: "\<And>h b v. R h b (b\<lparr>securevirtualhosts := (securevirtualhosts b)(h \<mapsto> v)\<rparr>)"
    and orph: "\<And>h b X. R h b (b\<lparr>orphaned := X\<rparr>)"
    and com: "\<And>h b sw. R h b (commit b sw)"
  shows "\<forall>b' sw'. processIngressRouteTCPProxy deps src fuel b sw ir visited host = Done (b', sw')
          \<longrightarrow> R host b b' \<and> osw_obj sw' = osw_obj sw \<and> osw_vhost sw' = osw_vhost sw"
proof (induction deps src fuel b sw ir visited host rule: processIngressRouteTCPProxy.induct)
  case (1 deps src b sw ir visited host)
  then show ?case by simp
next
  case (2 deps src fuel b sw ir visited host)
  show ?case
  proof (intro allI impI)
    fix b' sw'
    assume run: "processIngressRouteTCPProxy deps src (Suc fuel) b sw ir visited host =
      Done (b', sw')"
    show "R host b b' \<and> osw_obj sw' = osw_obj sw \<and> osw_vhost sw' = osw_vhost sw"
    proof (cases "ir_TCPProxy ir")
      case None
      with run show ?thesis by simp
    next
      case tcp: (Some tcpproxy)
      show ?thesis
      proof (cases "tcp_Services tcpproxy \<noteq> [] \<and> tcp_Delegate tcpproxy \<noteq> None")
        case True
        with tcp run show ?thesis using R_refl by (auto simp: SetInvalid_def)
      next
        case both: False
        show ?thesis
        proof (cases "tcp_Services tcpproxy \<noteq> []")
          case True
          show ?thesis
          proof (cases "tcpproxyClusters deps ir (tcp_Services tcpproxy) []")
            case (Inl msg)
            with tcp both True run show ?thesis using R_refl by (auto simp: SetInvalid_def)
          next
            case (Inr cs)
            with tcp both True run show ?thesis using sec by (auto simp: SetValid_def)
          qed
        next
          case nosvc: False
          show ?thesis
          proof (cases "tcp_Delegate tcpproxy")
            case None
            with tcp both nosvc run show ?thesis using R_refl by simp
          next
            case (Some d)
            show ?thesis
            proof (cases "lookup_ingressroute src (delegate_namespace ir d, d_Name d)")
              case None
              with tcp both nosvc Some run show ?thesis using R_refl by simp
            next
              case found: (Some dest)
              define b1 where "b1 = b\<lparr>orphaned := orphaned b - {fullname dest}\<rparr>"
              have b1: "R host b b1" unfolding b1_def by (rule orph)
              show ?thesis
              proof (cases "on_path (visited @ [ir]) dest")
                case True
                with tcp both nosvc Some found run have "b' = b1" "sw' = SetInvalid
                    (''tcpproxy creates a delegation cycle: '' @ cycle_path (visited @ [ir]) dest) sw"
                  by (simp_all add: Let_def b1_def)
                with b1 show ?thesis by (auto simp: SetInvalid_def)
              next
                case off: False
                show ?thesis
                proof (cases "processIngressRouteTCPProxy deps src fuel b1
                    (osw_WithObject sw dest) dest (visited @ [ir]) host")
                  case (Done r)
                  obtain b2 sw2 where r: "r = (b2, sw2)" by (cases r) auto
                  from "2.IH"[OF tcp both nosvc Some found b1_def off] Done r
                  have 12: "R host b1 b2" by simp
                  from tcp both nosvc Some found off Done r run
                  have "b' = commit b2 sw2" "sw' = sw"
                    by (simp_all add: Let_def b1_def)
                  with R_trans[OF R_trans[OF b1 12] com] show ?thesis by simp
                next
                  case Panic
                  with tcp both nosvc Some found off run show ?thesis
                    by (simp add: Let_def b1_def)
                next
                  case OutOfFuel
                  with tcp both nosvc Some found off run show ?thesis
                    by (simp add: Let_def b1_def)
                qed
              qed
            qed
          qed
        qed
      qed
    qed
  qed
qed

lemma rootTLS_Inr:
  assumes "rootTLS deps b ir vh sw = Inr (b1, enforceTLS, passthrough)"
  shows "b1 = b \<or> (\<exists>v. b1 = b\<lparr>securevirtualhosts := (securevirtualhosts b)(Fqdn vh \<mapsto> v)\<rparr>)"
  using assms
  by (auto simp: rootTLS_def Let_def split: option.splits if_splits sum.splits)

lemma rootTLS_Inl:
  assumes "rootTLS deps b ir vh sw = Inl sw'"
  shows "osw_obj sw' = osw_obj sw \<and> (\<exists>msg. osw_status sw' = Some (Invalid msg))"
  using assms
  by (auto simp: rootTLS_def Let_def SetInvalid_def split: option.splits if_splits sum.splits)

text \<open>
  What the computation of one resource changes: for a root, only under its own FQDN.
\<close>

lemma computeIngressRoute_preserves:
  assumes R_refl: "\<And>b. R b b"
    and R_trans: "\<And>a b c. R a b \<Longrightarrow> R b c \<Longrightarrow> R a c"
    and add: "\<And>b tls r vh. ir_VirtualHost ir = Some vh \<Longrightarrow> R b (addRoutes b (Fqdn vh) tls r)"
    and sec: "\<And>b v vh. ir_VirtualHost ir = Some vh \<Longrightarrow>
                R b (b\<lparr>securevirtualhosts := (securevirtualhosts b)(Fqdn vh \<mapsto> v)\<rparr>)"
    and orph: "\<And>b X. R b (b\<lparr>orphaned := X\<rparr>)"
    and com: "\<And>b sw. R b (commit b sw)"
    and run: "computeIngressRoute deps src b ir = Done b'"
  shows "\<exists>b3 sw3. R b b3 \<and> b' = commit b3 sw3 \<and> osw_obj sw3 = fullname ir"
proof (cases "ir_VirtualHost ir")
  case None
  with run have "b' = commit (setOrphaned b ir) (WithObject ir)"
    by (simp add: computeIngressRoute_def)
  moreover have "R b (setOrphaned b ir)" unfolding setOrphaned_def by (rule orph)
  ultimately show ?thesis
    by (intro exI[of _ "setOrphaned b ir"] exI[of _ "WithObject ir"])
       (simp add: WithObject_def)
next
  case (Some vh)
  let ?sw = "WithValue_vhost (Fqdn vh) (WithObject ir)"
  have obj: "osw_obj ?sw = fullname ir" by (simp add: WithValue_vhost_def WithObject_def)
  show ?thesis
  proof (cases "\<not> rootAllowed deps (ir_Namespace ir) \<or> isBlank deps (Fqdn vh)")
    case True
    have "\<exists>msg. b' = commit b (SetInvalid msg (WithObject ir))"
    proof (cases "rootAllowed deps (ir_Namespace ir)")
      case False
      with Some run have "b' = commit b (SetInvalid
          ''root IngressRoute cannot be defined in this namespace'' (WithObject ir))"
        by (simp add: computeIngressRoute_def Let_def)
      then show ?thesis by blast
    next
      case allowed: True
      with True have "isBlank deps (Fqdn vh)" by simp
      with allowed Some run have "b' = commit b (SetInvalid
          ''Spec.VirtualHost.Fqdn must be specified'' (WithObject ir))"
        by (simp add: computeIngressRoute_def Let_def)
      then show ?thesis by blast
    qed
    then obtain msg where "b' = commit b (SetInvalid msg (WithObject ir))" by blast
    then show ?thesis using R_refl
      by (intro exI[of _ b] exI[of _ "SetInvalid msg (WithObject ir)"])
         (simp add: SetInvalid_def WithObject_def)
  next
    case ok: False
    show ?thesis
    proof (cases "rootTLS deps b ir vh ?sw")
      case (Inl sw')
      with Some ok run have "b' = commit b sw'"
        by (simp add: computeIngressRoute_def Let_def)
      with rootTLS_Inl[OF Inl] obj show ?thesis using R_refl
        by (intro exI[of _ b] exI[of _ sw']) simp
    next
      case (Inr x)
      obtain b1 enforceTLS passthrough where x: "x = (b1, enforceTLS, passthrough)"
        by (cases x) auto
      from rootTLS_Inr[OF Inr[unfolded x]] have b1: "R b b1"
        using R_refl sec[OF Some] by auto
      let ?t = "if ir_TCPProxy ir \<noteq> None \<and> (passthrough \<or> enforceTLS)
                then processIngressRouteTCPProxy deps src (Suc (length src)) b1 ?sw ir []
                       (Fqdn vh)
                else Done (b1, ?sw)"
      show ?thesis
      proof (cases ?t)
        case (Done r)
        obtain b2 sw2 where r: "r = (b2, sw2)" by (cases r) auto
        have "\<forall>b' sw'. processIngressRouteTCPProxy deps src (Suc (length src)) b1 ?sw ir []
            (Fqdn vh) = Done (b', sw') \<longrightarrow>
            (Fqdn vh = Fqdn vh \<longrightarrow> R b1 b') \<and> osw_obj sw' = osw_obj ?sw \<and>
            osw_vhost sw' = osw_vhost ?sw"
        proof (rule tcp_walk_preserves[where R = "\<lambda>h a c. h = Fqdn vh \<longrightarrow> R a c"])
          show "\<And>h b. h = Fqdn vh \<longrightarrow> R b b" using R_refl by simp
          show "\<And>h a b c. h = Fqdn vh \<longrightarrow> R a b \<Longrightarrow> h = Fqdn vh \<longrightarrow> R b c \<Longrightarrow>
              h = Fqdn vh \<longrightarrow> R a c" using R_trans by blast
          show "\<And>h b v. h = Fqdn vh \<longrightarrow>
              R b (b\<lparr>securevirtualhosts := (securevirtualhosts b)(h \<mapsto> v)\<rparr>)"
            using sec[OF Some] by simp
          show "\<And>h b X. h = Fqdn vh \<longrightarrow> R b (b\<lparr>orphaned := X\<rparr>)" using orph by simp
          show "\<And>h b sw. h = Fqdn vh \<longrightarrow> R b (commit b sw)" using com by simp
        qed
        with Done r have 12: "R b1 b2" "osw_obj sw2 = fullname ir"
          using R_refl obj by (auto split: if_splits)
        show ?thesis
        proof (cases "processIngressRoutes deps src (Suc (length src)) b2 sw2 ir [] []
            (Fqdn vh) (ir_TCPProxy ir = None \<and> enforceTLS)")
          case walk: (Done r3)
          obtain b3 sw3 where r3: "r3 = (b3, sw3)" by (cases r3) auto
          have "\<forall>b' sw'. processIngressRoutes deps src (Suc (length src)) b2 sw2 ir [] []
              (Fqdn vh) (ir_TCPProxy ir = None \<and> enforceTLS) = Done (b', sw') \<longrightarrow>
              (Fqdn vh = Fqdn vh \<longrightarrow> R b2 b') \<and> (\<exists>st. sw' = sw2\<lparr>osw_status := Some st\<rparr>)"
          proof (rule walk_preserves(1)[where R = "\<lambda>h a c. h = Fqdn vh \<longrightarrow> R a c"])
            show "\<And>h b. h = Fqdn vh \<longrightarrow> R b b" using R_refl by simp
            show "\<And>h a b c. h = Fqdn vh \<longrightarrow> R a b \<Longrightarrow> h = Fqdn vh \<longrightarrow> R b c \<Longrightarrow>
                h = Fqdn vh \<longrightarrow> R a c" using R_trans by blast
            show "\<And>h b tls r. h = Fqdn vh \<longrightarrow> R b (addRoutes b h tls r)"
              using add[OF Some] by simp
            show "\<And>h b X. h = Fqdn vh \<longrightarrow> R b (b\<lparr>orphaned := X\<rparr>)" using orph by simp
            show "\<And>h b sw. h = Fqdn vh \<longrightarrow> R b (commit b sw)" using com by simp
          qed
          with walk r3 have 23: "R b2 b3" "osw_obj sw3 = osw_obj sw2" by auto
          from Some ok Inr x Done r walk r3 run have "b' = commit b3 sw3"
            by (simp add: computeIngressRoute_def Let_def)
          with R_trans[OF R_trans[OF b1 12(1)] 23(1)] 23(2) 12(2) show ?thesis
            by (intro exI[of _ b3] exI[of _ sw3]) simp
        next
          case Panic
          with Some ok Inr x Done r run show ?thesis
            by (simp add: computeIngressRoute_def Let_def)
        next
          case OutOfFuel
          with Some ok Inr x Done r run show ?thesis
            by (simp add: computeIngressRoute_def Let_def)
        qed
      next
        case Panic
        with Some ok Inr x run show ?thesis
          by (simp add: computeIngressRoute_def Let_def)
      next
        case OutOfFuel
        with Some ok Inr x run show ?thesis
          by (simp add: computeIngressRoute_def Let_def)
      qed
    qed
  qed
qed

lemma computeIngressRoute_other_host:
  assumes other: "\<And>vh. ir_VirtualHost ir = Some vh \<Longrightarrow> Fqdn vh \<noteq> f"
    and run: "computeIngressRoute deps src b ir = Done b'"
  shows "virtualhosts b' f = virtualhosts b f \<and> securevirtualhosts b' f = securevirtualhosts b f"
proof -
  have "\<exists>b3 sw3. (virtualhosts b3 f = virtualhosts b f \<and>
                   securevirtualhosts b3 f = securevirtualhosts b f)
          \<and> b' = commit b3 sw3 \<and> osw_obj sw3 = fullname ir"
  proof (rule computeIngressRoute_preserves[where
        R = "\<lambda>a c. virtualhosts c f = virtualhosts a f \<and>
                    securevirtualhosts c f = securevirtualhosts a f", OF _ _ _ _ _ _ run])
    show "\<And>b tls r vh. ir_VirtualHost ir = Some vh \<Longrightarrow>
        virtualhosts (addRoutes b (Fqdn vh) tls r) f = virtualhosts b f \<and>
        securevirtualhosts (addRoutes b (Fqdn vh) tls r) f = securevirtualhosts b f"
      using other by (simp add: addRoutes_def Let_def)
    show "\<And>b v vh. ir_VirtualHost ir = Some vh \<Longrightarrow>
        virtualhosts (b\<lparr>securevirtualhosts := (securevirtualhosts b)(Fqdn vh \<mapsto> v)\<rparr>) f =
          virtualhosts b f \<and>
        securevirtualhosts (b\<lparr>securevirtualhosts := (securevirtualhosts b)(Fqdn vh \<mapsto> v)\<rparr>) f =
          securevirtualhosts b f"
      using other by simp
    show "\<And>b sw. virtualhosts (commit b sw) f = virtualhosts b f \<and>
        securevirtualhosts (commit b sw) f = securevirtualhosts b f"
      by (simp add: commit_def)
  qed simp_all
  then show ?thesis by (auto simp: commit_def)
qed

lemma computeIngressRoutes_loop_other_host:
  assumes "\<And>ir vh. ir \<in> set irs \<Longrightarrow> ir_VirtualHost ir = Some vh \<Longrightarrow> Fqdn vh \<noteq> f"
    and "computeIngressRoutes_loop deps src b irs = Done b'"
  shows "virtualhosts b' f = virtualhosts b f \<and> securevirtualhosts b' f = securevirtualhosts b f"
  using assms
proof (induction irs arbitrary: b)
  case Nil
  then show ?case by simp
next
  case (Cons ir irs)
  from Cons.prems(2) obtain b1 where 1: "computeIngressRoute deps src b ir = Done b1"
    and 2: "computeIngressRoutes_loop deps src b1 irs = Done b'"
    by (auto split: outcome.splits)
  have o1: "Fqdn vh \<noteq> f" if "ir_VirtualHost ir = Some vh" for vh
    using Cons.prems(1)[of ir vh] that by simp
  have o2: "Fqdn vh \<noteq> f" if "x \<in> set irs" "ir_VirtualHost x = Some vh" for x vh
    using Cons.prems(1)[of x vh] that by simp
  have "virtualhosts b1 f = virtualhosts b f \<and> securevirtualhosts b1 f = securevirtualhosts b f"
    by (rule computeIngressRoute_other_host[OF o1 1])
  moreover have "virtualhosts b' f = virtualhosts b1 f \<and>
      securevirtualhosts b' f = securevirtualhosts b1 f"
    by (rule Cons.IH[OF o2 2])
  ultimately show ?case by simp
qed

lemma computeIngressRoute_root:
  assumes "ir_VirtualHost ir = Some vh" "rootAllowed deps (ir_Namespace ir)"
    "\<not> isBlank deps (Fqdn vh)"
  shows "computeIngressRoute deps src b ir =
     (case rootTLS deps b ir vh (WithValue_vhost (Fqdn vh) (WithObject ir)) of
        Inl w \<Rightarrow> Done (commit b w)
      | Inr (b1, e, p) \<Rightarrow>
          (case (if ir_TCPProxy ir \<noteq> None \<and> (p \<or> e)
                 then processIngressRouteTCPProxy deps src (Suc (length src)) b1
                        (WithValue_vhost (Fqdn vh) (WithObject ir)) ir [] (Fqdn vh)
                 else Done (b1, WithValue_vhost (Fqdn vh) (WithObject ir))) of
             Done (b2, sw2) \<Rightarrow>
               (case processIngressRoutes deps src (Suc (length src)) b2 sw2 ir [] []
                       (Fqdn vh) (ir_TCPProxy ir = None \<and> e) of
                  Done (b3, sw3) \<Rightarrow> Done (commit b3 sw3)
                | Panic \<Rightarrow> Panic
                | OutOfFuel \<Rightarrow> OutOfFuel)
           | Panic \<Rightarrow> Panic
           | OutOfFuel \<Rightarrow> OutOfFuel))"
  using assms by (simp add: computeIngressRoute_def Let_def)

subsection \<open>Delegation edges and cycles\<close>

lemma cycle_edge:
  assumes "Services route = []" "r_Delegate route = Some d"
    and "lookup_ingressroute src (delegate_namespace ir d, d_Name d) = Some dest"
    and "on_path visited dest"
  shows "processIngressRoutes_loop deps src fuel b sw ir prefixMatch visited host enforceTLS
           (route # routes) =
         Done (b\<lparr>orphaned := orphaned b - {fullname dest}\<rparr>,
               SetInvalid (''route creates a delegation cycle: '' @ cycle_path visited dest) sw)"
  using assms by (simp add: Let_def)

lemma delegation_edge:
  assumes "Services route = []" "r_Delegate route = Some d"
    and "lookup_ingressroute src (delegate_namespace ir d, d_Name d) = Some dest"
    and "\<not> on_path visited dest"
  shows "processIngressRoutes_loop deps src fuel b sw ir prefixMatch visited host enforceTLS
           (route # routes) =
         (case processIngressRoutes deps src fuel (b\<lparr>orphaned := orphaned b - {fullname dest}\<rparr>)
                 (WithObject dest) dest (Match route) visited host enforceTLS of
            Done (b2, sw2) \<Rightarrow>
              processIngressRoutes_loop deps src fuel (commit b2 sw2) sw ir prefixMatch visited
                host enforceTLS routes
          | Panic \<Rightarrow> Panic
          | OutOfFuel \<Rightarrow> OutOfFuel)"
  using assms by (simp add: Let_def)

lemma tcp_cycle_edge:
  assumes "ir_TCPProxy ir = Some tcpproxy" "tcp_Services tcpproxy = []"
    and "tcp_Delegate tcpproxy = Some d"
    and "lookup_ingressroute src (delegate_namespace ir d, d_Name d) = Some dest"
    and "on_path (visited @ [ir]) dest"
  shows "processIngressRouteTCPProxy deps src (Suc fuel) b sw ir visited host =
         Done (b\<lparr>orphaned := orphaned b - {fullname dest}\<rparr>,
               SetInvalid (''tcpproxy creates a delegation cycle: '' @
                 cycle_path (visited @ [ir]) dest) sw)"
  using assms by (simp add: Let_def)

text \<open>
  C1, amended. When the walk over a resource's route entries meets a delegation edge
  whose target is on the visited path, the target leaves the orphaned set, the
  resource that owns the edge is marked Invalid with the whole path, and the walk over
  that resource's entries ends there: the result does not depend on the entries that
  follow. When the target is not on the path, the walk goes into the target and then, if
  that walk returned (whatever status it gave the target), goes on with the resource's
  remaining entries.
\<close>

theorem cycle_edge_ends_resource:
  assumes "Services route = []" "r_Delegate route = Some d"
    and "lookup_ingressroute src (delegate_namespace ir d, d_Name d) = Some dest"
  shows "(on_path visited dest \<longrightarrow>
           processIngressRoutes_loop deps src fuel b sw ir prefixMatch visited host enforceTLS
             (route # routes) =
           Done (b\<lparr>orphaned := orphaned b - {fullname dest}\<rparr>,
                 SetInvalid (''route creates a delegation cycle: '' @ cycle_path visited dest) sw))
       \<and> (\<not> on_path visited dest \<longrightarrow>
           processIngressRoutes_loop deps src fuel b sw ir prefixMatch visited host enforceTLS
             (route # routes) =
           (case processIngressRoutes deps src fuel
                   (b\<lparr>orphaned := orphaned b - {fullname dest}\<rparr>)
                   (WithObject dest) dest (Match route) visited host enforceTLS of
              Done (b2, sw2) \<Rightarrow>
                processIngressRoutes_loop deps src fuel (commit b2 sw2) sw ir prefixMatch
                  visited host enforceTLS routes
            | Panic \<Rightarrow> Panic
            | OutOfFuel \<Rightarrow> OutOfFuel))"
  using cycle_edge[OF assms] delegation_edge[OF assms] by blast

lemma ex_self_cycle_facts:
  "Services (ex_route ''/'' [] (Some (ex_delegate ''a''))) = []"
  "r_Delegate (ex_route ''/'' [] (Some (ex_delegate ''a''))) = Some (ex_delegate ''a'')"
  "lookup_ingressroute [ex_self_cycle]
     (delegate_namespace ex_self_cycle (ex_delegate ''a''), d_Name (ex_delegate ''a'')) =
   Some ex_self_cycle"
  "on_path [ex_self_cycle] ex_self_cycle"
  "cycle_path [ex_self_cycle] ex_self_cycle = ''default/a -> default/a''"
  by (simp_all add: ex_route_def ex_delegate_def lookup_ingressroute_def delegate_namespace_def
      ex_self_cycle_def ex_root_def fullname_def on_path_def cycle_path_def resource_path_def)

theorem cycle_edge_ends_resource_witness:
  "on_path [ex_self_cycle] ex_self_cycle
   \<and> processIngressRoutes_loop ex_deps [ex_self_cycle] 1 ex_builder (WithObject ex_self_cycle)
        ex_self_cycle [] [ex_self_cycle] ''a.example.com'' False
        [ex_route ''/'' [] (Some (ex_delegate ''a'')), ex_route ''/x'' [ex_kuard] None] =
      Done (ex_builder\<lparr>orphaned := orphaned ex_builder - {fullname ex_self_cycle}\<rparr>,
            SetInvalid ''route creates a delegation cycle: default/a -> default/a''
              (WithObject ex_self_cycle))"
  using cycle_edge_ends_resource[OF ex_self_cycle_facts(1,2,3), of "[ex_self_cycle]" ex_deps 1
      ex_builder "WithObject ex_self_cycle" "[]" "''a.example.com''" False
      "[ex_route ''/x'' [ex_kuard] None]"]
    ex_self_cycle_facts(4,5)
  by simp

text \<open>
  C1, as stated, fails: a root whose first route entry delegates to the root itself and
  whose second entry points to a service is marked Invalid for the cycle, and the
  second entry is not processed: the host gets no route. Without the first entry the
  root is valid and the host has the route \<open>/x\<close>.
\<close>

theorem cycle_edge_siblings_counterexample:
  "status_of (computeIngressRoutes ex_deps [ex_self_cycle] ex_builder) =
     [((''default'', ''a''),
       Some (Invalid ''route creates a delegation cycle: default/a -> default/a''))]
   \<and> routes_of (computeIngressRoutes ex_deps [ex_self_cycle] ex_builder) ''a.example.com'' = []
   \<and> status_of (computeIngressRoutes ex_deps [ex_no_cycle] ex_builder) =
     [((''default'', ''a''), Some Valid)]
   \<and> routes_of (computeIngressRoutes ex_deps [ex_no_cycle] ex_builder) ''a.example.com'' =
     [''/x'']"
  by code_simp

subsection \<open>Every resource of the pass is computed\<close>

lemma computeIngressRoute_status:
  assumes run: "computeIngressRoute deps src b ir = Done b'"
  shows "(\<exists>ys. statuses b' = statuses b @ ys)
       \<and> (\<exists>sw \<in> set (statuses b'). osw_obj sw = fullname ir)"
proof -
  have "\<exists>b3 sw3. (\<exists>ys. statuses b3 = statuses b @ ys) \<and> b' = commit b3 sw3 \<and>
      osw_obj sw3 = fullname ir"
  proof (rule computeIngressRoute_preserves[where R = "\<lambda>a c. \<exists>ys. statuses c = statuses a @ ys",
        OF _ _ _ _ _ _ run])
    show "\<And>b. \<exists>ys. statuses b = statuses b @ ys" by simp
    show "\<And>a b c. \<exists>ys. statuses b = statuses a @ ys \<Longrightarrow> \<exists>ys. statuses c = statuses b @ ys
        \<Longrightarrow> \<exists>ys. statuses c = statuses a @ ys" by auto
    show "\<And>b tls r vh. \<exists>ys. statuses (addRoutes b (Fqdn vh) tls r) = statuses b @ ys"
      by (simp add: addRoutes_def Let_def)
    show "\<And>b v vh. \<exists>ys. statuses
        (b\<lparr>securevirtualhosts := (securevirtualhosts b)(Fqdn vh \<mapsto> v)\<rparr>) = statuses b @ ys"
      by simp
    show "\<And>b X. \<exists>ys. statuses (b\<lparr>orphaned := X\<rparr>) = statuses b @ ys" by simp
    show "\<And>b sw. \<exists>ys. statuses (commit b sw) = statuses b @ ys" by (simp add: commit_def)
  qed
  then obtain b3 sw3 ys where h: "statuses b3 = statuses b @ ys" "b' = commit b3 sw3"
      "osw_obj sw3 = fullname ir" by blast
  then have "statuses b' = statuses b @ (ys @ [sw3])" by (simp add: commit_def)
  moreover from this have "sw3 \<in> set (statuses b')" by simp
  ultimately show ?thesis using h(3) by blast
qed

lemma computeIngressRoutes_loop_status:
  "computeIngressRoutes_loop deps src b irs = Done b' \<Longrightarrow>
   (\<exists>ys. statuses b' = statuses b @ ys)
   \<and> (\<forall>ir \<in> set irs. \<exists>sw \<in> set (statuses b'). osw_obj sw = fullname ir)"
proof (induction irs arbitrary: b)
  case Nil
  then show ?case by simp
next
  case (Cons ir irs)
  from Cons.prems obtain b1 where
    1: "computeIngressRoute deps src b ir = Done b1"
    and 2: "computeIngressRoutes_loop deps src b1 irs = Done b'"
    by (auto split: outcome.splits)
  from computeIngressRoute_status[OF 1] obtain ys sw where
    a: "statuses b1 = statuses b @ ys" "sw \<in> set (statuses b1)" "osw_obj sw = fullname ir"
    by blast
  from Cons.IH[OF 2] obtain zs where
    b: "statuses b' = statuses b1 @ zs"
       "\<forall>ir \<in> set irs. \<exists>sw \<in> set (statuses b'). osw_obj sw = fullname ir"
    by blast
  have "statuses b' = statuses b @ (ys @ zs)" using a(1) b(1) by simp
  moreover have "sw \<in> set (statuses b')" using a(2) b(1) by simp
  ultimately show ?case using a(3) b(2) by auto
qed

subsection \<open>The computation of a root and the state of the builder\<close>

lemma walk_commutes:
  assumes dpi: "\<And>h b. DisablePermitInsecure (T h b) = DisablePermitInsecure b"
    and add: "\<And>h b tls r. T h (addRoutes b h tls r) = addRoutes (T h b) h tls r"
    and com: "\<And>h b sw. T h (commit b sw) = commit (T h b) sw"
    and orph: "\<And>h b X. T h (b\<lparr>orphaned := orphaned b - X\<rparr>) =
                 (T h b)\<lparr>orphaned := orphaned (T h b) - X\<rparr>"
  shows "processIngressRoutes deps src fuel (T host b) sw ir prefixMatch visited host enforceTLS =
     map_outcome (\<lambda>r. (T host (fst r), snd r))
       (processIngressRoutes deps src fuel b sw ir prefixMatch visited host enforceTLS)"
  and
    "processIngressRoutes_loop deps src fuel0 (T host0 b0) sw0 ir0 prefixMatch0 visited0 host0
       enforceTLS0 routes =
     map_outcome (\<lambda>r. (T host0 (fst r), snd r))
       (processIngressRoutes_loop deps src fuel0 b0 sw0 ir0 prefixMatch0 visited0 host0
          enforceTLS0 routes)"
proof (induction deps src fuel b sw ir prefixMatch visited host enforceTLS
        and deps src fuel0 b0 sw0 ir0 prefixMatch0 visited0 host0 enforceTLS0 routes
        rule: processIngressRoutes_processIngressRoutes_loop.induct)
  case (1 deps src b sw ir prefixMatch visited host enforceTLS)
  then show ?case by simp
next
  case (2 deps src fuel b sw ir prefixMatch visited host enforceTLS)
  then show ?case by simp
next
  case (3 deps src fuel b sw ir prefixMatch visited host enforceTLS)
  then show ?case by simp
next
  case (4 deps src fuel b sw ir prefixMatch visited host enforceTLS route routes)
  have br: "buildRoute deps (T host b) ir prefixMatch enforceTLS route =
      buildRoute deps b ir prefixMatch enforceTLS route"
    by (simp add: buildRoute_def dpi)
  show ?case
  proof (cases "Services route \<noteq> [] \<and> r_Delegate route \<noteq> None")
    case True
    then show ?thesis by simp
  next
    case both: False
    show ?thesis
    proof (cases "Services route \<noteq> []")
      case True
      show ?thesis
      proof (cases "buildRoute deps b ir prefixMatch enforceTLS route")
        case (Inl msg)
        with both True br show ?thesis by simp
      next
        case (Inr r)
        with both True br "4.IH"(1)[OF both True Inr] show ?thesis
          by (simp add: add[symmetric])
      qed
    next
      case nosvc: False
      show ?thesis
      proof (cases "r_Delegate route")
        case None
        with both nosvc "4.IH"(2)[OF both nosvc None] show ?thesis by simp
      next
        case (Some d)
        show ?thesis
        proof (cases "lookup_ingressroute src (delegate_namespace ir d, d_Name d)")
          case None
          with both nosvc Some "4.IH"(3)[OF both nosvc Some None] show ?thesis by simp
        next
          case found: (Some dest)
          define b1 where "b1 = b\<lparr>orphaned := orphaned b - {fullname dest}\<rparr>"
          have T1: "(T host b)\<lparr>orphaned := orphaned (T host b) - {fullname dest}\<rparr> = T host b1"
            unfolding b1_def by (rule orph[symmetric])
          show ?thesis
          proof (cases "on_path visited dest")
            case True
            with both nosvc Some found show ?thesis
              by (simp add: Let_def T1) (simp add: b1_def)
          next
            case off: False
            have rec: "processIngressRoutes deps src fuel (T host b1) (WithObject dest) dest
                (Match route) visited host enforceTLS =
                map_outcome (\<lambda>r. (T host (fst r), snd r))
                  (processIngressRoutes deps src fuel b1 (WithObject dest) dest (Match route)
                     visited host enforceTLS)"
              using "4.IH"(4)[OF both nosvc Some found b1_def off] .
            show ?thesis
            proof (cases "processIngressRoutes deps src fuel b1 (WithObject dest) dest
                (Match route) visited host enforceTLS")
              case (Done r)
              obtain b2 sw2 where r: "r = (b2, sw2)" by (cases r) auto
              from "4.IH"(5)[OF both nosvc Some found b1_def off Done[unfolded r] refl]
              have "processIngressRoutes_loop deps src fuel (T host (commit b2 sw2)) sw ir
                  prefixMatch visited host enforceTLS routes =
                  map_outcome (\<lambda>r. (T host (fst r), snd r))
                    (processIngressRoutes_loop deps src fuel (commit b2 sw2) sw ir prefixMatch
                       visited host enforceTLS routes)" .
              with both nosvc Some found off Done r rec show ?thesis
                by (simp add: Let_def T1 com) (simp add: b1_def)
            next
              case Panic
              with both nosvc Some found off rec show ?thesis
                by (simp add: Let_def T1) (simp add: b1_def)
            next
              case OutOfFuel
              with both nosvc Some found off rec show ?thesis
                by (simp add: Let_def T1) (simp add: b1_def)
            qed
          qed
        qed
      qed
    qed
  qed
qed

lemma tcp_walk_commutes:
  assumes lk: "\<And>h b. securevirtualhosts (T h b) h = securevirtualhosts b h"
    and sec: "\<And>h b v. T h (b\<lparr>securevirtualhosts := (securevirtualhosts b)(h \<mapsto> v)\<rparr>) =
                 (T h b)\<lparr>securevirtualhosts := (securevirtualhosts (T h b))(h \<mapsto> v)\<rparr>"
    and com: "\<And>h b sw. T h (commit b sw) = commit (T h b) sw"
    and orph: "\<And>h b X. T h (b\<lparr>orphaned := orphaned b - X\<rparr>) =
                 (T h b)\<lparr>orphaned := orphaned (T h b) - X\<rparr>"
  shows "processIngressRouteTCPProxy deps src fuel (T host b) sw ir visited host =
     map_outcome (\<lambda>r. (T host (fst r), snd r))
       (processIngressRouteTCPProxy deps src fuel b sw ir visited host)"
proof (induction deps src fuel b sw ir visited host rule: processIngressRouteTCPProxy.induct)
  case (1 deps src b sw ir visited host)
  then show ?case by simp
next
  case (2 deps src fuel b sw ir visited host)
  have ls: "lookupSecureVirtualHost (T host b) host = lookupSecureVirtualHost b host"
    by (simp add: lookupSecureVirtualHost_def lk)
  show ?case
  proof (cases "ir_TCPProxy ir")
    case None
    then show ?thesis by simp
  next
    case tcp: (Some tcpproxy)
    show ?thesis
    proof (cases "tcp_Services tcpproxy \<noteq> [] \<and> tcp_Delegate tcpproxy \<noteq> None")
      case True
      with tcp show ?thesis by simp
    next
      case both: False
      show ?thesis
      proof (cases "tcp_Services tcpproxy \<noteq> []")
        case True
        show ?thesis
        proof (cases "tcpproxyClusters deps ir (tcp_Services tcpproxy) []")
          case (Inl msg)
          with tcp both True show ?thesis by simp
        next
          case (Inr cs)
          with tcp both True show ?thesis by (simp add: ls sec[symmetric])
        qed
      next
        case nosvc: False
        show ?thesis
        proof (cases "tcp_Delegate tcpproxy")
          case None
          with tcp both nosvc show ?thesis by simp
        next
          case (Some d)
          show ?thesis
          proof (cases "lookup_ingressroute src (delegate_namespace ir d, d_Name d)")
            case None
            with tcp both nosvc Some show ?thesis by simp
          next
            case found: (Some dest)
            define b1 where "b1 = b\<lparr>orphaned := orphaned b - {fullname dest}\<rparr>"
            have T1: "(T host b)\<lparr>orphaned := orphaned (T host b) - {fullname dest}\<rparr> =
                T host b1"
              unfolding b1_def by (rule orph[symmetric])
            show ?thesis
            proof (cases "on_path (visited @ [ir]) dest")
              case True
              with tcp both nosvc Some found show ?thesis
                by (simp add: Let_def T1) (simp add: b1_def)
            next
              case off: False
              have rec: "processIngressRouteTCPProxy deps src fuel (T host b1)
                  (osw_WithObject sw dest) dest (visited @ [ir]) host =
                  map_outcome (\<lambda>r. (T host (fst r), snd r))
                    (processIngressRouteTCPProxy deps src fuel b1 (osw_WithObject sw dest) dest
                       (visited @ [ir]) host)"
                using "2.IH"[OF tcp both nosvc Some found b1_def off] .
              show ?thesis
              proof (cases "processIngressRouteTCPProxy deps src fuel b1
                  (osw_WithObject sw dest) dest (visited @ [ir]) host")
                case (Done r)
                obtain b2 sw2 where r: "r = (b2, sw2)" by (cases r) auto
                with tcp both nosvc Some found off Done rec show ?thesis
                  by (simp add: Let_def T1) (simp add: b1_def com)
              next
                case Panic
                with tcp both nosvc Some found off rec show ?thesis
                  by (simp add: Let_def T1) (simp add: b1_def)
              next
                case OutOfFuel
                with tcp both nosvc Some found off rec show ?thesis
                  by (simp add: Let_def T1) (simp add: b1_def)
              qed
            qed
          qed
        qed
      qed
    qed
  qed
qed

lemma rootTLS_commutes:
  assumes lk: "\<And>h b. securevirtualhosts (T h b) h = securevirtualhosts b h"
    and sec: "\<And>h b v. T h (b\<lparr>securevirtualhosts := (securevirtualhosts b)(h \<mapsto> v)\<rparr>) =
                 (T h b)\<lparr>securevirtualhosts := (securevirtualhosts (T h b))(h \<mapsto> v)\<rparr>"
  shows "rootTLS deps (T (Fqdn vh) b) ir vh sw =
     (case rootTLS deps b ir vh sw of
        Inl w \<Rightarrow> Inl w
      | Inr (b1, e, p) \<Rightarrow> Inr (T (Fqdn vh) b1, e, p))"
proof -
  have ls: "lookupSecureVirtualHost (T (Fqdn vh) b) (Fqdn vh) =
      lookupSecureVirtualHost b (Fqdn vh)"
    by (simp add: lookupSecureVirtualHost_def lk)
  show ?thesis
    by (simp add: rootTLS_def Let_def ls sec[symmetric] split: option.splits sum.splits)
qed

lemma computeIngressRoute_commutes:
  assumes dpi: "\<And>h b. DisablePermitInsecure (T h b) = DisablePermitInsecure b"
    and add: "\<And>h b tls r. T h (addRoutes b h tls r) = addRoutes (T h b) h tls r"
    and lk: "\<And>h b. securevirtualhosts (T h b) h = securevirtualhosts b h"
    and sec: "\<And>h b v. T h (b\<lparr>securevirtualhosts := (securevirtualhosts b)(h \<mapsto> v)\<rparr>) =
                 (T h b)\<lparr>securevirtualhosts := (securevirtualhosts (T h b))(h \<mapsto> v)\<rparr>"
    and com: "\<And>h b sw. T h (commit b sw) = commit (T h b) sw"
    and orph: "\<And>h b X. T h (b\<lparr>orphaned := orphaned b - X\<rparr>) =
                 (T h b)\<lparr>orphaned := orphaned (T h b) - X\<rparr>"
    and root: "ir_VirtualHost ir = Some vh"
  shows "computeIngressRoute deps src (T (Fqdn vh) b) ir =
     map_outcome (T (Fqdn vh)) (computeIngressRoute deps src b ir)"
proof (cases "rootAllowed deps (ir_Namespace ir) \<and> \<not> isBlank deps (Fqdn vh)")
  case False
  with root show ?thesis
    by (auto simp: computeIngressRoute_def Let_def com)
next
  case True
  then have allowed: "rootAllowed deps (ir_Namespace ir)" and fq: "\<not> isBlank deps (Fqdn vh)"
    by simp_all
  define h where "h = Fqdn vh"
  define sw where "sw = WithValue_vhost h (WithObject ir)"
  define n where "n = Suc (length src)"
  note walk = walk_commutes(1)[of T, OF dpi add com orph]
  note tcpw = tcp_walk_commutes[of T, OF lk sec com orph]
  note tls = rootTLS_commutes[of T, OF lk sec]
  show ?thesis
  proof (cases "rootTLS deps b ir vh sw")
    case (Inl w)
    then have "rootTLS deps (T h b) ir vh sw = Inl w"
      unfolding h_def by (simp add: tls)
    with Inl show ?thesis
      unfolding computeIngressRoute_root[OF root allowed fq] h_def[symmetric] sw_def[symmetric]
      by (simp add: com)
  next
    case (Inr t)
    obtain b1 e p where t: "t = (b1, e, p)" by (cases t) auto
    with Inr have tl: "rootTLS deps (T h b) ir vh sw = Inr (T h b1, e, p)"
      unfolding h_def by (simp add: tls)
    define X where "X = (if ir_TCPProxy ir \<noteq> None \<and> (p \<or> e)
                 then processIngressRouteTCPProxy deps src n b1 sw ir [] h
                 else Done (b1, sw))"
    have XT: "(if ir_TCPProxy ir \<noteq> None \<and> (p \<or> e)
                 then processIngressRouteTCPProxy deps src n (T h b1) sw ir [] h
                 else Done (T h b1, sw)) = map_outcome (\<lambda>r. (T h (fst r), snd r)) X"
      unfolding X_def by (simp add: tcpw)
    have R: "computeIngressRoute deps src b ir =
        (case X of
           Done (b2, sw2) \<Rightarrow>
             (case processIngressRoutes deps src n b2 sw2 ir [] [] h
                     (ir_TCPProxy ir = None \<and> e) of
                Done (b3, sw3) \<Rightarrow> Done (commit b3 sw3)
              | Panic \<Rightarrow> Panic
              | OutOfFuel \<Rightarrow> OutOfFuel)
         | Panic \<Rightarrow> Panic
         | OutOfFuel \<Rightarrow> OutOfFuel)"
      unfolding X_def computeIngressRoute_root[OF root allowed fq] h_def[symmetric]
        sw_def[symmetric] n_def[symmetric]
      by (simp only: Inr t sum.case prod.case)
    have L: "computeIngressRoute deps src (T h b) ir =
        (case map_outcome (\<lambda>r. (T h (fst r), snd r)) X of
           Done (b2, sw2) \<Rightarrow>
             (case processIngressRoutes deps src n b2 sw2 ir [] [] h
                     (ir_TCPProxy ir = None \<and> e) of
                Done (b3, sw3) \<Rightarrow> Done (commit b3 sw3)
              | Panic \<Rightarrow> Panic
              | OutOfFuel \<Rightarrow> OutOfFuel)
         | Panic \<Rightarrow> Panic
         | OutOfFuel \<Rightarrow> OutOfFuel)"
      unfolding XT[symmetric] computeIngressRoute_root[OF root allowed fq] h_def[symmetric]
        sw_def[symmetric] n_def[symmetric]
      by (simp only: tl sum.case prod.case)
    have "computeIngressRoute deps src (T h b) ir =
        map_outcome (T h) (computeIngressRoute deps src b ir)"
    proof (cases X)
      case (Done r)
      obtain b2 sw2 where r: "r = (b2, sw2)" by (cases r) auto
      show ?thesis
      proof (cases "processIngressRoutes deps src n b2 sw2 ir [] [] h
                     (ir_TCPProxy ir = None \<and> e)")
        case (Done r3)
        obtain b3 sw3 where r3: "r3 = (b3, sw3)" by (cases r3) auto
        with Done \<open>X = Done r\<close> r show ?thesis
          unfolding L R by (simp add: walk com)
      next
        case Panic
        with \<open>X = Done r\<close> r show ?thesis unfolding L R by (simp add: walk)
      next
        case OutOfFuel
        with \<open>X = Done r\<close> r show ?thesis unfolding L R by (simp add: walk)
      qed
    next
      case Panic
      then show ?thesis unfolding L R by simp
    next
      case OutOfFuel
      then show ?thesis unfolding L R by simp
    qed
    then show ?thesis unfolding h_def .
  qed
qed

lemma root_builds_from:
  assumes root: "ir_VirtualHost ir = Some vh"
  shows "map_outcome (built (length (statuses x)) (Fqdn vh))
           (computeIngressRoute deps src x ir) =
         map_outcome (built 0 (Fqdn vh))
           (computeIngressRoute deps src
              \<lparr>DisablePermitInsecure = DisablePermitInsecure x, orphaned = {}, statuses = [],
               virtualhosts = (\<lambda>k. if k = Fqdn vh then virtualhosts x k else None),
               securevirtualhosts =
                 (\<lambda>k. if k = Fqdn vh then securevirtualhosts x k else None)\<rparr> ir)"
proof -
  define h where "h = Fqdn vh"
  define z where "z = \<lparr>DisablePermitInsecure = DisablePermitInsecure x, orphaned = {},
      statuses = [], virtualhosts = (\<lambda>k. if k = h then virtualhosts x k else None),
      securevirtualhosts = (\<lambda>k. if k = h then securevirtualhosts x k else None)\<rparr>"
  define P where "P = (\<lambda>(h :: string) (y :: Builder). y\<lparr>statuses := statuses x @ statuses y,
      virtualhosts := (\<lambda>k. if k = h then virtualhosts y k else virtualhosts x k),
      securevirtualhosts :=
        (\<lambda>k. if k = h then securevirtualhosts y k else securevirtualhosts x k)\<rparr>)"
  have O: "computeIngressRoute deps src (x\<lparr>orphaned := {}\<rparr>) ir =
      map_outcome (\<lambda>y. y\<lparr>orphaned := {}\<rparr>) (computeIngressRoute deps src x ir)"
    by (rule computeIngressRoute_commutes[where T = "\<lambda>h y. y\<lparr>orphaned := {}\<rparr>",
          OF _ _ _ _ _ _ root])
       (simp_all add: addRoutes_def Let_def lookupVirtualHost_def lookupSecureVirtualHost_def
          commit_def)
  have Pz: "computeIngressRoute deps src (P h z) ir =
      map_outcome (P h) (computeIngressRoute deps src z ir)"
    unfolding h_def
    by (rule computeIngressRoute_commutes[where T = P, OF _ _ _ _ _ _ root])
       (simp_all add: P_def addRoutes_def Let_def lookupVirtualHost_def
          lookupSecureVirtualHost_def commit_def fun_eq_iff)
  have xz: "x\<lparr>orphaned := {}\<rparr> = P h z"
    by (simp add: P_def z_def fun_eq_iff)
  have b1: "built n h (y\<lparr>orphaned := {}\<rparr>) = built n h y" for n y
    by (simp add: built_def)
  have b2: "built (length (statuses x)) h (P h y) = built 0 h y" for y
    by (simp add: built_def P_def)
  have "map_outcome (built (length (statuses x)) h) (computeIngressRoute deps src x ir) =
      map_outcome (built (length (statuses x)) h)
        (computeIngressRoute deps src (x\<lparr>orphaned := {}\<rparr>) ir)"
    by (simp add: O outcome.map_comp comp_def b1)
  also have "\<dots> = map_outcome (built 0 h) (computeIngressRoute deps src z ir)"
    by (simp add: xz Pz outcome.map_comp comp_def b2)
  finally show ?thesis unfolding h_def z_def .
qed

lemma root_builds_alike:
  assumes root: "ir_VirtualHost ir = Some vh"
    and same: "DisablePermitInsecure c = DisablePermitInsecure b"
      "virtualhosts c (Fqdn vh) = virtualhosts b (Fqdn vh)"
      "securevirtualhosts c (Fqdn vh) = securevirtualhosts b (Fqdn vh)"
  shows "map_outcome (built (length (statuses c)) (Fqdn vh))
           (computeIngressRoute deps src c ir) =
         map_outcome (built (length (statuses b)) (Fqdn vh))
           (computeIngressRoute deps src b ir)"
proof -
  have "(\<lambda>k. if k = Fqdn vh then virtualhosts c k else None) =
      (\<lambda>k. if k = Fqdn vh then virtualhosts b k else None)"
    "(\<lambda>k. if k = Fqdn vh then securevirtualhosts c k else None) =
      (\<lambda>k. if k = Fqdn vh then securevirtualhosts b k else None)"
    using same(2,3) by (simp_all add: fun_eq_iff)
  with same(1) show ?thesis
    unfolding root_builds_from[OF root, of c] root_builds_from[OF root, of b] by simp
qed

text \<open>
  C6, as stated, fails for a resource that no cycle goes through but that is reached only
  by a route entry after a closing edge. The root \<open>a\<close> delegates to \<open>b\<close> and has a route
  \<open>/x\<close>; \<open>b\<close> delegates back to \<open>a\<close> and then to \<open>c\<close>; \<open>c\<close> has a route \<open>/c\<close>. The
  walk of \<open>b\<close> ends at the closing edge: \<open>c\<close> stays orphaned and the host has the route
  \<open>/x\<close> only. Without the edge back to \<open>a\<close>, \<open>c\<close> is Valid and the host has \<open>/c\<close> and
  \<open>/x\<close>.
\<close>

theorem cycle_skips_later_edge_counterexample:
  "status_of (computeIngressRoutes ex_deps [ex_a, ex_b_back_then_c, ex_c_delegate] ex_builder) =
     [((''default'', ''b''), None),
      ((''default'', ''c''), None),
      ((''default'', ''b''),
       Some (Invalid ''route creates a delegation cycle: default/a -> default/b -> default/a'')),
      ((''default'', ''a''), Some Valid)]
   \<and> routes_of (computeIngressRoutes ex_deps [ex_a, ex_b_back_then_c, ex_c_delegate] ex_builder)
       ''a.example.com'' = [''/x'']
   \<and> orphaned_of (computeIngressRoutes ex_deps [ex_a, ex_b_back_then_c, ex_c_delegate] ex_builder)
       [(''default'', ''c'')] = [(''default'', ''c'')]
   \<and> status_of (computeIngressRoutes ex_deps [ex_a, ex_b_to_c, ex_c_delegate] ex_builder) =
     [((''default'', ''b''), None),
      ((''default'', ''c''), None),
      ((''default'', ''c''), Some Valid),
      ((''default'', ''b''), Some Valid),
      ((''default'', ''a''), Some Valid)]
   \<and> routes_of (computeIngressRoutes ex_deps [ex_a, ex_b_to_c, ex_c_delegate] ex_builder)
       ''a.example.com'' = [''/c'', ''/x'']
   \<and> orphaned_of (computeIngressRoutes ex_deps [ex_a, ex_b_to_c, ex_c_delegate] ex_builder)
       [(''default'', ''c'')] = []"
  by code_simp

text \<open>
  C6, amended. Every walk ends, whatever the delegations of the resources: started with
  no visited resource and more calls than the source has resources, the walk over route
  entries returns and the walk over TCP proxies does not run out of calls, so the
  computation of all resources, which starts each walk with one call more than the
  source has resources, never does. An edge to a resource of the visited path is
  reported on the resource that owns it, with the path of all visited resources and the
  target, in both walks, and the walk of the owner ends there: its outcome does not
  depend on the route entries after the edge. When the pass returns, every resource
  that \<open>validIngressRoutes\<close> kept has been computed and has a status record. The
  computation of a root is not touched by what other computations did: the statuses it
  adds and the hosts of its FQDN that it leaves are the same from any two builders that
  have the same \<open>DisablePermitInsecure\<close> and the same hosts of that FQDN, and the
  computation of a resource leaves the hosts of every other FQDN as they were.
\<close>

theorem walks_terminate:
  "(length src < fuel \<longrightarrow>
      (\<exists>r. processIngressRoutes deps src fuel b sw ir prefixMatch [] host enforceTLS = Done r))
   \<and> (length src < fuel \<longrightarrow>
        processIngressRouteTCPProxy deps src fuel b sw ir [] host \<noteq> OutOfFuel)
   \<and> computeIngressRoutes deps src b \<noteq> OutOfFuel
   \<and> (Services route = [] \<and> r_Delegate route = Some d \<and>
       lookup_ingressroute src (delegate_namespace ir d, d_Name d) = Some dest \<and>
       on_path visited dest \<longrightarrow>
        processIngressRoutes_loop deps src fuel b sw ir prefixMatch visited host enforceTLS
          (route # routes) =
        Done (b\<lparr>orphaned := orphaned b - {fullname dest}\<rparr>,
              SetInvalid (''route creates a delegation cycle: '' @
                Join (map resource_path visited @ [resource_path dest]) '' -> '') sw))
   \<and> (ir_TCPProxy ir = Some tcpproxy \<and> tcp_Services tcpproxy = [] \<and>
       tcp_Delegate tcpproxy = Some d \<and>
       lookup_ingressroute src (delegate_namespace ir d, d_Name d) = Some dest \<and>
       on_path (visited @ [ir]) dest \<longrightarrow>
        processIngressRouteTCPProxy deps src (Suc fuel) b sw ir visited host =
        Done (b\<lparr>orphaned := orphaned b - {fullname dest}\<rparr>,
              SetInvalid (''tcpproxy creates a delegation cycle: '' @
                Join (map resource_path (visited @ [ir]) @ [resource_path dest]) '' -> '') sw))
   \<and> (\<forall>b'. computeIngressRoutes deps src b = Done b' \<longrightarrow>
        (\<forall>r \<in> set (snd (validIngressRoutes deps b src)).
           \<exists>sw \<in> set (statuses b'). osw_obj sw = fullname r))
   \<and> (ir_VirtualHost ir = Some vh \<and>
       DisablePermitInsecure c = DisablePermitInsecure b \<and>
       virtualhosts c (Fqdn vh) = virtualhosts b (Fqdn vh) \<and>
       securevirtualhosts c (Fqdn vh) = securevirtualhosts b (Fqdn vh) \<longrightarrow>
        map_outcome (built (length (statuses c)) (Fqdn vh))
          (computeIngressRoute deps src c ir) =
        map_outcome (built (length (statuses b)) (Fqdn vh))
          (computeIngressRoute deps src b ir))
   \<and> (\<forall>b'. (\<forall>vh. ir_VirtualHost ir = Some vh \<longrightarrow> Fqdn vh \<noteq> k) \<and>
          computeIngressRoute deps src b ir = Done b' \<longrightarrow>
        virtualhosts b' k = virtualhosts b k \<and>
        securevirtualhosts b' k = securevirtualhosts b k)"
proof -
  have rem: "card (fullname ` set src - fullname ` set ([] @ [ir])) < fuel" if "length src < fuel"
    using remaining_start[of src ir] that by simp
  have 1: "length src < fuel \<longrightarrow>
      (\<exists>r. processIngressRoutes deps src fuel b sw ir prefixMatch [] host enforceTLS = Done r)"
    using walk_fuel(1)[of src "[]" ir fuel deps b sw prefixMatch host enforceTLS] rem by blast
  have 2: "length src < fuel \<longrightarrow>
        processIngressRouteTCPProxy deps src fuel b sw ir [] host \<noteq> OutOfFuel"
    using tcp_walk_fuel[of src "[]" ir fuel deps b sw host] rem by blast
  have 3: "computeIngressRoutes deps src b \<noteq> OutOfFuel"
    by (rule computeIngressRoutes_fuel)
  have 4: "Services route = [] \<and> r_Delegate route = Some d \<and>
       lookup_ingressroute src (delegate_namespace ir d, d_Name d) = Some dest \<and>
       on_path visited dest \<longrightarrow>
        processIngressRoutes_loop deps src fuel b sw ir prefixMatch visited host enforceTLS
          (route # routes) =
        Done (b\<lparr>orphaned := orphaned b - {fullname dest}\<rparr>,
              SetInvalid (''route creates a delegation cycle: '' @
                Join (map resource_path visited @ [resource_path dest]) '' -> '') sw)"
    using cycle_edge[of route d src ir dest visited deps fuel b sw prefixMatch host enforceTLS routes]
    by (simp add: cycle_path_def)
  have 5: "ir_TCPProxy ir = Some tcpproxy \<and> tcp_Services tcpproxy = [] \<and>
       tcp_Delegate tcpproxy = Some d \<and>
       lookup_ingressroute src (delegate_namespace ir d, d_Name d) = Some dest \<and>
       on_path (visited @ [ir]) dest \<longrightarrow>
        processIngressRouteTCPProxy deps src (Suc fuel) b sw ir visited host =
        Done (b\<lparr>orphaned := orphaned b - {fullname dest}\<rparr>,
              SetInvalid (''tcpproxy creates a delegation cycle: '' @
                Join (map resource_path (visited @ [ir]) @ [resource_path dest]) '' -> '') sw)"
    using tcp_cycle_edge[of ir tcpproxy d src dest visited deps fuel b sw host]
    by (simp add: cycle_path_def)
  have 6: "\<forall>b'. computeIngressRoutes deps src b = Done b' \<longrightarrow>
        (\<forall>r \<in> set (snd (validIngressRoutes deps b src)).
           \<exists>sw \<in> set (statuses b'). osw_obj sw = fullname r)"
  proof (intro allI impI)
    fix b'
    assume run: "computeIngressRoutes deps src b = Done b'"
    obtain b0 valid where v: "validIngressRoutes deps b src = (b0, valid)"
      by (cases "validIngressRoutes deps b src") auto
    with run have "computeIngressRoutes_loop deps src b0 valid = Done b'"
      by (simp add: computeIngressRoutes_def)
    from computeIngressRoutes_loop_status[OF this] v
    show "\<forall>r \<in> set (snd (validIngressRoutes deps b src)).
           \<exists>sw \<in> set (statuses b'). osw_obj sw = fullname r" by simp
  qed
  have 7: "ir_VirtualHost ir = Some vh \<and>
       DisablePermitInsecure c = DisablePermitInsecure b \<and>
       virtualhosts c (Fqdn vh) = virtualhosts b (Fqdn vh) \<and>
       securevirtualhosts c (Fqdn vh) = securevirtualhosts b (Fqdn vh) \<longrightarrow>
        map_outcome (built (length (statuses c)) (Fqdn vh))
          (computeIngressRoute deps src c ir) =
        map_outcome (built (length (statuses b)) (Fqdn vh))
          (computeIngressRoute deps src b ir)"
    using root_builds_alike[of ir vh c b deps src] by blast
  have 8: "\<forall>b'. (\<forall>vh. ir_VirtualHost ir = Some vh \<longrightarrow> Fqdn vh \<noteq> k) \<and>
          computeIngressRoute deps src b ir = Done b' \<longrightarrow>
        virtualhosts b' k = virtualhosts b k \<and>
        securevirtualhosts b' k = securevirtualhosts b k"
  proof (intro allI impI, elim conjE)
    fix b'
    assume o: "\<forall>vh. ir_VirtualHost ir = Some vh \<longrightarrow> Fqdn vh \<noteq> k"
      and run: "computeIngressRoute deps src b ir = Done b'"
    from o have "Fqdn vh \<noteq> k" if "ir_VirtualHost ir = Some vh" for vh using that by blast
    from computeIngressRoute_other_host[OF this run]
    show "virtualhosts b' k = virtualhosts b k \<and>
        securevirtualhosts b' k = securevirtualhosts b k" by simp
  qed
  from 1 2 3 4 5 6 7 8 show ?thesis by (intro conjI)
qed


lemma ex_cycle_run:
  "status_of (computeIngressRoutes ex_deps [ex_a, ex_b, ex_c] ex_builder) =
     [((''default'', ''b''), None),
      ((''default'', ''b''),
       Some (Invalid ''route creates a delegation cycle: default/a -> default/b -> default/a'')),
      ((''default'', ''a''), Some Valid),
      ((''default'', ''c''), Some Valid)]"
  "routes_of (computeIngressRoutes ex_deps [ex_a, ex_b, ex_c] ex_builder) ''c.example.com'' =
     [''/'']"
  "routes_of (computeIngressRoutes ex_deps [ex_a, ex_b, ex_c] ex_builder) ''a.example.com'' =
     [''/x'']"
  by code_simp+

lemma ex_cycle_facts:
  "Services (ex_route ''/'' [] (Some (ex_delegate ''a''))) = []"
  "r_Delegate (ex_route ''/'' [] (Some (ex_delegate ''a''))) = Some (ex_delegate ''a'')"
  "lookup_ingressroute [ex_a, ex_b, ex_c]
     (delegate_namespace ex_b (ex_delegate ''a''), d_Name (ex_delegate ''a'')) = Some ex_a"
  "on_path [ex_a, ex_b] ex_a"
  "Join (map resource_path [ex_a, ex_b] @ [resource_path ex_a]) '' -> '' =
     ''default/a -> default/b -> default/a''"
  "length [ex_a, ex_b, ex_c] < 4"
  by (simp_all add: ex_route_def ex_delegate_def lookup_ingressroute_def delegate_namespace_def
      ex_a_def ex_b_def ex_c_def ex_root_def ex_delegate_resource_def fullname_def on_path_def
      resource_path_def)

lemma ex_after_cycle_facts:
  "case computeIngressRoute ex_deps [ex_a, ex_b, ex_c] ex_builder ex_a of
     Done b' \<Rightarrow> True | Panic \<Rightarrow> False | OutOfFuel \<Rightarrow> False"
  "\<forall>vh. ir_VirtualHost ex_a = Some vh \<longrightarrow> Fqdn vh \<noteq> ''c.example.com''"
  "ir_VirtualHost ex_c = Some \<lparr>Fqdn = ''c.example.com'', vh_TLS = None\<rparr>"
  "DisablePermitInsecure ex_after_cycle = DisablePermitInsecure ex_builder"
  by (code_simp, simp add: ex_a_def ex_root_def, simp add: ex_c_def ex_root_def, code_simp)

theorem walks_terminate_witness:
  "(\<exists>r. processIngressRoutes ex_deps [ex_a, ex_b, ex_c] 4 ex_builder (WithObject ex_a) ex_a []
          [] ''a.example.com'' False = Done r)
   \<and> computeIngressRoutes ex_deps [ex_a, ex_b, ex_c] ex_builder \<noteq> OutOfFuel
   \<and> processIngressRoutes_loop ex_deps [ex_a, ex_b, ex_c] 4 ex_builder (WithObject ex_b) ex_b
        ''/'' [ex_a, ex_b] ''a.example.com'' False
        [ex_route ''/'' [] (Some (ex_delegate ''a'')), ex_route ''/y'' [ex_kuard] None] =
      Done (ex_builder\<lparr>orphaned := orphaned ex_builder - {fullname ex_a}\<rparr>,
            SetInvalid
              ''route creates a delegation cycle: default/a -> default/b -> default/a''
              (WithObject ex_b))
   \<and> status_of (computeIngressRoutes ex_deps [ex_a, ex_b, ex_c] ex_builder) =
     [((''default'', ''b''), None),
      ((''default'', ''b''),
       Some (Invalid ''route creates a delegation cycle: default/a -> default/b -> default/a'')),
      ((''default'', ''a''), Some Valid),
      ((''default'', ''c''), Some Valid)]
   \<and> routes_of (computeIngressRoutes ex_deps [ex_a, ex_b, ex_c] ex_builder) ''c.example.com'' =
     [''/'']
   \<and> computeIngressRoute ex_deps [ex_a, ex_b, ex_c] ex_builder ex_a = Done ex_after_cycle
   \<and> virtualhosts ex_after_cycle ''c.example.com'' = virtualhosts ex_builder ''c.example.com''
   \<and> securevirtualhosts ex_after_cycle ''c.example.com'' =
       securevirtualhosts ex_builder ''c.example.com''
   \<and> map_outcome (built (length (statuses ex_after_cycle)) ''c.example.com'')
         (computeIngressRoute ex_deps [ex_a, ex_b, ex_c] ex_after_cycle ex_c) =
       map_outcome (built 0 ''c.example.com'')
         (computeIngressRoute ex_deps [ex_a, ex_b, ex_c] ex_builder ex_c)"
proof -
  note w = walks_terminate[of "[ex_a, ex_b, ex_c]" 4 ex_deps ex_builder "WithObject ex_b" ex_b
      "''/''" "''a.example.com''" False "ex_route ''/'' [] (Some (ex_delegate ''a''))"
      "ex_delegate ''a''" ex_a "[ex_a, ex_b]" "[ex_route ''/y'' [ex_kuard] None]"]
  note w' = walks_terminate[of "[ex_a, ex_b, ex_c]" 4 ex_deps ex_builder "WithObject ex_a" ex_a
      "[]" "''a.example.com''" False]
  from w' ex_cycle_facts(6)
  have 1: "\<exists>r. processIngressRoutes ex_deps [ex_a, ex_b, ex_c] 4 ex_builder (WithObject ex_a)
      ex_a [] [] ''a.example.com'' False = Done r" by blast
  from w have 2: "computeIngressRoutes ex_deps [ex_a, ex_b, ex_c] ex_builder \<noteq> OutOfFuel"
    by blast
  from w ex_cycle_facts(1,2,3,4)
  have "processIngressRoutes_loop ex_deps [ex_a, ex_b, ex_c] 4 ex_builder (WithObject ex_b) ex_b
        ''/'' [ex_a, ex_b] ''a.example.com'' False
        [ex_route ''/'' [] (Some (ex_delegate ''a'')), ex_route ''/y'' [ex_kuard] None] =
      Done (ex_builder\<lparr>orphaned := orphaned ex_builder - {fullname ex_a}\<rparr>,
            SetInvalid (''route creates a delegation cycle: '' @
                Join (map resource_path [ex_a, ex_b] @ [resource_path ex_a]) '' -> '')
              (WithObject ex_b))"
    by blast
  then have 3: "processIngressRoutes_loop ex_deps [ex_a, ex_b, ex_c] 4 ex_builder
        (WithObject ex_b) ex_b ''/'' [ex_a, ex_b] ''a.example.com'' False
        [ex_route ''/'' [] (Some (ex_delegate ''a'')), ex_route ''/y'' [ex_kuard] None] =
      Done (ex_builder\<lparr>orphaned := orphaned ex_builder - {fullname ex_a}\<rparr>,
            SetInvalid
              ''route creates a delegation cycle: default/a -> default/b -> default/a''
              (WithObject ex_b))"
    unfolding ex_cycle_facts(5) by simp
  have run: "computeIngressRoute ex_deps [ex_a, ex_b, ex_c] ex_builder ex_a = Done ex_after_cycle"
    using ex_after_cycle_facts(1)
    by (cases "computeIngressRoute ex_deps [ex_a, ex_b, ex_c] ex_builder ex_a")
       (simp_all add: ex_after_cycle_def)
  from walks_terminate[where ir = ex_a and k = "''c.example.com''" and deps = ex_deps
      and src = "[ex_a, ex_b, ex_c]" and b = ex_builder] run ex_after_cycle_facts(2)
  have 4: "virtualhosts ex_after_cycle ''c.example.com'' =
      virtualhosts ex_builder ''c.example.com'' \<and>
    securevirtualhosts ex_after_cycle ''c.example.com'' =
      securevirtualhosts ex_builder ''c.example.com''"
    by blast
  from walks_terminate[where ir = ex_c and vh = "\<lparr>Fqdn = ''c.example.com'', vh_TLS = None\<rparr>"
      and c = ex_after_cycle and b = ex_builder and deps = ex_deps
      and src = "[ex_a, ex_b, ex_c]"] 4 ex_after_cycle_facts(3,4)
  have "map_outcome (built (length (statuses ex_after_cycle))
          (Fqdn \<lparr>Fqdn = ''c.example.com'', vh_TLS = None\<rparr>))
         (computeIngressRoute ex_deps [ex_a, ex_b, ex_c] ex_after_cycle ex_c) =
       map_outcome (built (length (statuses ex_builder))
          (Fqdn \<lparr>Fqdn = ''c.example.com'', vh_TLS = None\<rparr>))
         (computeIngressRoute ex_deps [ex_a, ex_b, ex_c] ex_builder ex_c)"
    by simp
  then have 5: "map_outcome (built (length (statuses ex_after_cycle)) ''c.example.com'')
         (computeIngressRoute ex_deps [ex_a, ex_b, ex_c] ex_after_cycle ex_c) =
       map_outcome (built 0 ''c.example.com'')
         (computeIngressRoute ex_deps [ex_a, ex_b, ex_c] ex_builder ex_c)"
    by (simp add: ex_builder_def)
  from 1 2 3 ex_cycle_run(1,2) run 4 5 show ?thesis by (intro conjI) simp_all
qed

section \<open>Properties of a route's idle timeout\<close>

lemma buildRoute_Inr:
  assumes "buildRoute deps b ir prefixMatch enforceTLS route = Inr r"
  shows "routeIdleTimeout deps route = Inr (rt_IdleTimeout r)"
    and "routeClusters deps ir route (Services route) [] = Inr (rt_Clusters r)"
  using assms
  by (auto simp: buildRoute_def Let_def split: if_splits sum.splits)

lemma buildRoute_idle_Inl:
  assumes "routeIdleTimeout deps route = Inl msg"
  shows "\<exists>msg'. buildRoute deps b ir prefixMatch enforceTLS route = Inl msg'"
  using assms
  by (auto simp: buildRoute_def Let_def split: if_splits sum.splits)

lemma buildRoute_clusters_Inl:
  assumes "routeClusters deps ir route (Services route) [] = Inl msg"
  shows "\<exists>msg'. buildRoute deps b ir prefixMatch enforceTLS route = Inl msg'"
  using assms
  by (auto simp: buildRoute_def Let_def split: if_splits sum.splits)

lemma routeClusters_Inr:
  "routeClusters deps ir route services cs = Inr cs' \<Longrightarrow>
   \<exists>new. cs' = cs @ new \<and>
     list_all2 (\<lambda>service c. serviceCluster deps ir route service = Inr c) services new"
proof (induction services arbitrary: cs)
  case Nil
  then show ?case by simp
next
  case (Cons service services)
  from Cons.prems obtain c where
    c: "serviceCluster deps ir route service = Inr c"
    and rest: "routeClusters deps ir route services (cs @ [c]) = Inr cs'"
    by (auto split: sum.splits)
  from Cons.IH[OF rest] obtain new where
    "cs' = (cs @ [c]) @ new"
    "list_all2 (\<lambda>service c. serviceCluster deps ir route service = Inr c) services new"
    by blast
  with c have "cs' = cs @ (c # new) \<and>
     list_all2 (\<lambda>service c. serviceCluster deps ir route service = Inr c)
       (service # services) (c # new)" by simp
  then show ?case by blast
qed

lemma routeClusters_Inl:
  "service \<in> set services \<Longrightarrow> serviceCluster deps ir route service = Inl msg \<Longrightarrow>
   \<exists>msg'. routeClusters deps ir route services cs = Inl msg'"
proof (induction services arbitrary: cs)
  case Nil
  then show ?case by simp
next
  case (Cons a services)
  then show ?case by (cases "serviceCluster deps ir route a") auto
qed

lemma routeIdleTimeout_cases:
  assumes "r_IdleTimeout route = Some p" "ptypes_Duration p = Some d"
  shows "d \<le> 0 \<Longrightarrow> \<exists>msg. routeIdleTimeout deps route = Inl msg"
    and "time_Hour < d \<Longrightarrow>
           routeIdleTimeout deps route = Inr (Some \<lparr>Seconds = 3600, Nanos = 0\<rparr>)"
    and "0 < d \<Longrightarrow> d \<le> time_Hour \<Longrightarrow> routeIdleTimeout deps route = Inr (Some p)"
  using assms
  by (auto simp: routeIdleTimeout_def ptypes_DurationProto_def time_Hour_def time_Second_def
      go_div_def go_rem_def)

lemma serviceCluster_idle_cases:
  assumes "s_IdleTimeout service = Some p" "ptypes_Duration p = Some d"
  shows "d \<le> 0 \<Longrightarrow> \<exists>msg. serviceCluster deps ir route service = Inl msg"
    and "time_Hour < d \<Longrightarrow> serviceCluster deps ir route service = Inr c \<Longrightarrow>
           cl_IdleTimeout c = Some \<lparr>Seconds = 3600, Nanos = 0\<rparr>"
    and "0 < d \<Longrightarrow> d \<le> time_Hour \<Longrightarrow> serviceCluster deps ir route service = Inr c \<Longrightarrow>
           cl_IdleTimeout c = Some p"
  using assms
  by (auto simp: serviceCluster_def Let_def ptypes_DurationProto_def time_Hour_def
      time_Second_def go_div_def go_rem_def split: if_splits option.splits sum.splits)

lemma serviceCluster_idle_None:
  assumes "serviceCluster deps ir route service = Inr c"
    and "s_IdleTimeout service = Some p" "ptypes_Duration p = None"
  shows "cl_IdleTimeout c = None"
  using assms
  by (auto simp: serviceCluster_def Let_def split: if_splits option.splits sum.splits)

lemma loop_services_Inl:
  assumes "Services route \<noteq> []"
    and "\<exists>msg. buildRoute deps b ir prefixMatch enforceTLS route = Inl msg"
  shows "\<exists>msg. processIngressRoutes_loop deps src fuel b sw ir prefixMatch visited host
           enforceTLS (route # routes) = Done (b, SetInvalid msg sw)"
  using assms by (cases "r_Delegate route") auto

text \<open>
  C5, as stated, fails for an idle timeout on a route entry without services, which the
  builder does not look at: a root whose only route entry delegates (to a resource that
  does not exist) and has an idle timeout of zero is Valid. It also fails for a duration
  that \<open>ptypes.Duration\<close> cannot convert: an idle timeout of \<open>10^10\<close> seconds on a
  route to a service is not clamped to one hour, the route has no idle timeout.
\<close>

theorem idle_timeout_counterexample:
  "status_of (computeIngressRoutes ex_deps [ex_idle_zero_delegation] ex_builder) =
     [((''default'', ''a''), Some Valid)]
   \<and> status_of (computeIngressRoutes ex_deps [ex_idle_long] ex_builder) =
     [((''default'', ''a''), Some Valid)]
   \<and> idle_timeouts_of (computeIngressRoutes ex_deps [ex_idle_long] ex_builder)
       ''a.example.com'' = [None]"
  by code_simp

text \<open>
  C5, amended. For a route entry that points to services, and for each of its services,
  an idle timeout whose duration \<open>ptypes.Duration\<close> converts: a duration of zero or less
  marks the resource Invalid and ends the walk over its entries; a duration of more
  than one hour gives the route (the cluster) an idle timeout of exactly one hour; any
  other duration is kept as given. The clusters of a route that is built are those of
  its services, in order, and the route that is built is the route added to the host.
  An idle timeout whose conversion fails stays unset, on the route and on the cluster of
  a service alike, and the idle timeout of a route entry without services has no effect.
\<close>

theorem idle_timeout_clamped:
  assumes conv: "ptypes_Duration p = Some d"
  shows "(Services route \<noteq> [] \<and> r_IdleTimeout route = Some p \<longrightarrow>
            (d \<le> 0 \<longrightarrow>
               (\<exists>msg. processIngressRoutes_loop deps src fuel b sw ir prefixMatch visited host
                   enforceTLS (route # routes) = Done (b, SetInvalid msg sw)))
          \<and> (\<forall>r. buildRoute deps b ir prefixMatch enforceTLS route = Inr r \<longrightarrow>
                (time_Hour < d \<longrightarrow> rt_IdleTimeout r = Some \<lparr>Seconds = 3600, Nanos = 0\<rparr>)
              \<and> (0 < d \<and> d \<le> time_Hour \<longrightarrow> rt_IdleTimeout r = Some p)))
       \<and> (Services route \<noteq> [] \<and> service \<in> set (Services route) \<and>
          s_IdleTimeout service = Some p \<longrightarrow>
            (d \<le> 0 \<longrightarrow>
               (\<exists>msg. processIngressRoutes_loop deps src fuel b sw ir prefixMatch visited host
                   enforceTLS (route # routes) = Done (b, SetInvalid msg sw)))
          \<and> (\<forall>c. serviceCluster deps ir route service = Inr c \<longrightarrow>
                (time_Hour < d \<longrightarrow> cl_IdleTimeout c = Some \<lparr>Seconds = 3600, Nanos = 0\<rparr>)
              \<and> (0 < d \<and> d \<le> time_Hour \<longrightarrow> cl_IdleTimeout c = Some p)))
       \<and> (\<forall>r. buildRoute deps b ir prefixMatch enforceTLS route = Inr r \<longrightarrow>
            list_all2 (\<lambda>service c. serviceCluster deps ir route service = Inr c)
              (Services route) (rt_Clusters r)
          \<and> (Services route \<noteq> [] \<and> r_Delegate route = None \<longrightarrow>
               processIngressRoutes_loop deps src fuel b sw ir prefixMatch visited host
                 enforceTLS (route # routes) =
               processIngressRoutes_loop deps src fuel (addRoutes b host enforceTLS r) sw ir
                 prefixMatch visited host enforceTLS routes))
       \<and> (\<forall>r p'. buildRoute deps b ir prefixMatch enforceTLS route = Inr r \<and>
            r_IdleTimeout route = Some p' \<and> ptypes_Duration p' = None \<longrightarrow>
            rt_IdleTimeout r = None)
       \<and> (\<forall>c p'. serviceCluster deps ir route service = Inr c \<and>
            s_IdleTimeout service = Some p' \<and> ptypes_Duration p' = None \<longrightarrow>
            cl_IdleTimeout c = None)
       \<and> (Services route = [] \<longrightarrow>
            processIngressRoutes_loop deps src fuel b sw ir prefixMatch visited host enforceTLS
              (route\<lparr>r_IdleTimeout := x\<rparr> # routes) =
            processIngressRoutes_loop deps src fuel b sw ir prefixMatch visited host enforceTLS
              (route # routes))"
proof -
  have 1: "Services route \<noteq> [] \<and> r_IdleTimeout route = Some p \<longrightarrow>
            (d \<le> 0 \<longrightarrow>
               (\<exists>msg. processIngressRoutes_loop deps src fuel b sw ir prefixMatch visited host
                   enforceTLS (route # routes) = Done (b, SetInvalid msg sw)))
          \<and> (\<forall>r. buildRoute deps b ir prefixMatch enforceTLS route = Inr r \<longrightarrow>
                (time_Hour < d \<longrightarrow> rt_IdleTimeout r = Some \<lparr>Seconds = 3600, Nanos = 0\<rparr>)
              \<and> (0 < d \<and> d \<le> time_Hour \<longrightarrow> rt_IdleTimeout r = Some p))"
  proof (intro impI conjI allI; elim conjE)
    assume h: "Services route \<noteq> []" "r_IdleTimeout route = Some p" and neg: "d \<le> 0"
    from routeIdleTimeout_cases(1)[OF h(2) conv neg]
    obtain msg where "routeIdleTimeout deps route = Inl msg" by blast
    from buildRoute_idle_Inl[OF this]
    have "\<exists>msg. buildRoute deps b ir prefixMatch enforceTLS route = Inl msg" .
    from loop_services_Inl[OF h(1) this]
    show "\<exists>msg. processIngressRoutes_loop deps src fuel b sw ir prefixMatch visited host
                   enforceTLS (route # routes) = Done (b, SetInvalid msg sw)" .
  next
    fix r
    assume h: "Services route \<noteq> []" "r_IdleTimeout route = Some p"
      and r: "buildRoute deps b ir prefixMatch enforceTLS route = Inr r"
      and long: "time_Hour < d"
    from routeIdleTimeout_cases(2)[OF h(2) conv long] buildRoute_Inr(1)[OF r]
    show "rt_IdleTimeout r = Some \<lparr>Seconds = 3600, Nanos = 0\<rparr>" by simp
  next
    fix r
    assume h: "Services route \<noteq> []" "r_IdleTimeout route = Some p"
      and r: "buildRoute deps b ir prefixMatch enforceTLS route = Inr r"
      and mid: "0 < d" "d \<le> time_Hour"
    from routeIdleTimeout_cases(3)[OF h(2) conv mid] buildRoute_Inr(1)[OF r]
    show "rt_IdleTimeout r = Some p" by simp
  qed
  have 2: "Services route \<noteq> [] \<and> service \<in> set (Services route) \<and>
          s_IdleTimeout service = Some p \<longrightarrow>
            (d \<le> 0 \<longrightarrow>
               (\<exists>msg. processIngressRoutes_loop deps src fuel b sw ir prefixMatch visited host
                   enforceTLS (route # routes) = Done (b, SetInvalid msg sw)))
          \<and> (\<forall>c. serviceCluster deps ir route service = Inr c \<longrightarrow>
                (time_Hour < d \<longrightarrow> cl_IdleTimeout c = Some \<lparr>Seconds = 3600, Nanos = 0\<rparr>)
              \<and> (0 < d \<and> d \<le> time_Hour \<longrightarrow> cl_IdleTimeout c = Some p))"
  proof (intro impI conjI allI; elim conjE)
    assume h: "Services route \<noteq> []" "service \<in> set (Services route)"
      "s_IdleTimeout service = Some p" and neg: "d \<le> 0"
    from serviceCluster_idle_cases(1)[OF h(3) conv neg]
    obtain msg where "serviceCluster deps ir route service = Inl msg" by blast
    from routeClusters_Inl[OF h(2) this]
    obtain msg' where "routeClusters deps ir route (Services route) [] = Inl msg'" by blast
    from buildRoute_clusters_Inl[OF this]
    have "\<exists>msg. buildRoute deps b ir prefixMatch enforceTLS route = Inl msg" .
    from loop_services_Inl[OF h(1) this]
    show "\<exists>msg. processIngressRoutes_loop deps src fuel b sw ir prefixMatch visited host
                   enforceTLS (route # routes) = Done (b, SetInvalid msg sw)" .
  next
    fix c
    assume "s_IdleTimeout service = Some p" "serviceCluster deps ir route service = Inr c"
      "time_Hour < d"
    from serviceCluster_idle_cases(2)[OF this(1) conv this(3) this(2)]
    show "cl_IdleTimeout c = Some \<lparr>Seconds = 3600, Nanos = 0\<rparr>" .
  next
    fix c
    assume "s_IdleTimeout service = Some p" "serviceCluster deps ir route service = Inr c"
      "0 < d" "d \<le> time_Hour"
    from serviceCluster_idle_cases(3)[OF this(1) conv this(3,4) this(2)]
    show "cl_IdleTimeout c = Some p" .
  qed
  have 3: "\<forall>r. buildRoute deps b ir prefixMatch enforceTLS route = Inr r \<longrightarrow>
            list_all2 (\<lambda>service c. serviceCluster deps ir route service = Inr c)
              (Services route) (rt_Clusters r)
          \<and> (Services route \<noteq> [] \<and> r_Delegate route = None \<longrightarrow>
               processIngressRoutes_loop deps src fuel b sw ir prefixMatch visited host
                 enforceTLS (route # routes) =
               processIngressRoutes_loop deps src fuel (addRoutes b host enforceTLS r) sw ir
                 prefixMatch visited host enforceTLS routes)"
  proof (intro allI impI conjI)
    fix r
    assume r: "buildRoute deps b ir prefixMatch enforceTLS route = Inr r"
    from routeClusters_Inr[OF buildRoute_Inr(2)[OF r]]
    show "list_all2 (\<lambda>service c. serviceCluster deps ir route service = Inr c)
              (Services route) (rt_Clusters r)" by simp
    assume "Services route \<noteq> [] \<and> r_Delegate route = None"
    with r show "processIngressRoutes_loop deps src fuel b sw ir prefixMatch visited host
                 enforceTLS (route # routes) =
               processIngressRoutes_loop deps src fuel (addRoutes b host enforceTLS r) sw ir
                 prefixMatch visited host enforceTLS routes" by simp
  qed
  have 4: "\<forall>r p'. buildRoute deps b ir prefixMatch enforceTLS route = Inr r \<and>
            r_IdleTimeout route = Some p' \<and> ptypes_Duration p' = None \<longrightarrow>
            rt_IdleTimeout r = None"
  proof (intro allI impI; elim conjE)
    fix r p'
    assume r: "buildRoute deps b ir prefixMatch enforceTLS route = Inr r"
      and "r_IdleTimeout route = Some p'" "ptypes_Duration p' = None"
    then have "routeIdleTimeout deps route = Inr None" by (simp add: routeIdleTimeout_def)
    with buildRoute_Inr(1)[OF r] show "rt_IdleTimeout r = None" by simp
  qed
  have 5: "Services route = [] \<longrightarrow>
            processIngressRoutes_loop deps src fuel b sw ir prefixMatch visited host enforceTLS
              (route\<lparr>r_IdleTimeout := x\<rparr> # routes) =
            processIngressRoutes_loop deps src fuel b sw ir prefixMatch visited host enforceTLS
              (route # routes)"
    by (auto simp: Let_def split: option.splits)
  have 6: "\<forall>c p'. serviceCluster deps ir route service = Inr c \<and>
            s_IdleTimeout service = Some p' \<and> ptypes_Duration p' = None \<longrightarrow>
            cl_IdleTimeout c = None"
    by (rule allI, rule allI, rule impI, elim conjE, rule serviceCluster_idle_None)
  from 1 2 3 4 6 5 show ?thesis by (intro conjI)
qed

lemma ex_idle_runs:
  "ptypes_Duration \<lparr>Seconds = 7200, Nanos = 0\<rparr> = Some 7200000000000"
  "ptypes_Duration \<lparr>Seconds = 0, Nanos = 0\<rparr> = Some 0"
  "buildRoute ex_deps ex_builder ex_idle_2h [] False (ex_idle_route [ex_kuard] None 7200) =
     Inr (projr (buildRoute ex_deps ex_builder ex_idle_2h [] False
                   (ex_idle_route [ex_kuard] None 7200)))"
  "time_Hour < 7200000000000"
  "Services (ex_idle_route [ex_kuard] None 7200) \<noteq> []"
  "r_IdleTimeout (ex_idle_route [ex_kuard] None 7200) = Some \<lparr>Seconds = 7200, Nanos = 0\<rparr>"
  "Services (ex_idle_route [ex_kuard] None 0) \<noteq> []"
  "r_IdleTimeout (ex_idle_route [ex_kuard] None 0) = Some \<lparr>Seconds = 0, Nanos = 0\<rparr>"
  by code_simp+

lemma ex_service_idle_runs:
  "Services (ex_route ''/'' [ex_kuard_idle 7200] None) \<noteq> []"
  "ex_kuard_idle 7200 \<in> set (Services (ex_route ''/'' [ex_kuard_idle 7200] None))"
  "s_IdleTimeout (ex_kuard_idle 7200) = Some \<lparr>Seconds = 7200, Nanos = 0\<rparr>"
  "serviceCluster ex_deps (ex_service_idle 7200) (ex_route ''/'' [ex_kuard_idle 7200] None)
     (ex_kuard_idle 7200) =
   Inr (projr (serviceCluster ex_deps (ex_service_idle 7200)
                 (ex_route ''/'' [ex_kuard_idle 7200] None) (ex_kuard_idle 7200)))"
  "Services (ex_route ''/'' [ex_kuard_idle 0] None) \<noteq> []"
  "ex_kuard_idle 0 \<in> set (Services (ex_route ''/'' [ex_kuard_idle 0] None))"
  "s_IdleTimeout (ex_kuard_idle 0) = Some \<lparr>Seconds = 0, Nanos = 0\<rparr>"
  "s_IdleTimeout (ex_kuard_idle 10000000000) = Some \<lparr>Seconds = 10000000000, Nanos = 0\<rparr>"
  "ptypes_Duration \<lparr>Seconds = 10000000000, Nanos = 0\<rparr> = None"
  "serviceCluster ex_deps (ex_service_idle 10000000000)
     (ex_route ''/'' [ex_kuard_idle 10000000000] None) (ex_kuard_idle 10000000000) =
   Inr (projr (serviceCluster ex_deps (ex_service_idle 10000000000)
                 (ex_route ''/'' [ex_kuard_idle 10000000000] None)
                 (ex_kuard_idle 10000000000)))"
  by code_simp+

theorem idle_timeout_clamped_witness:
  "ptypes_Duration \<lparr>Seconds = 7200, Nanos = 0\<rparr> = Some 7200000000000
   \<and> rt_IdleTimeout (projr (buildRoute ex_deps ex_builder ex_idle_2h [] False
        (ex_idle_route [ex_kuard] None 7200))) = Some \<lparr>Seconds = 3600, Nanos = 0\<rparr>
   \<and> ptypes_Duration \<lparr>Seconds = 0, Nanos = 0\<rparr> = Some 0
   \<and> (\<exists>msg. processIngressRoutes_loop ex_deps [ex_idle_zero] 1 ex_builder
          (WithObject ex_idle_zero) ex_idle_zero [] [ex_idle_zero] ''a.example.com'' False
          [ex_idle_route [ex_kuard] None 0] =
        Done (ex_builder, SetInvalid msg (WithObject ex_idle_zero)))
   \<and> cl_IdleTimeout (projr (serviceCluster ex_deps (ex_service_idle 7200)
        (ex_route ''/'' [ex_kuard_idle 7200] None) (ex_kuard_idle 7200))) =
      Some \<lparr>Seconds = 3600, Nanos = 0\<rparr>
   \<and> (\<exists>msg. processIngressRoutes_loop ex_deps [ex_service_idle 0] 1 ex_builder
          (WithObject (ex_service_idle 0)) (ex_service_idle 0) [] [ex_service_idle 0]
          ''a.example.com'' False [ex_route ''/'' [ex_kuard_idle 0] None] =
        Done (ex_builder, SetInvalid msg (WithObject (ex_service_idle 0))))
   \<and> ptypes_Duration \<lparr>Seconds = 10000000000, Nanos = 0\<rparr> = None
   \<and> cl_IdleTimeout (projr (serviceCluster ex_deps (ex_service_idle 10000000000)
        (ex_route ''/'' [ex_kuard_idle 10000000000] None) (ex_kuard_idle 10000000000))) =
      None"
proof -
  from idle_timeout_clamped[OF ex_idle_runs(1), of "ex_idle_route [ex_kuard] None 7200"
      ex_deps "[ex_idle_2h]" 1 ex_builder "WithObject ex_idle_2h" ex_idle_2h "[]" "[ex_idle_2h]"
      "''a.example.com''" False "[]"]
    ex_idle_runs(3,4,5,6)
  have 1: "rt_IdleTimeout (projr (buildRoute ex_deps ex_builder ex_idle_2h [] False
        (ex_idle_route [ex_kuard] None 7200))) = Some \<lparr>Seconds = 3600, Nanos = 0\<rparr>"
    by blast
  from idle_timeout_clamped[OF ex_idle_runs(2), of "ex_idle_route [ex_kuard] None 0"
      ex_deps "[ex_idle_zero]" 1 ex_builder "WithObject ex_idle_zero" ex_idle_zero "[]"
      "[ex_idle_zero]" "''a.example.com''" False "[]"]
    ex_idle_runs(7,8)
  have 2: "\<exists>msg. processIngressRoutes_loop ex_deps [ex_idle_zero] 1 ex_builder
          (WithObject ex_idle_zero) ex_idle_zero [] [ex_idle_zero] ''a.example.com'' False
          [ex_idle_route [ex_kuard] None 0] =
        Done (ex_builder, SetInvalid msg (WithObject ex_idle_zero))"
    by simp
  from idle_timeout_clamped[OF ex_idle_runs(1), where route = "ex_route ''/'' [ex_kuard_idle 7200] None"
      and service = "ex_kuard_idle 7200" and deps = ex_deps and ir = "ex_service_idle 7200"]
    ex_service_idle_runs(1,2,3,4) ex_idle_runs(4)
  have 3: "cl_IdleTimeout (projr (serviceCluster ex_deps (ex_service_idle 7200)
        (ex_route ''/'' [ex_kuard_idle 7200] None) (ex_kuard_idle 7200))) =
      Some \<lparr>Seconds = 3600, Nanos = 0\<rparr>"
    by blast
  from idle_timeout_clamped[OF ex_idle_runs(2), where route = "ex_route ''/'' [ex_kuard_idle 0] None"
      and service = "ex_kuard_idle 0" and deps = ex_deps and src = "[ex_service_idle 0]"
      and fuel = 1 and b = ex_builder and sw = "WithObject (ex_service_idle 0)"
      and ir = "ex_service_idle 0" and prefixMatch = "[]" and visited = "[ex_service_idle 0]"
      and host = "''a.example.com''" and enforceTLS = False and routes = "[]"]
    ex_service_idle_runs(5,6,7)
  have 4: "\<exists>msg. processIngressRoutes_loop ex_deps [ex_service_idle 0] 1 ex_builder
          (WithObject (ex_service_idle 0)) (ex_service_idle 0) [] [ex_service_idle 0]
          ''a.example.com'' False [ex_route ''/'' [ex_kuard_idle 0] None] =
        Done (ex_builder, SetInvalid msg (WithObject (ex_service_idle 0)))"
    by simp
  from idle_timeout_clamped[OF ex_idle_runs(1),
      where route = "ex_route ''/'' [ex_kuard_idle 10000000000] None"
      and service = "ex_kuard_idle 10000000000" and deps = ex_deps
      and ir = "ex_service_idle 10000000000"]
    ex_service_idle_runs(8,9,10)
  have 5: "cl_IdleTimeout (projr (serviceCluster ex_deps (ex_service_idle 10000000000)
        (ex_route ''/'' [ex_kuard_idle 10000000000] None) (ex_kuard_idle 10000000000))) =
      None"
    by blast
  from ex_idle_runs(1,2) 1 2 3 4 ex_service_idle_runs(9) 5 show ?thesis by (intro conjI)
qed

section \<open>Delegation to a root\<close>

lemma lookup_ingressroute_map:
  "lookup_ingressroute (map (ir_VirtualHost_update g) src) m =
     map_option (ir_VirtualHost_update g) (lookup_ingressroute src m)"
  by (induction src) (auto simp: lookup_ingressroute_def fullname_def)

lemma on_path_map:
  "on_path (map (ir_VirtualHost_update g) visited) (ir_VirtualHost_update g dest) =
     on_path visited dest"
  by (simp add: on_path_def list_ex_iff)

lemma cycle_path_map:
  "cycle_path (map (ir_VirtualHost_update g) visited) (ir_VirtualHost_update g dest) =
     cycle_path visited dest"
proof -
  have "resource_path (ir_VirtualHost_update g x) = resource_path x" for x
    by (simp add: resource_path_def)
  then show ?thesis by (simp add: cycle_path_def comp_def)
qed

lemma serviceCluster_update:
  "serviceCluster deps (ir_VirtualHost_update g ir) route service =
     serviceCluster deps ir route service"
  by (simp add: serviceCluster_def cong: option.case_cong sum.case_cong if_cong)

lemma routeClusters_update:
  "routeClusters deps (ir_VirtualHost_update g ir) route services cs =
     routeClusters deps ir route services cs"
  by (induction services arbitrary: cs)
     (simp_all add: serviceCluster_update cong: sum.case_cong)

lemma buildRoute_update:
  "buildRoute deps b (ir_VirtualHost_update g ir) prefixMatch enforceTLS route =
     buildRoute deps b ir prefixMatch enforceTLS route"
  by (simp add: buildRoute_def routeClusters_update cong: sum.case_cong if_cong)

lemma walk_ignores_virtualhost:
  "processIngressRoutes deps (map (ir_VirtualHost_update g) src) fuel b sw
      (ir_VirtualHost_update g ir) prefixMatch (map (ir_VirtualHost_update g) visited) host
      enforceTLS =
   processIngressRoutes deps src fuel b sw ir prefixMatch visited host enforceTLS"
  and
  "processIngressRoutes_loop deps (map (ir_VirtualHost_update g) src) fuel0 b0 sw0
      (ir_VirtualHost_update g ir0) prefixMatch0 (map (ir_VirtualHost_update g) visited0) host0
      enforceTLS0 routes =
   processIngressRoutes_loop deps src fuel0 b0 sw0 ir0 prefixMatch0 visited0 host0 enforceTLS0
      routes"
proof (induction deps src fuel b sw ir prefixMatch visited host enforceTLS
        and deps src fuel0 b0 sw0 ir0 prefixMatch0 visited0 host0 enforceTLS0 routes
        rule: processIngressRoutes_processIngressRoutes_loop.induct)
  case (1 deps src b sw ir prefixMatch visited host enforceTLS)
  then show ?case by simp
next
  case (2 deps src fuel b sw ir prefixMatch visited host enforceTLS)
  then show ?case by simp
next
  case (3 deps src fuel b sw ir prefixMatch visited host enforceTLS)
  then show ?case by simp
next
  case (4 deps src fuel b sw ir prefixMatch visited host enforceTLS route routes)
  let ?f = "ir_VirtualHost_update g"
  show ?case
  proof (cases "Services route \<noteq> [] \<and> r_Delegate route \<noteq> None")
    case True
    then show ?thesis by simp
  next
    case both: False
    show ?thesis
    proof (cases "Services route \<noteq> []")
      case True
      show ?thesis
      proof (cases "buildRoute deps b ir prefixMatch enforceTLS route")
        case (Inl msg)
        with both True show ?thesis by (simp add: buildRoute_update)
      next
        case (Inr r)
        with both True "4.IH"(1)[OF both True Inr] show ?thesis
          by (simp add: buildRoute_update)
      qed
    next
      case nosvc: False
      show ?thesis
      proof (cases "r_Delegate route")
        case None
        with both nosvc "4.IH"(2)[OF both nosvc None] show ?thesis by simp
      next
        case (Some d)
        have ns: "delegate_namespace (?f ir) d = delegate_namespace ir d"
          by (simp add: delegate_namespace_def)
        show ?thesis
        proof (cases "lookup_ingressroute src (delegate_namespace ir d, d_Name d)")
          case None
          with both nosvc Some "4.IH"(3)[OF both nosvc Some None] show ?thesis
            by (simp add: lookup_ingressroute_map ns)
        next
          case found: (Some dest)
          define b1 where "b1 = b\<lparr>orphaned := orphaned b - {fullname dest}\<rparr>"
          have found': "lookup_ingressroute (map ?f src)
              (delegate_namespace (?f ir) d, d_Name d) = Some (?f dest)"
            using found by (simp add: lookup_ingressroute_map ns)
          have fn: "fullname (?f dest) = fullname dest" by (simp add: fullname_def)
          have wo: "WithObject (?f dest) = WithObject dest" by (simp add: WithObject_def fn)
          show ?thesis
          proof (cases "on_path visited dest")
            case True
            with both nosvc Some found found' show ?thesis
              by (simp add: Let_def on_path_map cycle_path_map fn)
          next
            case off: False
            have rec: "processIngressRoutes deps (map ?f src) fuel b1 (WithObject dest) (?f dest)
                (Match route) (map ?f visited) host enforceTLS =
                processIngressRoutes deps src fuel b1 (WithObject dest) dest (Match route)
                  visited host enforceTLS"
              using "4.IH"(4)[OF both nosvc Some found b1_def off] .
            show ?thesis
            proof (cases "processIngressRoutes deps src fuel b1 (WithObject dest) dest
                (Match route) visited host enforceTLS")
              case (Done r)
              obtain b2 sw2 where r: "r = (b2, sw2)" by (cases r) auto
              from "4.IH"(5)[OF both nosvc Some found b1_def off Done[unfolded r] refl]
              have "processIngressRoutes_loop deps (map ?f src) fuel (commit b2 sw2) sw (?f ir)
                  prefixMatch (map ?f visited) host enforceTLS routes =
                  processIngressRoutes_loop deps src fuel (commit b2 sw2) sw ir prefixMatch
                    visited host enforceTLS routes" .
              with both nosvc Some found found' off Done r rec show ?thesis
                by (simp add: Let_def on_path_map fn wo b1_def)
            next
              case Panic
              with both nosvc Some found found' off rec show ?thesis
                by (simp add: Let_def on_path_map fn wo b1_def)
            next
              case OutOfFuel
              with both nosvc Some found found' off rec show ?thesis
                by (simp add: Let_def on_path_map fn wo b1_def)
            qed
          qed
        qed
      qed
    qed
  qed
qed

text \<open>
  C9. The walk never reads whether a resource declares a virtual host: changing the
  declarations of all resources, for instance removing them, changes nothing in the
  outcome of a walk. So a delegation edge whose target is a root is followed as one
  whose target is a delegate: the target leaves the orphaned set, an edge to a resource
  of the visited path is reported as a cycle, and otherwise the walk goes into the
  target's route entries under the host of the delegating root, with the edge's prefix.
\<close>

theorem root_target_followed:
  "processIngressRoutes deps (map (ir_VirtualHost_update g) src) fuel b sw
      (ir_VirtualHost_update g ir) prefixMatch (map (ir_VirtualHost_update g) visited) host
      enforceTLS =
   processIngressRoutes deps src fuel b sw ir prefixMatch visited host enforceTLS
   \<and> (Services route = [] \<and> r_Delegate route = Some d \<and>
       lookup_ingressroute src (delegate_namespace ir d, d_Name d) = Some dest \<and>
       ir_VirtualHost dest = Some vh \<longrightarrow>
        processIngressRoutes_loop deps src fuel b sw ir prefixMatch visited host enforceTLS
          (route # routes) =
        (if on_path visited dest
         then Done (b\<lparr>orphaned := orphaned b - {fullname dest}\<rparr>,
                    SetInvalid (''route creates a delegation cycle: '' @
                      cycle_path visited dest) sw)
         else
           (case processIngressRoutes deps src fuel
                   (b\<lparr>orphaned := orphaned b - {fullname dest}\<rparr>)
                   (WithObject dest) dest (Match route) visited host enforceTLS of
              Done (b2, sw2) \<Rightarrow>
                processIngressRoutes_loop deps src fuel (commit b2 sw2) sw ir prefixMatch
                  visited host enforceTLS routes
            | Panic \<Rightarrow> Panic
            | OutOfFuel \<Rightarrow> OutOfFuel)))"
proof (intro conjI impI; (elim conjE)?)
  show "processIngressRoutes deps (map (ir_VirtualHost_update g) src) fuel b sw
      (ir_VirtualHost_update g ir) prefixMatch (map (ir_VirtualHost_update g) visited) host
      enforceTLS =
   processIngressRoutes deps src fuel b sw ir prefixMatch visited host enforceTLS"
    by (rule walk_ignores_virtualhost(1))
next
  assume h: "Services route = []" "r_Delegate route = Some d"
    "lookup_ingressroute src (delegate_namespace ir d, d_Name d) = Some dest"
  show "processIngressRoutes_loop deps src fuel b sw ir prefixMatch visited host enforceTLS
          (route # routes) =
        (if on_path visited dest
         then Done (b\<lparr>orphaned := orphaned b - {fullname dest}\<rparr>,
                    SetInvalid (''route creates a delegation cycle: '' @
                      cycle_path visited dest) sw)
         else
           (case processIngressRoutes deps src fuel
                   (b\<lparr>orphaned := orphaned b - {fullname dest}\<rparr>)
                   (WithObject dest) dest (Match route) visited host enforceTLS of
              Done (b2, sw2) \<Rightarrow>
                processIngressRoutes_loop deps src fuel (commit b2 sw2) sw ir prefixMatch
                  visited host enforceTLS routes
            | Panic \<Rightarrow> Panic
            | OutOfFuel \<Rightarrow> OutOfFuel))"
    using cycle_edge[OF h] delegation_edge[OF h] by (cases "on_path visited dest") simp_all
qed

lemma ex_root_to_root_facts:
  "Services (ex_route ''/b'' [] (Some (ex_delegate ''rb''))) = []"
  "r_Delegate (ex_route ''/b'' [] (Some (ex_delegate ''rb''))) = Some (ex_delegate ''rb'')"
  "lookup_ingressroute [ex_ra, ex_rb]
     (delegate_namespace ex_ra (ex_delegate ''rb''), d_Name (ex_delegate ''rb'')) = Some ex_rb"
  "ir_VirtualHost ex_rb = Some \<lparr>Fqdn = ''b.example.com'', vh_TLS = None\<rparr>"
  "on_path [ex_ra] ex_rb = False"
  "Match (ex_route ''/b'' [] (Some (ex_delegate ''rb''))) = ''/b''"
  by (simp_all add: ex_route_def ex_delegate_def lookup_ingressroute_def delegate_namespace_def
      ex_ra_def ex_rb_def ex_root_def fullname_def on_path_def)

lemma ex_root_to_root_run:
  "status_of (computeIngressRoutes ex_deps [ex_ra, ex_rb] ex_builder) =
     [((''default'', ''rb''), Some Valid), ((''default'', ''ra''), Some Valid),
      ((''default'', ''rb''), Some Valid)]"
  "routes_of (computeIngressRoutes ex_deps [ex_ra, ex_rb] ex_builder) ''a.example.com'' =
     [''/b'']"
  "routes_of (computeIngressRoutes ex_deps [ex_ra, ex_rb] ex_builder) ''b.example.com'' =
     [''/b'']"
  by code_simp+

theorem root_target_followed_witness:
  "ir_VirtualHost ex_rb = Some \<lparr>Fqdn = ''b.example.com'', vh_TLS = None\<rparr>
   \<and> processIngressRoutes_loop ex_deps [ex_ra, ex_rb] 2 ex_builder (WithObject ex_ra) ex_ra []
        [ex_ra] ''a.example.com'' False [ex_route ''/b'' [] (Some (ex_delegate ''rb''))] =
      (case processIngressRoutes ex_deps [ex_ra, ex_rb] 2
              (ex_builder\<lparr>orphaned := orphaned ex_builder - {fullname ex_rb}\<rparr>)
              (WithObject ex_rb) ex_rb ''/b'' [ex_ra] ''a.example.com'' False of
         Done (b2, sw2) \<Rightarrow>
           processIngressRoutes_loop ex_deps [ex_ra, ex_rb] 2 (commit b2 sw2) (WithObject ex_ra)
             ex_ra [] [ex_ra] ''a.example.com'' False []
       | Panic \<Rightarrow> Panic
       | OutOfFuel \<Rightarrow> OutOfFuel)
   \<and> status_of (computeIngressRoutes ex_deps [ex_ra, ex_rb] ex_builder) =
     [((''default'', ''rb''), Some Valid), ((''default'', ''ra''), Some Valid),
      ((''default'', ''rb''), Some Valid)]
   \<and> routes_of (computeIngressRoutes ex_deps [ex_ra, ex_rb] ex_builder) ''a.example.com'' =
     [''/b'']"
proof -
  from root_target_followed[of ex_deps id "[ex_ra, ex_rb]" 2 ex_builder "WithObject ex_ra"
      ex_ra "[]" "[ex_ra]" "''a.example.com''" False
      "ex_route ''/b'' [] (Some (ex_delegate ''rb''))" "ex_delegate ''rb''" ex_rb
      "\<lparr>Fqdn = ''b.example.com'', vh_TLS = None\<rparr>" "[]"]
    ex_root_to_root_facts(1,2,3,4)
  have "processIngressRoutes_loop ex_deps [ex_ra, ex_rb] 2 ex_builder (WithObject ex_ra) ex_ra []
        [ex_ra] ''a.example.com'' False [ex_route ''/b'' [] (Some (ex_delegate ''rb''))] =
      (if on_path [ex_ra] ex_rb
         then Done (ex_builder\<lparr>orphaned := orphaned ex_builder - {fullname ex_rb}\<rparr>,
                    SetInvalid (''route creates a delegation cycle: '' @
                      cycle_path [ex_ra] ex_rb) (WithObject ex_ra))
         else
           (case processIngressRoutes ex_deps [ex_ra, ex_rb] 2
                   (ex_builder\<lparr>orphaned := orphaned ex_builder - {fullname ex_rb}\<rparr>)
                   (WithObject ex_rb) ex_rb
                   (Match (ex_route ''/b'' [] (Some (ex_delegate ''rb'')))) [ex_ra]
                   ''a.example.com'' False of
              Done (b2, sw2) \<Rightarrow>
                processIngressRoutes_loop ex_deps [ex_ra, ex_rb] 2 (commit b2 sw2)
                  (WithObject ex_ra) ex_ra [] [ex_ra] ''a.example.com'' False []
            | Panic \<Rightarrow> Panic
            | OutOfFuel \<Rightarrow> OutOfFuel))"
    by blast
  then have 1: "processIngressRoutes_loop ex_deps [ex_ra, ex_rb] 2 ex_builder (WithObject ex_ra)
        ex_ra [] [ex_ra] ''a.example.com'' False
        [ex_route ''/b'' [] (Some (ex_delegate ''rb''))] =
      (case processIngressRoutes ex_deps [ex_ra, ex_rb] 2
              (ex_builder\<lparr>orphaned := orphaned ex_builder - {fullname ex_rb}\<rparr>)
              (WithObject ex_rb) ex_rb ''/b'' [ex_ra] ''a.example.com'' False of
         Done (b2, sw2) \<Rightarrow>
           processIngressRoutes_loop ex_deps [ex_ra, ex_rb] 2 (commit b2 sw2) (WithObject ex_ra)
             ex_ra [] [ex_ra] ''a.example.com'' False []
       | Panic \<Rightarrow> Panic
       | OutOfFuel \<Rightarrow> OutOfFuel)"
    unfolding ex_root_to_root_facts(5,6) by (simp only: if_False)
  from ex_root_to_root_facts(4) 1 ex_root_to_root_run(1,2) show ?thesis by (intro conjI)
qed

section \<open>The FQDN of a root\<close>

lemma walk_view_eq:
  "walk_view (c, sw') = walk_view (b, sw) \<longleftrightarrow>
     DisablePermitInsecure c = DisablePermitInsecure b \<and> written c = written b \<and>
     osw_obj sw' = osw_obj sw \<and> osw_status sw' = osw_status sw"
  by (auto simp: walk_view_def)

lemma walk_view_steps:
  assumes "walk_view (c, sw') = walk_view (b, sw)"
  shows "walk_view (c, SetInvalid msg sw') = walk_view (b, SetInvalid msg sw)"
    and "walk_view (c, SetValid sw') = walk_view (b, SetValid sw)"
    and "walk_view (addRoutes c h' tls r, sw') = walk_view (addRoutes b h tls r, sw)"
    and "walk_view (c\<lparr>orphaned := orphaned c - X\<rparr>, sw') =
         walk_view (b\<lparr>orphaned := orphaned b - X\<rparr>, sw)"
    and "walk_view (c\<lparr>securevirtualhosts := (securevirtualhosts c)(h' \<mapsto> v')\<rparr>, sw') =
         walk_view (b\<lparr>securevirtualhosts := (securevirtualhosts b)(h \<mapsto> v)\<rparr>, sw)"
  using assms
  by (auto simp: walk_view_def written_def SetInvalid_def SetValid_def addRoutes_def Let_def)

lemma walk_view_commit:
  assumes "walk_view (c2, sw2') = walk_view (b2, sw2)"
    and "osw_obj sw' = osw_obj sw" "osw_status sw' = osw_status sw"
  shows "walk_view (commit c2 sw2', sw') = walk_view (commit b2 sw2, sw)"
  using assms by (auto simp: walk_view_def written_def commit_def)

lemma walk_any_host:
  "\<forall>c sw'. walk_view (c, sw') = walk_view (b, sw) \<longrightarrow>
     map_outcome walk_view
       (processIngressRoutes deps src fuel c sw' ir prefixMatch visited h' enforceTLS) =
     map_outcome walk_view
       (processIngressRoutes deps src fuel b sw ir prefixMatch visited host enforceTLS)"
  and
  "\<forall>c sw'. walk_view (c, sw') = walk_view (b0, sw0) \<longrightarrow>
     map_outcome walk_view
       (processIngressRoutes_loop deps src fuel0 c sw' ir0 prefixMatch0 visited0 h' enforceTLS0
          routes) =
     map_outcome walk_view
       (processIngressRoutes_loop deps src fuel0 b0 sw0 ir0 prefixMatch0 visited0 host0
          enforceTLS0 routes)"
proof (induction deps src fuel b sw ir prefixMatch visited host enforceTLS
        and deps src fuel0 b0 sw0 ir0 prefixMatch0 visited0 host0 enforceTLS0 routes
        rule: processIngressRoutes_processIngressRoutes_loop.induct)
  case (1 deps src b sw ir prefixMatch visited host enforceTLS)
  then show ?case by simp
next
  case (2 deps src fuel b sw ir prefixMatch visited host enforceTLS)
  then show ?case by simp
next
  case (3 deps src fuel b sw ir prefixMatch visited host enforceTLS)
  then show ?case by (simp add: walk_view_eq SetValid_def)
next
  case (4 deps src fuel b sw ir prefixMatch visited host enforceTLS route routes)
  show ?case
  proof (intro allI impI)
    fix c sw'
    assume v: "walk_view (c, sw') = walk_view (b, sw)"
    then have dpi: "DisablePermitInsecure c = DisablePermitInsecure b"
      and obj: "osw_obj sw' = osw_obj sw" and st: "osw_status sw' = osw_status sw"
      by (simp_all add: walk_view_eq)
    have br: "buildRoute deps c ir prefixMatch enforceTLS route =
        buildRoute deps b ir prefixMatch enforceTLS route"
      using dpi by (simp add: buildRoute_def)
    let ?L = "processIngressRoutes_loop deps src fuel c sw' ir prefixMatch visited h' enforceTLS
        (route # routes)"
    let ?R = "processIngressRoutes_loop deps src fuel b sw ir prefixMatch visited host enforceTLS
        (route # routes)"
    show "map_outcome walk_view ?L = map_outcome walk_view ?R"
    proof (cases "Services route \<noteq> [] \<and> r_Delegate route \<noteq> None")
      case True
      then show ?thesis by (simp add: walk_view_steps(1)[OF v])
    next
      case both: False
      show ?thesis
      proof (cases "Services route \<noteq> []")
        case True
        show ?thesis
        proof (cases "buildRoute deps b ir prefixMatch enforceTLS route")
          case (Inl msg)
          with both True br show ?thesis by (simp add: walk_view_steps(1)[OF v])
        next
          case (Inr r)
          from "4.IH"(1)[OF both True Inr] walk_view_steps(3)[OF v, of h' enforceTLS r host]
          have "map_outcome walk_view
              (processIngressRoutes_loop deps src fuel (addRoutes c h' enforceTLS r) sw' ir
                 prefixMatch visited h' enforceTLS routes) =
            map_outcome walk_view
              (processIngressRoutes_loop deps src fuel (addRoutes b host enforceTLS r) sw ir
                 prefixMatch visited host enforceTLS routes)"
            by blast
          with both True br Inr show ?thesis by simp
        qed
      next
        case nosvc: False
        show ?thesis
        proof (cases "r_Delegate route")
          case None
          from "4.IH"(2)[OF both nosvc None] v
          have "map_outcome walk_view
              (processIngressRoutes_loop deps src fuel c sw' ir prefixMatch visited h'
                 enforceTLS routes) =
            map_outcome walk_view
              (processIngressRoutes_loop deps src fuel b sw ir prefixMatch visited host
                 enforceTLS routes)"
            by blast
          with both nosvc None show ?thesis by simp
        next
          case (Some d)
          show ?thesis
          proof (cases "lookup_ingressroute src (delegate_namespace ir d, d_Name d)")
            case None
            from "4.IH"(3)[OF both nosvc Some None] v
            have "map_outcome walk_view
                (processIngressRoutes_loop deps src fuel c sw' ir prefixMatch visited h'
                   enforceTLS routes) =
              map_outcome walk_view
                (processIngressRoutes_loop deps src fuel b sw ir prefixMatch visited host
                   enforceTLS routes)"
              by blast
            with both nosvc Some None show ?thesis by simp
          next
            case found: (Some dest)
            define b1 where "b1 = b\<lparr>orphaned := orphaned b - {fullname dest}\<rparr>"
            define c1 where "c1 = c\<lparr>orphaned := orphaned c - {fullname dest}\<rparr>"
            have v1: "walk_view (c1, sw') = walk_view (b1, sw)"
              unfolding b1_def c1_def by (rule walk_view_steps(4)[OF v])
            have v1': "walk_view (c1, WithObject dest) = walk_view (b1, WithObject dest)"
              using v1 by (simp add: walk_view_eq)
            show ?thesis
            proof (cases "on_path visited dest")
              case True
              with both nosvc Some found show ?thesis
                using walk_view_steps(1)[OF v1]
                by (simp add: Let_def b1_def c1_def)
            next
              case off: False
              from "4.IH"(4)[OF both nosvc Some found b1_def off] v1'
              have rec: "map_outcome walk_view
                  (processIngressRoutes deps src fuel c1 (WithObject dest) dest (Match route)
                     visited h' enforceTLS) =
                map_outcome walk_view
                  (processIngressRoutes deps src fuel b1 (WithObject dest) dest (Match route)
                     visited host enforceTLS)"
                by blast
              show ?thesis
              proof (cases "processIngressRoutes deps src fuel b1 (WithObject dest) dest
                  (Match route) visited host enforceTLS")
                case (Done r)
                obtain b2 sw2 where r: "r = (b2, sw2)" by (cases r) auto
                from rec Done obtain r' where
                  Done': "processIngressRoutes deps src fuel c1 (WithObject dest) dest
                    (Match route) visited h' enforceTLS = Done r'"
                  and vr: "walk_view r' = walk_view r"
                  by (cases "processIngressRoutes deps src fuel c1 (WithObject dest) dest
                    (Match route) visited h' enforceTLS") auto
                obtain c2 sw2' where r': "r' = (c2, sw2')" by (cases r') auto
                have v2: "walk_view (commit c2 sw2', sw') = walk_view (commit b2 sw2, sw)"
                  using vr obj st unfolding r r' by (rule walk_view_commit)
                from "4.IH"(5)[OF both nosvc Some found b1_def off Done[unfolded r] refl] v2
                have "map_outcome walk_view
                    (processIngressRoutes_loop deps src fuel (commit c2 sw2') sw' ir
                       prefixMatch visited h' enforceTLS routes) =
                  map_outcome walk_view
                    (processIngressRoutes_loop deps src fuel (commit b2 sw2) sw ir
                       prefixMatch visited host enforceTLS routes)"
                  by blast
                with both nosvc Some found off Done Done' r r' show ?thesis
                  by (simp add: Let_def b1_def c1_def)
              next
                case Panic
                with rec have "processIngressRoutes deps src fuel c1 (WithObject dest) dest
                    (Match route) visited h' enforceTLS = Panic"
                  by (cases "processIngressRoutes deps src fuel c1 (WithObject dest) dest
                    (Match route) visited h' enforceTLS") auto
                with both nosvc Some found off Panic show ?thesis
                  by (simp add: Let_def b1_def c1_def)
              next
                case OutOfFuel
                with rec have "processIngressRoutes deps src fuel c1 (WithObject dest) dest
                    (Match route) visited h' enforceTLS = OutOfFuel"
                  by (cases "processIngressRoutes deps src fuel c1 (WithObject dest) dest
                    (Match route) visited h' enforceTLS") auto
                with both nosvc Some found off OutOfFuel show ?thesis
                  by (simp add: Let_def b1_def c1_def)
              qed
            qed
          qed
        qed
      qed
    qed
  qed
qed

lemma tcpproxyClusters_update:
  "tcpproxyClusters deps (ir_VirtualHost_update g ir) services cs =
     tcpproxyClusters deps ir services cs"
  by (induction services arbitrary: cs) (simp_all cong: option.case_cong)

lemma tcp_walk_any_host:
  "\<forall>c sw'. walk_view (c, sw') = walk_view (b, sw) \<longrightarrow>
     map_outcome walk_view
       (processIngressRouteTCPProxy deps (map (ir_VirtualHost_update g) src) fuel c sw'
          (ir_VirtualHost_update g ir) (map (ir_VirtualHost_update g) visited) h') =
     map_outcome walk_view
       (processIngressRouteTCPProxy deps src fuel b sw ir visited host)"
proof (induction deps src fuel b sw ir visited host rule: processIngressRouteTCPProxy.induct)
  case (1 deps src b sw ir visited host)
  then show ?case by simp
next
  case (2 deps src fuel b sw ir visited host)
  let ?u = "ir_VirtualHost_update g"
  show ?case
  proof (intro allI impI)
    fix c sw'
    assume v: "walk_view (c, sw') = walk_view (b, sw)"
    then have obj: "osw_obj sw' = osw_obj sw" and st: "osw_status sw' = osw_status sw"
      by (simp_all add: walk_view_eq)
    have tp: "ir_TCPProxy (?u ir) = ir_TCPProxy ir" by simp
    have ns: "delegate_namespace (?u ir) d = delegate_namespace ir d" for d
      by (simp add: delegate_namespace_def)
    let ?L = "processIngressRouteTCPProxy deps (map ?u src) (Suc fuel) c sw' (?u ir)
        (map ?u visited) h'"
    let ?R = "processIngressRouteTCPProxy deps src (Suc fuel) b sw ir visited host"
    show "map_outcome walk_view ?L = map_outcome walk_view ?R"
    proof (cases "ir_TCPProxy ir")
      case None
      then show ?thesis by simp
    next
      case tcp: (Some tcpproxy)
      show ?thesis
      proof (cases "tcp_Services tcpproxy \<noteq> [] \<and> tcp_Delegate tcpproxy \<noteq> None")
        case True
        with tcp show ?thesis by (simp add: walk_view_steps(1)[OF v])
      next
        case both: False
        show ?thesis
        proof (cases "tcp_Services tcpproxy \<noteq> []")
          case True
          show ?thesis
          proof (cases "tcpproxyClusters deps ir (tcp_Services tcpproxy) []")
            case (Inl msg)
            with tcp both True show ?thesis
              by (simp add: tcpproxyClusters_update walk_view_steps(1)[OF v])
          next
            case (Inr cs)
            have "walk_view (c\<lparr>securevirtualhosts := (securevirtualhosts c)
                  (h' \<mapsto> (lookupSecureVirtualHost c h')
                     \<lparr>svh_TCPProxy := Some \<lparr>Clusters = cs\<rparr>\<rparr>)\<rparr>, SetValid sw') =
                walk_view (b\<lparr>securevirtualhosts := (securevirtualhosts b)
                  (host \<mapsto> (lookupSecureVirtualHost b host)
                     \<lparr>svh_TCPProxy := Some \<lparr>Clusters = cs\<rparr>\<rparr>)\<rparr>, SetValid sw)"
              by (rule walk_view_steps(2)[OF walk_view_steps(5)[OF v]])
            with tcp both True Inr show ?thesis
              by (simp add: tcpproxyClusters_update)
          qed
        next
          case nosvc: False
          show ?thesis
          proof (cases "tcp_Delegate tcpproxy")
            case None
            with tcp both nosvc show ?thesis by (simp add: v)
          next
            case (Some d)
            show ?thesis
            proof (cases "lookup_ingressroute src (delegate_namespace ir d, d_Name d)")
              case None
              with tcp both nosvc Some show ?thesis
                by (simp add: lookup_ingressroute_map ns v)
            next
              case found: (Some dest)
              define b1 where "b1 = b\<lparr>orphaned := orphaned b - {fullname dest}\<rparr>"
              define c1 where "c1 = c\<lparr>orphaned := orphaned c - {fullname dest}\<rparr>"
              have found': "lookup_ingressroute (map ?u src)
                  (delegate_namespace (?u ir) d, d_Name d) = Some (?u dest)"
                using found by (simp add: lookup_ingressroute_map ns)
              have fn: "fullname (?u dest) = fullname dest" by (simp add: fullname_def)
              have v1: "walk_view (c1, sw') = walk_view (b1, sw)"
                unfolding b1_def c1_def by (rule walk_view_steps(4)[OF v])
              have v1': "walk_view (c1, osw_WithObject sw' (?u dest)) =
                  walk_view (b1, osw_WithObject sw dest)"
                using v1 by (simp add: walk_view_eq osw_WithObject_def fn)
              have onp: "on_path (map ?u visited @ [?u ir]) (?u dest) =
                  on_path (visited @ [ir]) dest"
                using on_path_map[of g "visited @ [ir]" dest] by simp
              have cyc: "cycle_path (map ?u visited @ [?u ir]) (?u dest) =
                  cycle_path (visited @ [ir]) dest"
                using cycle_path_map[of g "visited @ [ir]" dest] by simp
              show ?thesis
              proof (cases "on_path (visited @ [ir]) dest")
                case True
                with tcp both nosvc Some found found' show ?thesis
                  using walk_view_steps(1)[OF v1]
                  by (simp add: Let_def onp cyc fn b1_def c1_def)
              next
                case off: False
                from "2.IH"[OF tcp both nosvc Some found b1_def off] v1'
                have rec: "map_outcome walk_view
                    (processIngressRouteTCPProxy deps (map ?u src) fuel c1
                       (osw_WithObject sw' (?u dest)) (?u dest) (map ?u visited @ [?u ir]) h') =
                  map_outcome walk_view
                    (processIngressRouteTCPProxy deps src fuel b1 (osw_WithObject sw dest) dest
                       (visited @ [ir]) host)"
                  by simp
                show ?thesis
                proof (cases "processIngressRouteTCPProxy deps src fuel b1
                    (osw_WithObject sw dest) dest (visited @ [ir]) host")
                  case (Done r)
                  obtain b2 sw2 where r: "r = (b2, sw2)" by (cases r) auto
                  from rec Done obtain r' where
                    Done': "processIngressRouteTCPProxy deps (map ?u src) fuel c1
                       (osw_WithObject sw' (?u dest)) (?u dest) (map ?u visited @ [?u ir]) h' =
                       Done r'"
                    and vr: "walk_view r' = walk_view r"
                    by (cases "processIngressRouteTCPProxy deps (map ?u src) fuel c1
                       (osw_WithObject sw' (?u dest)) (?u dest) (map ?u visited @ [?u ir]) h'")
                       auto
                  obtain c2 sw2' where r': "r' = (c2, sw2')" by (cases r') auto
                  have v2: "walk_view (commit c2 sw2', sw') = walk_view (commit b2 sw2, sw)"
                    using vr obj st unfolding r r' by (rule walk_view_commit)
                  with tcp both nosvc Some found found' off Done Done' r r' show ?thesis
                    by (simp add: Let_def onp fn b1_def c1_def)
                next
                  case Panic
                  with rec have "processIngressRouteTCPProxy deps (map ?u src) fuel c1
                       (osw_WithObject sw' (?u dest)) (?u dest) (map ?u visited @ [?u ir]) h' =
                       Panic"
                    by (cases "processIngressRouteTCPProxy deps (map ?u src) fuel c1
                       (osw_WithObject sw' (?u dest)) (?u dest) (map ?u visited @ [?u ir]) h'")
                       auto
                  with tcp both nosvc Some found found' off Panic show ?thesis
                    by (simp add: Let_def onp fn b1_def c1_def)
                next
                  case OutOfFuel
                  with rec have "processIngressRouteTCPProxy deps (map ?u src) fuel c1
                       (osw_WithObject sw' (?u dest)) (?u dest) (map ?u visited @ [?u ir]) h' =
                       OutOfFuel"
                    by (cases "processIngressRouteTCPProxy deps (map ?u src) fuel c1
                       (osw_WithObject sw' (?u dest)) (?u dest) (map ?u visited @ [?u ir]) h'")
                       auto
                  with tcp both nosvc Some found found' off OutOfFuel show ?thesis
                    by (simp add: Let_def onp fn b1_def c1_def)
                qed
              qed
            qed
          qed
        qed
      qed
    qed
  qed
qed

lemma rootTLS_any_host:
  assumes tls: "vh_TLS vh' = vh_TLS vh" and ns: "ir_Namespace ir' = ir_Namespace ir"
    and v: "walk_view (c, sw') = walk_view (b, sw)"
  shows "case rootTLS deps b ir vh sw of
           Inl w \<Rightarrow> \<exists>w'. rootTLS deps c ir' vh' sw' = Inl w' \<and>
                      osw_obj w' = osw_obj w \<and> osw_status w' = osw_status w
         | Inr (b1, e, p) \<Rightarrow> \<exists>c1. rootTLS deps c ir' vh' sw' = Inr (c1, e, p) \<and>
                      walk_view (c1, sw') = walk_view (b1, sw)"
proof (cases "vh_TLS vh")
  case None
  with tls v show ?thesis by (simp add: rootTLS_def)
next
  case (Some t)
  from v have obj: "osw_obj sw' = osw_obj sw" and st: "osw_status sw' = osw_status sw"
    by (simp_all add: walk_view_eq)
  show ?thesis
  proof (cases "SecretName t = [] \<and> Passthrough t")
    case True
    with Some tls v show ?thesis by (simp add: rootTLS_def Let_def)
  next
    case np: False
    show ?thesis
    proof (cases "lookupSecret deps (splitSecret deps (SecretName t) (ir_Namespace ir))")
      case (Inl err)
      with Some tls ns np obj st show ?thesis
        by (simp add: rootTLS_def Let_def SetInvalid_def)
    next
      case (Inr sec)
      show ?thesis
      proof (cases "delegationPermitted deps
          (splitSecret deps (SecretName t) (ir_Namespace ir)) (ir_Namespace ir)")
        case False
        with Some tls ns np Inr obj st show ?thesis
          by (simp add: rootTLS_def Let_def SetInvalid_def)
      next
        case True
        with Some tls ns np Inr show ?thesis
          using walk_view_steps(5)[OF v]
          by (simp add: rootTLS_def Let_def)
      qed
    qed
  qed
qed

lemma written_commit:
  assumes "written c = written b" "osw_obj w' = osw_obj w" "osw_status w' = osw_status w"
  shows "written (commit c w') = written (commit b w)"
  using assms by (simp add: written_def commit_def)

lemma map_outcome_walk_view_cases:
  assumes "map_outcome walk_view x = map_outcome walk_view y"
  shows "(\<exists>c sw' b sw. x = Done (c, sw') \<and> y = Done (b, sw) \<and>
             walk_view (c, sw') = walk_view (b, sw))
         \<or> (x = Panic \<and> y = Panic) \<or> (x = OutOfFuel \<and> y = OutOfFuel)"
  using assms by (cases x; cases y) auto

lemma outcome_tail_eq:
  assumes "map_outcome walk_view x = map_outcome walk_view y"
    and "\<And>c2 s2' b2 s2. walk_view (c2, s2') = walk_view (b2, s2) \<Longrightarrow>
           map_outcome written (F c2 s2') = map_outcome written (G b2 s2)"
  shows "map_outcome written
           (case x of Done (b2, sw2) \<Rightarrow> F b2 sw2 | Panic \<Rightarrow> Panic | OutOfFuel \<Rightarrow> OutOfFuel) =
         map_outcome written
           (case y of Done (b2, sw2) \<Rightarrow> G b2 sw2 | Panic \<Rightarrow> Panic | OutOfFuel \<Rightarrow> OutOfFuel)"
proof (cases x)
  case (Done r')
  obtain c2 s2' where r': "r' = (c2, s2')" by (cases r') auto
  from assms(1) Done obtain r where y: "y = Done r" and vr: "walk_view r' = walk_view r"
    by (cases y) auto
  obtain b2 s2 where r: "r = (b2, s2)" by (cases r) auto
  from assms(2)[of c2 s2' b2 s2] vr show ?thesis by (simp add: Done y r r')
next
  case Panic
  with assms(1) have "y = Panic" by (cases y) auto
  with Panic show ?thesis by simp
next
  case OutOfFuel
  with assms(1) have "y = OutOfFuel" by (cases y) auto
  with OutOfFuel show ?thesis by simp
qed

lemma root_any_fqdn:
  assumes root: "ir_VirtualHost ir = Some vh"
    and fq: "\<not> isBlank deps (Fqdn vh)" and g: "\<not> isBlank deps g"
  shows "map_outcome written
           (computeIngressRoute deps src b (ir\<lparr>ir_VirtualHost := Some (vh\<lparr>Fqdn := g\<rparr>)\<rparr>)) =
         map_outcome written (computeIngressRoute deps src b ir)"
proof (cases "rootAllowed deps (ir_Namespace ir)")
  case False
  with root show ?thesis
    by (simp add: computeIngressRoute_def Let_def WithObject_def fullname_def)
next
  case allowed: True
  define ir' where "ir' = ir\<lparr>ir_VirtualHost := Some (vh\<lparr>Fqdn := g\<rparr>)\<rparr>"
  define vh' where "vh' = vh\<lparr>Fqdn := g\<rparr>"
  define sw where "sw = WithValue_vhost (Fqdn vh) (WithObject ir)"
  define sw' where "sw' = WithValue_vhost (Fqdn vh') (WithObject ir')"
  define n where "n = Suc (length src)"
  let ?u = "ir_VirtualHost_update (\<lambda>_. None)"
  have root': "ir_VirtualHost ir' = Some vh'" by (simp add: ir'_def vh'_def)
  have ns: "ir_Namespace ir' = ir_Namespace ir" by (simp add: ir'_def)
  have tp: "ir_TCPProxy ir' = ir_TCPProxy ir" by (simp add: ir'_def)
  have g': "Fqdn vh' = g" by (simp add: vh'_def)
  have u: "?u ir' = ?u ir" by (simp add: ir'_def)
  have tls: "vh_TLS vh' = vh_TLS vh" by (simp add: vh'_def)
  have v0: "walk_view (b, sw') = walk_view (b, sw)"
    by (simp add: walk_view_eq sw_def sw'_def WithValue_vhost_def WithObject_def fullname_def
        ir'_def)
  have L: "computeIngressRoute deps src b ir' =
     (case rootTLS deps b ir' vh' sw' of
        Inl w \<Rightarrow> Done (commit b w)
      | Inr (b1, e, p) \<Rightarrow>
          (case (if ir_TCPProxy ir \<noteq> None \<and> (p \<or> e)
                 then processIngressRouteTCPProxy deps src n b1 sw' ir' [] g
                 else Done (b1, sw')) of
             Done (b2, sw2) \<Rightarrow>
               (case processIngressRoutes deps src n b2 sw2 ir' [] [] g
                       (ir_TCPProxy ir = None \<and> e) of
                  Done (b3, sw3) \<Rightarrow> Done (commit b3 sw3)
                | Panic \<Rightarrow> Panic
                | OutOfFuel \<Rightarrow> OutOfFuel)
           | Panic \<Rightarrow> Panic
           | OutOfFuel \<Rightarrow> OutOfFuel))"
    using computeIngressRoute_root[OF root', of deps src b] allowed g
    by (simp add: ns tp g' sw'_def n_def
        cong: sum.case_cong prod.case_cong outcome.case_cong if_cong)
  have R: "computeIngressRoute deps src b ir =
     (case rootTLS deps b ir vh sw of
        Inl w \<Rightarrow> Done (commit b w)
      | Inr (b1, e, p) \<Rightarrow>
          (case (if ir_TCPProxy ir \<noteq> None \<and> (p \<or> e)
                 then processIngressRouteTCPProxy deps src n b1 sw ir [] (Fqdn vh)
                 else Done (b1, sw)) of
             Done (b2, sw2) \<Rightarrow>
               (case processIngressRoutes deps src n b2 sw2 ir [] [] (Fqdn vh)
                       (ir_TCPProxy ir = None \<and> e) of
                  Done (b3, sw3) \<Rightarrow> Done (commit b3 sw3)
                | Panic \<Rightarrow> Panic
                | OutOfFuel \<Rightarrow> OutOfFuel)
           | Panic \<Rightarrow> Panic
           | OutOfFuel \<Rightarrow> OutOfFuel))"
    using computeIngressRoute_root[OF root allowed fq, of src b]
    by (simp add: sw_def n_def
        cong: sum.case_cong prod.case_cong outcome.case_cong if_cong)
  have walk: "map_outcome walk_view (processIngressRoutes deps src n c2 s2' ir' [] [] g e) =
      map_outcome walk_view (processIngressRoutes deps src n b2 s2 ir [] [] (Fqdn vh) e)"
    if "walk_view (c2, s2') = walk_view (b2, s2)" for c2 s2' b2 s2 e
  proof -
    have "processIngressRoutes deps src n c2 s2' ir' [] [] g e =
        processIngressRoutes deps (map ?u src) n c2 s2' (?u ir') [] (map ?u []) g e"
      by (rule walk_ignores_virtualhost(1)[symmetric])
    also have "\<dots> = processIngressRoutes deps src n c2 s2' ir [] [] g e"
      unfolding u by (rule walk_ignores_virtualhost(1))
    finally show ?thesis using walk_any_host(1)[of b2 s2 deps src n ir "[]" "[]" g e "Fqdn vh"] that
      by simp
  qed
  have tcpw: "map_outcome walk_view (processIngressRouteTCPProxy deps src n c1 sw' ir' [] g) =
      map_outcome walk_view (processIngressRouteTCPProxy deps src n b1 sw ir [] (Fqdn vh))"
    if v1: "walk_view (c1, sw') = walk_view (b1, sw)" for c1 b1
  proof -
    have A: "map_outcome walk_view
        (processIngressRouteTCPProxy deps (map ?u src) n c1 sw' (?u ir) (map ?u []) g) =
      map_outcome walk_view (processIngressRouteTCPProxy deps src n b1 sw ir [] (Fqdn vh))"
      using tcp_walk_any_host[of b1 sw deps "\<lambda>_. None" src n ir "[]" g "Fqdn vh"] v1 by blast
    have B: "map_outcome walk_view
        (processIngressRouteTCPProxy deps (map ?u src) n c1 sw' (?u ir') (map ?u []) g) =
      map_outcome walk_view (processIngressRouteTCPProxy deps src n c1 sw' ir' [] g)"
      using tcp_walk_any_host[of c1 sw' deps "\<lambda>_. None" src n ir' "[]" g g] by blast
    from A B show ?thesis unfolding u by simp
  qed
  have fin: "map_outcome written
        (case processIngressRoutes deps src n c2 s2' ir' [] [] g e of
           Done (b3, sw3) \<Rightarrow> Done (commit b3 sw3)
         | Panic \<Rightarrow> Panic | OutOfFuel \<Rightarrow> OutOfFuel) =
      map_outcome written
        (case processIngressRoutes deps src n b2 s2 ir [] [] (Fqdn vh) e of
           Done (b3, sw3) \<Rightarrow> Done (commit b3 sw3)
         | Panic \<Rightarrow> Panic | OutOfFuel \<Rightarrow> OutOfFuel)"
    if v2: "walk_view (c2, s2') = walk_view (b2, s2)" for c2 s2' b2 s2 e
  proof (rule outcome_tail_eq[OF walk[OF v2]])
    fix c3 s3' b3 s3
    assume "walk_view (c3, s3') = walk_view (b3, s3)"
    then have "written (commit c3 s3') = written (commit b3 s3)"
      by (intro written_commit) (simp_all add: walk_view_eq)
    then show "map_outcome written (Done (commit c3 s3')) =
        map_outcome written (Done (commit b3 s3))"
      by simp
  qed
  have "map_outcome written (computeIngressRoute deps src b ir') =
      map_outcome written (computeIngressRoute deps src b ir)"
  proof (cases "rootTLS deps b ir vh sw")
    case (Inl w)
    with rootTLS_any_host[OF tls ns v0, of deps] obtain w' where
      tl: "rootTLS deps b ir' vh' sw' = Inl w'" and "osw_obj w' = osw_obj w"
      "osw_status w' = osw_status w"
      by auto
    then have "written (commit b w') = written (commit b w)"
      by (intro written_commit) simp_all
    moreover have "computeIngressRoute deps src b ir' = Done (commit b w')"
      by (simp add: L tl)
    moreover have "computeIngressRoute deps src b ir = Done (commit b w)"
      by (simp add: R Inl)
    ultimately show ?thesis by simp
  next
    case (Inr t)
    obtain b1 e p where t: "t = (b1, e, p)" by (cases t) auto
    with Inr rootTLS_any_host[OF tls ns v0, of deps] obtain c1 where
      tl: "rootTLS deps b ir' vh' sw' = Inr (c1, e, p)"
      and v1: "walk_view (c1, sw') = walk_view (b1, sw)"
      by auto
    define X' where "X' = (if ir_TCPProxy ir \<noteq> None \<and> (p \<or> e)
                 then processIngressRouteTCPProxy deps src n c1 sw' ir' [] g
                 else Done (c1, sw'))"
    define X where "X = (if ir_TCPProxy ir \<noteq> None \<and> (p \<or> e)
                 then processIngressRouteTCPProxy deps src n b1 sw ir [] (Fqdn vh)
                 else Done (b1, sw))"
    have XX: "map_outcome walk_view X' = map_outcome walk_view X"
      unfolding X'_def X_def using tcpw[OF v1] v1 by simp
    have Lx: "computeIngressRoute deps src b ir' =
        (case X' of
           Done (b2, sw2) \<Rightarrow>
             (case processIngressRoutes deps src n b2 sw2 ir' [] [] g
                     (ir_TCPProxy ir = None \<and> e) of
                Done (b3, sw3) \<Rightarrow> Done (commit b3 sw3)
              | Panic \<Rightarrow> Panic
              | OutOfFuel \<Rightarrow> OutOfFuel)
         | Panic \<Rightarrow> Panic
         | OutOfFuel \<Rightarrow> OutOfFuel)"
      unfolding X'_def by (simp only: L tl sum.case prod.case)
    have Rx: "computeIngressRoute deps src b ir =
        (case X of
           Done (b2, sw2) \<Rightarrow>
             (case processIngressRoutes deps src n b2 sw2 ir [] [] (Fqdn vh)
                     (ir_TCPProxy ir = None \<and> e) of
                Done (b3, sw3) \<Rightarrow> Done (commit b3 sw3)
              | Panic \<Rightarrow> Panic
              | OutOfFuel \<Rightarrow> OutOfFuel)
         | Panic \<Rightarrow> Panic
         | OutOfFuel \<Rightarrow> OutOfFuel)"
      unfolding X_def by (simp only: R Inr t sum.case prod.case)
    show ?thesis unfolding Lx Rx
      by (rule outcome_tail_eq[OF XX]) (rule fin)
  qed
  then show ?thesis by (simp add: ir'_def)
qed

lemma buildRoute_builder:
  "DisablePermitInsecure b' = DisablePermitInsecure b \<Longrightarrow>
   buildRoute deps b' ir prefixMatch enforceTLS route =
   buildRoute deps b ir prefixMatch enforceTLS route"
  by (simp add: buildRoute_def)

lemma addRoutes_DisablePermitInsecure:
  "DisablePermitInsecure (addRoutes b host enforceTLS r) = DisablePermitInsecure b"
  by (simp add: addRoutes_def Let_def)

lemma loop_service_step:
  assumes "Services route \<noteq> []" "r_Delegate route = None"
    and "buildRoute deps b ir prefixMatch enforceTLS route = Inr r"
  shows "processIngressRoutes_loop deps src fuel b sw ir prefixMatch visited host enforceTLS
           (route # routes) =
         processIngressRoutes_loop deps src fuel (addRoutes b host enforceTLS r) sw ir
           prefixMatch visited host enforceTLS routes"
  by (subst processIngressRoutes_loop.simps(2)) (simp add: assms)

lemma loop_all_services:
  assumes "list_all2 (\<lambda>route r. Services route \<noteq> [] \<and> r_Delegate route = None \<and>
             buildRoute deps b0 ir prefixMatch enforceTLS route = Inr r) routes rs"
    and "DisablePermitInsecure b = DisablePermitInsecure b0"
  shows "processIngressRoutes_loop deps src fuel b sw ir prefixMatch visited host enforceTLS
           routes =
         Done (fold (\<lambda>r b. addRoutes b host enforceTLS r) rs b, SetValid sw)"
  using assms
proof (induction routes rs arbitrary: b rule: list_all2_induct)
  case Nil
  then show ?case by simp
next
  case (Cons route routes r rs)
  from Cons.hyps(1) have s: "Services route \<noteq> []" and d: "r_Delegate route = None"
    and b0: "buildRoute deps b0 ir prefixMatch enforceTLS route = Inr r"
    by blast+
  have br: "buildRoute deps b ir prefixMatch enforceTLS route = Inr r"
    using buildRoute_builder[OF Cons.prems] b0 by simp
  have "DisablePermitInsecure (addRoutes b host enforceTLS r) = DisablePermitInsecure b0"
    using Cons.prems by (simp only: addRoutes_DisablePermitInsecure)
  from Cons.IH[OF this] have
    "processIngressRoutes_loop deps src fuel (addRoutes b host enforceTLS r) sw ir
       prefixMatch visited host enforceTLS routes =
     Done (fold (\<lambda>r b. addRoutes b host enforceTLS r) (r # rs) b, SetValid sw)"
    by (simp only: fold_simps)
  with loop_service_step[OF s d br] show ?case by (simp only:)
qed

lemma addRoutes_virtualhosts:
  "virtualhosts (addRoutes b host enforceTLS r) host =
     Some ((lookupVirtualHost b host)\<lparr>vh_routes := vh_routes (lookupVirtualHost b host) @ [r]\<rparr>)"
  by (simp add: addRoutes_def Let_def addRoute_def)

lemma fold_addRoutes_virtualhosts:
  "rs \<noteq> [] \<Longrightarrow>
   virtualhosts (fold (\<lambda>r b. addRoutes b host enforceTLS r) rs b) host =
     Some ((lookupVirtualHost b host)\<lparr>vh_routes := vh_routes (lookupVirtualHost b host) @ rs\<rparr>)"
proof (induction rs arbitrary: b)
  case Nil
  then show ?case by simp
next
  case (Cons r rs)
  show ?case
  proof (cases "rs = []")
    case True
    then show ?thesis by (simp add: addRoutes_virtualhosts)
  next
    case False
    have l: "lookupVirtualHost (addRoutes b host enforceTLS r) host =
        (lookupVirtualHost b host)\<lparr>vh_routes := vh_routes (lookupVirtualHost b host) @ [r]\<rparr>"
      by (simp add: lookupVirtualHost_def[of "addRoutes b host enforceTLS r"]
          addRoutes_virtualhosts)
    from Cons.IH[OF False, of "addRoutes b host enforceTLS r"] show ?thesis
      by (simp add: l)
  qed
qed

text \<open>
  C10. For a root whose FQDN is not blank, the statuses written and the orphaned set do
  not depend on the FQDN: with any other FQDN that is not blank in its place,
  \<open>computeIngressRoute\<close> writes the same statuses for the same objects, so no status
  is due to a character of the FQDN such as \<open>*\<close>. And a root in an allowed namespace,
  with no TLS block and no TCP proxy, whose route entries all point to services and can
  be built, is Valid, and the host of its FQDN has the routes built from its entries,
  whatever the FQDN: \<open>*.example.com\<close> is built as any other.
\<close>

theorem wildcard_root_builds:
  assumes root: "ir_VirtualHost ir = Some vh"
    and fqdn: "\<not> isBlank deps (Fqdn vh)"
  shows "(\<forall>g. \<not> isBlank deps g \<longrightarrow>
            map_outcome written
              (computeIngressRoute deps src b
                 (ir\<lparr>ir_VirtualHost := Some (vh\<lparr>Fqdn := g\<rparr>)\<rparr>)) =
            map_outcome written (computeIngressRoute deps src b ir))
       \<and> (rootAllowed deps (ir_Namespace ir) \<and> vh_TLS vh = None \<and> ir_TCPProxy ir = None \<and>
          list_all2 (\<lambda>route r. Services route \<noteq> [] \<and> r_Delegate route = None \<and>
                       buildRoute deps b ir [] False route = Inr r) (Routes ir) rs \<longrightarrow>
            computeIngressRoute deps src b ir =
              Done (commit (fold (\<lambda>r b. addRoutes b (Fqdn vh) False r) rs b)
                      \<lparr>osw_obj = fullname ir, osw_status = Some Valid,
                       osw_vhost = Some (Fqdn vh)\<rparr>)
          \<and> (rs \<noteq> [] \<longrightarrow>
               virtualhosts (fold (\<lambda>r b. addRoutes b (Fqdn vh) False r) rs b) (Fqdn vh) =
                 Some ((lookupVirtualHost b (Fqdn vh))
                        \<lparr>vh_routes := vh_routes (lookupVirtualHost b (Fqdn vh)) @ rs\<rparr>)))"
proof (intro conjI[of "\<forall>g. _ g"] allI impI)
  fix g
  assume "\<not> isBlank deps g"
  with root fqdn show "map_outcome written
              (computeIngressRoute deps src b
                 (ir\<lparr>ir_VirtualHost := Some (vh\<lparr>Fqdn := g\<rparr>)\<rparr>)) =
            map_outcome written (computeIngressRoute deps src b ir)"
    by (rule root_any_fqdn)
next
  assume a: "rootAllowed deps (ir_Namespace ir) \<and> vh_TLS vh = None \<and> ir_TCPProxy ir = None \<and>
          list_all2 (\<lambda>route r. Services route \<noteq> [] \<and> r_Delegate route = None \<and>
                       buildRoute deps b ir [] False route = Inr r) (Routes ir) rs"
  then have allowed: "rootAllowed deps (ir_Namespace ir)" and notls: "vh_TLS vh = None"
    and notcp: "ir_TCPProxy ir = None"
    and entries: "list_all2 (\<lambda>route r. Services route \<noteq> [] \<and> r_Delegate route = None \<and>
                       buildRoute deps b ir [] False route = Inr r) (Routes ir) rs"
    by blast+
  let ?sw = "WithValue_vhost (Fqdn vh) (WithObject ir)"
  have tls: "rootTLS deps b ir vh ?sw = Inr (b, False, False)"
    using notls by (simp add: rootTLS_def)
  have "processIngressRoutes deps src (Suc (length src)) b ?sw ir [] [] (Fqdn vh) False =
      Done (fold (\<lambda>r b. addRoutes b (Fqdn vh) False r) rs b, SetValid ?sw)"
    using loop_all_services[OF entries refl, of src "length src" ?sw "[ir]" "Fqdn vh"]
    by simp
  with root notcp allowed fqdn tls
  have "computeIngressRoute deps src b ir =
      Done (commit (fold (\<lambda>r b. addRoutes b (Fqdn vh) False r) rs b) (SetValid ?sw))"
    by (simp add: computeIngressRoute_def Let_def)
  then have 1: "computeIngressRoute deps src b ir =
           Done (commit (fold (\<lambda>r b. addRoutes b (Fqdn vh) False r) rs b)
                   \<lparr>osw_obj = fullname ir, osw_status = Some Valid,
                    osw_vhost = Some (Fqdn vh)\<rparr>)"
    by (simp add: SetValid_def WithValue_vhost_def WithObject_def)
  have 2: "rs \<noteq> [] \<longrightarrow>
      virtualhosts (fold (\<lambda>r b. addRoutes b (Fqdn vh) False r) rs b) (Fqdn vh) =
        Some ((lookupVirtualHost b (Fqdn vh))
               \<lparr>vh_routes := vh_routes (lookupVirtualHost b (Fqdn vh)) @ rs\<rparr>)"
    by (simp add: fold_addRoutes_virtualhosts)
  from 1 2 show "computeIngressRoute deps src b ir =
              Done (commit (fold (\<lambda>r b. addRoutes b (Fqdn vh) False r) rs b)
                      \<lparr>osw_obj = fullname ir, osw_status = Some Valid,
                       osw_vhost = Some (Fqdn vh)\<rparr>)
          \<and> (rs \<noteq> [] \<longrightarrow>
               virtualhosts (fold (\<lambda>r b. addRoutes b (Fqdn vh) False r) rs b) (Fqdn vh) =
                 Some ((lookupVirtualHost b (Fqdn vh))
                        \<lparr>vh_routes := vh_routes (lookupVirtualHost b (Fqdn vh)) @ rs\<rparr>))"
    by (rule conjI)
qed

lemma ex_wildcard_facts:
  "ir_VirtualHost ex_wildcard = Some \<lparr>Fqdn = ''*.example.com'', vh_TLS = None\<rparr>"
  "vh_TLS \<lparr>Fqdn = ''*.example.com'', vh_TLS = None\<rparr> = None"
  "ir_TCPProxy ex_wildcard = None"
  "rootAllowed ex_deps (ir_Namespace ex_wildcard)"
  "\<not> isBlank ex_deps (Fqdn \<lparr>Fqdn = ''*.example.com'', vh_TLS = None\<rparr>)"
  "Routes ex_wildcard = [ex_route ''/'' [ex_kuard] None]"
  "Services (ex_route ''/'' [ex_kuard] None) \<noteq> []"
  "r_Delegate (ex_route ''/'' [ex_kuard] None) = None"
  "buildRoute ex_deps ex_builder ex_wildcard [] False (ex_route ''/'' [ex_kuard] None) =
     Inr (projr (buildRoute ex_deps ex_builder ex_wildcard [] False
                   (ex_route ''/'' [ex_kuard] None)))"
  "\<not> isBlank ex_deps ''www.example.com''"
  by code_simp+

theorem wildcard_root_builds_witness:
  "map_outcome written
     (computeIngressRoute ex_deps [ex_wildcard] ex_builder
        (ex_wildcard\<lparr>ir_VirtualHost := Some \<lparr>Fqdn = ''www.example.com'', vh_TLS = None\<rparr>\<rparr>)) =
   map_outcome written (computeIngressRoute ex_deps [ex_wildcard] ex_builder ex_wildcard)
   \<and> status_of (computeIngressRoute ex_deps [ex_wildcard] ex_builder ex_wildcard) =
     [((''default'', ''w''), Some Valid)]
   \<and> routes_of (computeIngressRoute ex_deps [ex_wildcard] ex_builder ex_wildcard)
       ''*.example.com'' =
     map PathCondition
       [projr (buildRoute ex_deps ex_builder ex_wildcard [] False
                 (ex_route ''/'' [ex_kuard] None))]"
proof -
  let ?r = "projr (buildRoute ex_deps ex_builder ex_wildcard [] False
                   (ex_route ''/'' [ex_kuard] None))"
  have entries: "list_all2 (\<lambda>route r. Services route \<noteq> [] \<and> r_Delegate route = None \<and>
                    buildRoute ex_deps ex_builder ex_wildcard [] False route = Inr r)
                  (Routes ex_wildcard) [?r]"
    using ex_wildcard_facts(7,8,9) by (simp add: ex_wildcard_facts(6))
  note w = wildcard_root_builds[OF ex_wildcard_facts(1,5), of "[ex_wildcard]" ex_builder "[?r]"]
  have l: "lookupVirtualHost ex_builder ''*.example.com'' =
      \<lparr>vh_Name = ''*.example.com'', vh_routes = []\<rparr>"
    by (simp add: lookupVirtualHost_def ex_builder_def)
  from w ex_wildcard_facts(10)
  have 0: "map_outcome written
     (computeIngressRoute ex_deps [ex_wildcard] ex_builder
        (ex_wildcard\<lparr>ir_VirtualHost := Some \<lparr>Fqdn = ''www.example.com'', vh_TLS = None\<rparr>\<rparr>)) =
   map_outcome written (computeIngressRoute ex_deps [ex_wildcard] ex_builder ex_wildcard)"
    by simp
  from w ex_wildcard_facts(2,3,4) entries
  have "computeIngressRoute ex_deps [ex_wildcard] ex_builder ex_wildcard =
      Done (commit (addRoutes ex_builder ''*.example.com'' False ?r)
              \<lparr>osw_obj = fullname ex_wildcard, osw_status = Some Valid,
               osw_vhost = Some ''*.example.com''\<rparr>)"
    and "virtualhosts (addRoutes ex_builder ''*.example.com'' False ?r) ''*.example.com'' =
      Some \<lparr>vh_Name = ''*.example.com'', vh_routes = [?r]\<rparr>"
    by (simp_all add: l)
  then have "status_of (computeIngressRoute ex_deps [ex_wildcard] ex_builder ex_wildcard) =
     [((''default'', ''w''), Some Valid)]
   \<and> routes_of (computeIngressRoute ex_deps [ex_wildcard] ex_builder ex_wildcard)
       ''*.example.com'' = map PathCondition [?r]"
    by (simp add: status_of_def routes_of_def commit_def addRoutes_def Let_def ex_builder_def
        fullname_def ex_wildcard_def ex_root_def)
  with 0 show ?thesis by (intro conjI) simp_all
qed

section \<open>Roots that declare the same FQDN\<close>

lemma fqdn_append_keys:
  "map fst (fqdn_append m f ir) = (if f \<in> fst ` set m then map fst m else map fst m @ [f])"
  by (induction m f ir rule: fqdn_append.induct) auto

lemma fqdn_append_distinct:
  "distinct (map fst m) \<Longrightarrow> distinct (map fst (fqdn_append m f ir))"
  by (auto simp: fqdn_append_keys)

lemma fqdn_append_map_of:
  "map_of (fqdn_append m f ir) g =
     (if g = f then Some ((case map_of m f of None \<Rightarrow> [] | Some xs \<Rightarrow> xs) @ [ir])
      else map_of m g)"
  by (induction m f ir rule: fqdn_append.induct) auto

lemma roots_of_snoc:
  "roots_of f (pre @ [ir]) =
     roots_of f pre @
     (case ir_VirtualHost ir of None \<Rightarrow> [] | Some vh \<Rightarrow> if Fqdn vh = f then [ir] else [])"
  by (simp add: roots_of_def split: option.splits)

lemma fqdn_append_roots:
  assumes m: "\<forall>f. map_of m f = (if roots_of f pre = [] then None else Some (roots_of f pre))"
    and vh: "ir_VirtualHost ir = Some vh"
  shows "map_of (fqdn_append m (Fqdn vh) ir) f =
     (if roots_of f (pre @ [ir]) = [] then None else Some (roots_of f (pre @ [ir])))"
proof (cases "f = Fqdn vh")
  case True
  from m have "(case map_of m f of None \<Rightarrow> [] | Some xs \<Rightarrow> xs) = roots_of f pre"
    by simp
  with True vh show ?thesis by (simp add: fqdn_append_map_of roots_of_snoc)
next
  case False
  with m vh show ?thesis by (simp add: fqdn_append_map_of roots_of_snoc)
qed

lemma validIngressRoutes_group_eq:
  assumes "distinct (map fst m)"
    and "\<forall>f. map_of m f = (if roots_of f pre = [] then None else Some (roots_of f pre))"
  shows "fst (validIngressRoutes_group src valid m) =
           valid @ filter (\<lambda>ir. ir_VirtualHost ir = None) src
       \<and> distinct (map fst (snd (validIngressRoutes_group src valid m)))
       \<and> (\<forall>f. map_of (snd (validIngressRoutes_group src valid m)) f =
             (if roots_of f (pre @ src) = [] then None else Some (roots_of f (pre @ src))))"
  using assms
proof (induction src arbitrary: valid m pre)
  case Nil
  then show ?case by simp
next
  case (Cons ir src)
  show ?case
  proof (cases "ir_VirtualHost ir")
    case None
    from Cons.prems(2) None
    have "\<forall>f. map_of m f =
        (if roots_of f (pre @ [ir]) = [] then None else Some (roots_of f (pre @ [ir])))"
      by (simp add: roots_of_snoc)
    from Cons.IH[OF Cons.prems(1) this, of "valid @ [ir]"] None show ?thesis by simp
  next
    case (Some vh)
    have d: "distinct (map fst (fqdn_append m (Fqdn vh) ir))"
      using Cons.prems(1) by (rule fqdn_append_distinct)
    have "\<forall>f. map_of (fqdn_append m (Fqdn vh) ir) f =
        (if roots_of f (pre @ [ir]) = [] then None else Some (roots_of f (pre @ [ir])))"
      using fqdn_append_roots[OF Cons.prems(2) Some] by blast
    from Cons.IH[OF d this, of valid] Some show ?thesis by simp
  qed
qed

lemma fold_mark_conflict:
  "fold (mark_conflict f msg) irs b =
     b\<lparr>statuses := statuses b @
          map (\<lambda>ir. \<lparr>osw_obj = fullname ir, osw_status = Some (Invalid msg),
                     osw_vhost = Some f\<rparr>) irs\<rparr>"
  by (induction irs arbitrary: b)
     (simp_all add: mark_conflict_def commit_def SetInvalid_def WithValue_vhost_def
       WithObject_def)

lemma validIngressRoutes_check_eq:
  "validIngressRoutes_check deps m b valid =
     (b\<lparr>statuses := statuses b @
          concat (map (\<lambda>(f, irs). if length irs = 1 then []
                    else map (\<lambda>ir. \<lparr>osw_obj = fullname ir,
                                     osw_status = Some (Invalid (conflict_msg deps f irs)),
                                     osw_vhost = Some f\<rparr>) irs) m)\<rparr>,
      valid @ concat (map (\<lambda>(f, irs). if length irs = 1 then irs else []) m))"
proof (induction m arbitrary: b valid)
  case Nil
  then show ?case by simp
next
  case (Cons a m)
  obtain f irs where a: "a = (f, irs)" by (cases a)
  show ?case
  proof (cases "length irs = 1")
    case True
    then obtain ir where "irs = [ir]" by (cases irs) auto
    with a Cons.IH[of b "valid @ [ir]"] show ?thesis by simp
  next
    case False
    then have "validIngressRoutes_check deps ((f, irs) # m) b valid =
        validIngressRoutes_check deps m
          (fold (mark_conflict f (conflict_msg deps f irs)) irs b) valid"
      by (cases irs; cases "tl irs") auto
    with a False Cons.IH[of "fold (mark_conflict f (conflict_msg deps f irs)) irs b" valid]
    show ?thesis by (simp add: fold_mark_conflict)
  qed
qed

lemma validIngressRoutes_eq:
  "\<exists>m. distinct (map fst m)
     \<and> (\<forall>f. map_of m f = (if roots_of f src = [] then None else Some (roots_of f src)))
     \<and> validIngressRoutes deps b src =
         (b\<lparr>statuses := statuses b @
              concat (map (\<lambda>(f, irs). if length irs = 1 then []
                        else map (\<lambda>ir. \<lparr>osw_obj = fullname ir,
                                         osw_status = Some (Invalid (conflict_msg deps f irs)),
                                         osw_vhost = Some f\<rparr>) irs) m)\<rparr>,
          filter (\<lambda>ir. ir_VirtualHost ir = None) src @
          concat (map (\<lambda>(f, irs). if length irs = 1 then irs else []) m))"
proof -
  have "distinct (map fst ([] :: (string \<times> IngressRoute list) list))" by simp
  moreover have "\<forall>f. map_of ([] :: (string \<times> IngressRoute list) list) f =
      (if roots_of f [] = [] then None else Some (roots_of f []))"
    by (simp add: roots_of_def)
  ultimately have g: "fst (validIngressRoutes_group src [] []) =
           [] @ filter (\<lambda>ir. ir_VirtualHost ir = None) src
       \<and> distinct (map fst (snd (validIngressRoutes_group src [] [])))
       \<and> (\<forall>f. map_of (snd (validIngressRoutes_group src [] [])) f =
             (if roots_of f ([] @ src) = [] then None else Some (roots_of f ([] @ src))))"
    by (rule validIngressRoutes_group_eq)
  obtain valid m where vm: "validIngressRoutes_group src [] [] = (valid, m)"
    by (cases "validIngressRoutes_group src [] []")
  show ?thesis
    by (rule exI[of _ m])
       (use g vm in \<open>simp add: validIngressRoutes_def validIngressRoutes_check_eq\<close>)
qed

lemma roots_of_member:
  "x \<in> set (roots_of f src) \<longleftrightarrow>
     x \<in> set src \<and> (\<exists>vh. ir_VirtualHost x = Some vh \<and> Fqdn vh = f)"
  by (auto simp: roots_of_def split: option.splits)

lemma validIngressRoutes_valid:
  "x \<in> set (snd (validIngressRoutes deps b src)) \<longleftrightarrow>
     x \<in> set src \<and>
     (case ir_VirtualHost x of None \<Rightarrow> True
      | Some vh \<Rightarrow> length (roots_of (Fqdn vh) src) = 1)"
proof -
  obtain m where d: "distinct (map fst m)"
    and r: "\<And>f. map_of m f = (if roots_of f src = [] then None else Some (roots_of f src))"
    and v: "snd (validIngressRoutes deps b src) =
          filter (\<lambda>ir. ir_VirtualHost ir = None) src @
          concat (map (\<lambda>(f, irs). if length irs = 1 then irs else []) m)"
    using validIngressRoutes_eq[of src deps b] by auto
  have mem: "(f, irs) \<in> set m \<longleftrightarrow> irs \<noteq> [] \<and> irs = roots_of f src" for f irs
    using map_of_eq_Some_iff[OF d, of f irs] r[of f] by (auto split: if_splits)
  show ?thesis
  proof (cases "ir_VirtualHost x")
    case None
    have "x \<notin> set (concat (map (\<lambda>(f, irs). if length irs = 1 then irs else []) m))"
      using None by (auto simp: mem roots_of_member split: if_splits)
    with None show ?thesis by (auto simp: v)
  next
    case (Some vh)
    have "x \<in> set (concat (map (\<lambda>(f, irs). if length irs = 1 then irs else []) m)) \<longleftrightarrow>
        x \<in> set src \<and> length (roots_of (Fqdn vh) src) = 1"
    proof
      assume "x \<in> set (concat (map (\<lambda>(f, irs). if length irs = 1 then irs else []) m))"
      then obtain f irs where "(f, irs) \<in> set m" "length irs = 1" "x \<in> set irs"
        by (auto split: if_splits)
      with Some show "x \<in> set src \<and> length (roots_of (Fqdn vh) src) = 1"
        by (auto simp: mem roots_of_member)
    next
      assume a: "x \<in> set src \<and> length (roots_of (Fqdn vh) src) = 1"
      then have "x \<in> set (roots_of (Fqdn vh) src)" using Some by (simp add: roots_of_member)
      moreover from a have "(Fqdn vh, roots_of (Fqdn vh) src) \<in> set m"
        by (auto simp: mem)
      ultimately show
        "x \<in> set (concat (map (\<lambda>(f, irs). if length irs = 1 then irs else []) m))"
        using a by (auto intro!: bexI[of _ "(Fqdn vh, roots_of (Fqdn vh) src)"])
    qed
    with Some show ?thesis by (auto simp: v)
  qed
qed

lemma validIngressRoutes_statuses:
  "sw \<in> set (statuses (fst (validIngressRoutes deps b src))) \<longleftrightarrow>
     sw \<in> set (statuses b) \<or>
     (\<exists>f ir. length (roots_of f src) \<noteq> 1 \<and> ir \<in> set (roots_of f src) \<and>
        sw = \<lparr>osw_obj = fullname ir,
              osw_status = Some (Invalid (conflict_msg deps f (roots_of f src))),
              osw_vhost = Some f\<rparr>)"
proof -
  obtain m where d: "distinct (map fst m)"
    and r: "\<And>f. map_of m f = (if roots_of f src = [] then None else Some (roots_of f src))"
    and v: "statuses (fst (validIngressRoutes deps b src)) =
          statuses b @
              concat (map (\<lambda>(f, irs). if length irs = 1 then []
                        else map (\<lambda>ir. \<lparr>osw_obj = fullname ir,
                                         osw_status = Some (Invalid (conflict_msg deps f irs)),
                                         osw_vhost = Some f\<rparr>) irs) m)"
    using validIngressRoutes_eq[of src deps b] by auto
  have mem: "(f, irs) \<in> set m \<longleftrightarrow> irs \<noteq> [] \<and> irs = roots_of f src" for f irs
    using map_of_eq_Some_iff[OF d, of f irs] r[of f] by (auto split: if_splits)
  have "sw \<in> set (concat (map (\<lambda>(f, irs). if length irs = 1 then []
                        else map (\<lambda>ir. \<lparr>osw_obj = fullname ir,
                                         osw_status = Some (Invalid (conflict_msg deps f irs)),
                                         osw_vhost = Some f\<rparr>) irs) m)) \<longleftrightarrow>
     (\<exists>f ir. length (roots_of f src) \<noteq> 1 \<and> ir \<in> set (roots_of f src) \<and>
        sw = \<lparr>osw_obj = fullname ir,
              osw_status = Some (Invalid (conflict_msg deps f (roots_of f src))),
              osw_vhost = Some f\<rparr>)"
  proof
    assume "sw \<in> set (concat (map (\<lambda>(f, irs). if length irs = 1 then []
                        else map (\<lambda>ir. \<lparr>osw_obj = fullname ir,
                                         osw_status = Some (Invalid (conflict_msg deps f irs)),
                                         osw_vhost = Some f\<rparr>) irs) m))"
    then obtain f irs ir where "(f, irs) \<in> set m" "length irs \<noteq> 1" "ir \<in> set irs"
      "sw = \<lparr>osw_obj = fullname ir, osw_status = Some (Invalid (conflict_msg deps f irs)),
             osw_vhost = Some f\<rparr>"
      by (auto split: if_splits)
    then show "\<exists>f ir. length (roots_of f src) \<noteq> 1 \<and> ir \<in> set (roots_of f src) \<and>
        sw = \<lparr>osw_obj = fullname ir,
              osw_status = Some (Invalid (conflict_msg deps f (roots_of f src))),
              osw_vhost = Some f\<rparr>"
      by (auto simp: mem)
  next
    assume "\<exists>f ir. length (roots_of f src) \<noteq> 1 \<and> ir \<in> set (roots_of f src) \<and>
        sw = \<lparr>osw_obj = fullname ir,
              osw_status = Some (Invalid (conflict_msg deps f (roots_of f src))),
              osw_vhost = Some f\<rparr>"
    then obtain f ir where a: "length (roots_of f src) \<noteq> 1" "ir \<in> set (roots_of f src)"
      "sw = \<lparr>osw_obj = fullname ir,
              osw_status = Some (Invalid (conflict_msg deps f (roots_of f src))),
              osw_vhost = Some f\<rparr>"
      by blast
    then have "(f, roots_of f src) \<in> set m" by (auto simp: mem)
    with a show "sw \<in> set (concat (map (\<lambda>(f, irs). if length irs = 1 then []
                        else map (\<lambda>ir. \<lparr>osw_obj = fullname ir,
                                         osw_status = Some (Invalid (conflict_msg deps f irs)),
                                         osw_vhost = Some f\<rparr>) irs) m))"
      by (auto intro!: bexI[of _ "(f, roots_of f src)"])
  qed
  then show ?thesis by (simp add: v)
qed

lemma validIngressRoutes_hosts:
  "virtualhosts (fst (validIngressRoutes deps b src)) = virtualhosts b"
  "securevirtualhosts (fst (validIngressRoutes deps b src)) = securevirtualhosts b"
  using validIngressRoutes_eq[of src deps b] by auto

text \<open>
  C2. For a root of the source: when two or more roots of the source declare its FQDN,
  \<open>validIngressRoutes\<close> commits for it the status Invalid, with the FQDN and a message
  that lists the names of all the roots declaring that FQDN, sorted and joined by
  commas; the root is not among the resources that are built, and the hosts of that
  FQDN, plain and secure, are after \<open>computeIngressRoutes\<close> what they were before. When
  the root is the only one that declares its FQDN, it is among the resources that are
  built, and \<open>validIngressRoutes\<close> commits no status for that FQDN.
\<close>

theorem fqdn_conflict_invalid:
  assumes ir: "ir \<in> set src" and vh: "ir_VirtualHost ir = Some vh"
  shows "(2 \<le> length (roots_of (Fqdn vh) src) \<longrightarrow>
            \<lparr>osw_obj = fullname ir,
             osw_status = Some (Invalid
               (''fqdn '' @ fmt_q deps (Fqdn vh) @ '' is used in multiple IngressRoutes: '' @
                Join (sort (map resource_path (roots_of (Fqdn vh) src))) '', '')),
             osw_vhost = Some (Fqdn vh)\<rparr>
              \<in> set (statuses (fst (validIngressRoutes deps b src)))
          \<and> ir \<notin> set (snd (validIngressRoutes deps b src))
          \<and> (\<forall>b'. computeIngressRoutes deps src b = Done b' \<longrightarrow>
                virtualhosts b' (Fqdn vh) = virtualhosts b (Fqdn vh) \<and>
                securevirtualhosts b' (Fqdn vh) = securevirtualhosts b (Fqdn vh)))
       \<and> (length (roots_of (Fqdn vh) src) = 1 \<longrightarrow>
            ir \<in> set (snd (validIngressRoutes deps b src))
          \<and> (\<forall>sw \<in> set (statuses (fst (validIngressRoutes deps b src))).
                osw_vhost sw = Some (Fqdn vh) \<longrightarrow> sw \<in> set (statuses b)))"
proof (intro conjI[of "_ \<in> _"] conjI[of "_ \<notin> _"] conjI[of "_ \<longrightarrow> _"] impI allI ballI)
  assume two: "2 \<le> length (roots_of (Fqdn vh) src)"
  from ir vh have "ir \<in> set (roots_of (Fqdn vh) src)" by (simp add: roots_of_member)
  with two show "\<lparr>osw_obj = fullname ir,
             osw_status = Some (Invalid
               (''fqdn '' @ fmt_q deps (Fqdn vh) @ '' is used in multiple IngressRoutes: '' @
                Join (sort (map resource_path (roots_of (Fqdn vh) src))) '', '')),
             osw_vhost = Some (Fqdn vh)\<rparr>
              \<in> set (statuses (fst (validIngressRoutes deps b src)))"
    unfolding validIngressRoutes_statuses conflict_msg_def
    by (intro disjI2 exI[of _ "Fqdn vh"] exI[of _ ir]) simp
next
  assume two: "2 \<le> length (roots_of (Fqdn vh) src)"
  with vh show "ir \<notin> set (snd (validIngressRoutes deps b src))"
    by (simp add: validIngressRoutes_valid)
next
  fix b'
  assume two: "2 \<le> length (roots_of (Fqdn vh) src)"
    and run: "computeIngressRoutes deps src b = Done b'"
  obtain b0 valid where v: "validIngressRoutes deps b src = (b0, valid)"
    by (cases "validIngressRoutes deps b src")
  with run have loop: "computeIngressRoutes_loop deps src b0 valid = Done b'"
    by (simp add: computeIngressRoutes_def)
  have other: "Fqdn vh' \<noteq> Fqdn vh" if "x \<in> set valid" "ir_VirtualHost x = Some vh'" for x vh'
  proof
    assume "Fqdn vh' = Fqdn vh"
    moreover from that v have "length (roots_of (Fqdn vh') src) = 1"
      using validIngressRoutes_valid[of x deps b src] by simp
    ultimately show False using two by simp
  qed
  have "virtualhosts b' (Fqdn vh) = virtualhosts b0 (Fqdn vh) \<and>
      securevirtualhosts b' (Fqdn vh) = securevirtualhosts b0 (Fqdn vh)"
    by (rule computeIngressRoutes_loop_other_host[OF other loop])
  moreover have "virtualhosts b0 = virtualhosts b" "securevirtualhosts b0 = securevirtualhosts b"
    using validIngressRoutes_hosts[of deps b src] v by simp_all
  ultimately show "virtualhosts b' (Fqdn vh) = virtualhosts b (Fqdn vh) \<and>
                securevirtualhosts b' (Fqdn vh) = securevirtualhosts b (Fqdn vh)"
    by simp
next
  assume "length (roots_of (Fqdn vh) src) = 1"
  with ir vh show "ir \<in> set (snd (validIngressRoutes deps b src))"
    by (simp add: validIngressRoutes_valid)
next
  fix sw
  assume one: "length (roots_of (Fqdn vh) src) = 1"
    and sw: "sw \<in> set (statuses (fst (validIngressRoutes deps b src)))"
    and h: "osw_vhost sw = Some (Fqdn vh)"
  from sw consider "sw \<in> set (statuses b)"
    | f where "length (roots_of f src) \<noteq> 1" "osw_vhost sw = Some f"
    unfolding validIngressRoutes_statuses by auto
  then show "sw \<in> set (statuses b)"
  proof cases
    case 1
    then show ?thesis .
  next
    case 2
    with h one show ?thesis by simp
  qed
qed

lemma ex_conflict_facts:
  "ex_x1 \<in> set ex_conflict"
  "ir_VirtualHost ex_x1 = Some \<lparr>Fqdn = ''x.example.com'', vh_TLS = None\<rparr>"
  "ex_c \<in> set ex_conflict"
  "ir_VirtualHost ex_c = Some \<lparr>Fqdn = ''c.example.com'', vh_TLS = None\<rparr>"
  "fullname ex_x1 = (''default'', ''x1'')"
  by (simp_all add: ex_conflict_def ex_x1_def ex_c_def ex_root_def fullname_def)

lemma ex_conflict_roots:
  "length (roots_of ''x.example.com'' ex_conflict) = 2"
  "length (roots_of ''c.example.com'' ex_conflict) = 1"
  "Join (sort (map resource_path (roots_of ''x.example.com'' ex_conflict))) '', '' =
     ''default/x1, default/x2''"
  by code_simp+

lemma ex_conflict_run:
  "case computeIngressRoutes ex_deps ex_conflict ex_builder of
     Done b' \<Rightarrow> True | Panic \<Rightarrow> False | OutOfFuel \<Rightarrow> False"
  "virtualhosts ex_builder ''x.example.com'' = None"
  "securevirtualhosts ex_builder ''x.example.com'' = None"
  "status_of (computeIngressRoutes ex_deps ex_conflict ex_builder) =
     [((''default'', ''x2''),
       Some (Invalid (''fqdn '' @ fmt_q ex_deps ''x.example.com'' @
          '' is used in multiple IngressRoutes: default/x1, default/x2''))),
      ((''default'', ''x1''),
       Some (Invalid (''fqdn '' @ fmt_q ex_deps ''x.example.com'' @
          '' is used in multiple IngressRoutes: default/x1, default/x2''))),
      ((''default'', ''c''), Some Valid)]"
  "routes_of (computeIngressRoutes ex_deps ex_conflict ex_builder) ''c.example.com'' = [''/'']"
  by code_simp+

theorem fqdn_conflict_invalid_witness:
  "\<lparr>osw_obj = (''default'', ''x1''),
    osw_status = Some (Invalid (''fqdn '' @ fmt_q ex_deps ''x.example.com'' @
       '' is used in multiple IngressRoutes: default/x1, default/x2'')),
    osw_vhost = Some ''x.example.com''\<rparr>
     \<in> set (statuses (fst (validIngressRoutes ex_deps ex_builder ex_conflict)))
   \<and> ex_x1 \<notin> set (snd (validIngressRoutes ex_deps ex_builder ex_conflict))
   \<and> (\<exists>b'. computeIngressRoutes ex_deps ex_conflict ex_builder = Done b' \<and>
           virtualhosts b' ''x.example.com'' = None \<and>
           securevirtualhosts b' ''x.example.com'' = None)
   \<and> ex_c \<in> set (snd (validIngressRoutes ex_deps ex_builder ex_conflict))
   \<and> status_of (computeIngressRoutes ex_deps ex_conflict ex_builder) =
     [((''default'', ''x2''),
       Some (Invalid (''fqdn '' @ fmt_q ex_deps ''x.example.com'' @
          '' is used in multiple IngressRoutes: default/x1, default/x2''))),
      ((''default'', ''x1''),
       Some (Invalid (''fqdn '' @ fmt_q ex_deps ''x.example.com'' @
          '' is used in multiple IngressRoutes: default/x1, default/x2''))),
      ((''default'', ''c''), Some Valid)]
   \<and> routes_of (computeIngressRoutes ex_deps ex_conflict ex_builder) ''c.example.com'' = [''/'']"
proof -
  note x = fqdn_conflict_invalid[OF ex_conflict_facts(1,2), of ex_deps ex_builder]
  note c = fqdn_conflict_invalid[OF ex_conflict_facts(3,4), of ex_deps ex_builder]
  obtain b' where run: "computeIngressRoutes ex_deps ex_conflict ex_builder = Done b'"
    using ex_conflict_run(1)
    by (cases "computeIngressRoutes ex_deps ex_conflict ex_builder") simp_all
  from x have 1: "\<lparr>osw_obj = (''default'', ''x1''),
      osw_status = Some (Invalid (''fqdn '' @ fmt_q ex_deps ''x.example.com'' @
         '' is used in multiple IngressRoutes: default/x1, default/x2'')),
      osw_vhost = Some ''x.example.com''\<rparr>
       \<in> set (statuses (fst (validIngressRoutes ex_deps ex_builder ex_conflict)))"
    by (simp add: ex_conflict_roots ex_conflict_facts(5))
  from x have 2: "ex_x1 \<notin> set (snd (validIngressRoutes ex_deps ex_builder ex_conflict))"
    by (simp add: ex_conflict_roots)
  from x run have "virtualhosts b' ''x.example.com'' = None \<and>
      securevirtualhosts b' ''x.example.com'' = None"
    by (simp add: ex_conflict_roots ex_conflict_run(2,3))
  with run have 3: "\<exists>b'. computeIngressRoutes ex_deps ex_conflict ex_builder = Done b' \<and>
           virtualhosts b' ''x.example.com'' = None \<and>
           securevirtualhosts b' ''x.example.com'' = None"
    by blast
  from c have 4: "ex_c \<in> set (snd (validIngressRoutes ex_deps ex_builder ex_conflict))"
    by (simp add: ex_conflict_roots)
  from 1 2 3 4 ex_conflict_run(4,5) show ?thesis by (intro conjI)
qed

end
